(* ===== verification/Prelude.thy ===== *)
theory Prelude
  imports Main "HOL-Library.Word" "HOL-Library.Monad_Syntax"
begin

text \<open>
  Shared vocabulary of the development: the machine-integer types of
  \<open>kernel/generic/types.hh\<close>, the error codes the kernel returns, the two result types
  (\<open>kresult_t\<close> and \<open>ReturnStr\<close>), assertions, and the list lemmas the components share.

  A kernel \<open>assert\<close> that fails panics the machine. Every operation that contains an
  assertion therefore has a result of type \<open>'a option\<close>, and \<open>None\<close> is the panic; an error
  the code returns to its caller is a value of the sum type \<open>'a ReturnStr\<close>.
\<close>

section \<open>Machine integers\<close>

type_synonym u8 = "8 word"
type_synonym u32 = "32 word"
type_synonym u64 = "64 word"

section \<open>Errors and results\<close>

datatype errno =
    EPERM | ENOENT | ESRCH | EAGAIN | ENOMEM | EFAULT | EEXIST | EINVAL | ENOTSUP | ERANGE | ENOSYS

text \<open>\<open>ReturnStr<T>\<close> is an error code or a value; \<open>kresult_t\<close> is an error code or 0.\<close>

type_synonym 'a ReturnStr = "errno + 'a"
type_synonym kresult = "errno + unit"

abbreviation Success :: "'a \<Rightarrow> 'a ReturnStr" where "Success x \<equiv> Inr x"
abbreviation Error :: "errno \<Rightarrow> 'a ReturnStr" where "Error e \<equiv> Inl e"
abbreviation kok :: kresult where "kok \<equiv> Inr ()"

section \<open>Assertions\<close>

definition kassert :: "bool \<Rightarrow> unit option" where
  "kassert b = (if b then Some () else None)"

lemma kassert_bind [simp]: "kassert b \<bind> f = (if b then f () else None)"
  by (simp add: kassert_def)

lemma kassert_True [simp]: "kassert True = Some ()"
  by (simp add: kassert_def)

lemma kassert_eq_Some [simp]: "kassert b = Some u \<longleftrightarrow> b"
  by (simp add: kassert_def)

section \<open>Collections of rewrite rules\<close>

named_theorems kernel_defs \<open>definitions of the operations of a component, unfolded together\<close>
named_theorems inv_defs \<open>definitions of the invariants of a component\<close>

section \<open>Lists\<close>

lemma set_remove1_distinct [simp]: "distinct xs \<Longrightarrow> set (remove1 x xs) = set xs - {x}"
  by (rule set_remove1_eq)

lemma remove1_hd [simp]: "remove1 x (x # xs) = xs"
  by simp

lemma hd_in_set_iff: "xs \<noteq> [] \<Longrightarrow> hd xs \<in> set xs"
  by (rule hd_in_set)

end
