(* ===== verification/Timers.thy ===== *)
theory Timers
  imports Prelude
begin

text \<open>
  Timer rights: \<open>kernel/generic/sched/timers.cc\<close>, the per-CPU timer queue of
  \<open>kernel/generic/sched/sched.hh\<close> and \<open>sched.cc\<close> (\<open>cpu_timer_interrupt\<close>,
  \<open>CPU_Info::sched_timer\<close>, \<open>get_attention\<close>) and \<open>maybe_rearm_timer\<close>.

  A timer right is created for a port, is armed on the CPU that sets its deadline, and
  when it fires becomes a message in the queue of its port. It is owned by up to four
  places at once (the rights of its port, the timer queue and the attention queue of its
  CPU, the message queue of its port), and is handed to the read-copy-update machinery for
  deletion by whichever operation takes it out of the last of them.

  Every operation runs under the lock of the timer. The two windows the code leaves open,
  between taking a timer out of the timer queue and \<open>fire\<close> locking it, and between taking
  it out of the message queue and \<open>delete_self\<close> locking it, are states of the model
  (\<open>Firing\<close> and \<open>popped\<close>), so operations of other CPUs interleave there.
\<close>

section \<open>State\<close>

datatype tnode = STN | TR nat
  \<comment> \<open>a node of a timer queue: the scheduler's own node of the CPU, or a timer right\<close>

record timer =
  t_parent :: nat                   \<comment> \<open>\<open>RecieveRight::parent\<close>, the port\<close>
  t_parent_id :: u64                \<comment> \<open>\<open>RecieveRight::right_parent_id\<close>\<close>
  parent_cpu :: "nat option"
  fire_at_ns :: u64
  next_update_ns :: u64
  is_sent :: bool
  in_timer_queue :: bool
  waiting_for_attention :: bool
  t_alive :: bool

datatype irq_pc = Idle | Scan u64 | Firing u64 nat
  \<comment> \<open>where the CPU is in \<open>cpu_timer_interrupt\<close>: not in it; in its loop, with the time read at
    entry; with a timer taken out of the queue whose \<open>fire\<close> has not run yet\<close>

record cpu_timers =
  timer_queue :: "tnode list"       \<comment> \<open>in the order of the tree\<close>
  attention_queue :: "nat list"
  local_timer_next_deadline :: u64  \<comment> \<open>0 when the hardware timer is not running\<close>
  stn_fire_at :: u64                \<comment> \<open>\<open>stn.fire_at_ns\<close>\<close>
  sched_timer_deadline :: u64
  irq :: irq_pc

record tport =
  tp_alive :: bool
  tp_current_right_id :: u64
  tp_rights :: "nat list"           \<comment> \<open>the timers among the rights of the port\<close>
  tp_queue :: "nat list"            \<comment> \<open>the timers in the message queue, in order\<close>

record tsys =
  timers :: "nat \<Rightarrow> timer"
  tcpus :: "nat \<Rightarrow> cpu_timers"
  tports :: "nat \<Rightarrow> tport"
  t_known :: "nat list"             \<comment> \<open>the timers that were created\<close>
  popped :: "nat list"              \<comment> \<open>out of a message queue, \<open>delete_self\<close> not yet run\<close>
  rcu_pushed :: "nat list"          \<comment> \<open>calls of \<open>delete_timer_right\<close>, latest first\<close>

definition upd_timer :: "nat \<Rightarrow> (timer \<Rightarrow> timer) \<Rightarrow> tsys \<Rightarrow> tsys" where
  "upd_timer t f s = s\<lparr>timers := (timers s)(t := f (timers s t))\<rparr>"

definition upd_tcpu :: "nat \<Rightarrow> (cpu_timers \<Rightarrow> cpu_timers) \<Rightarrow> tsys \<Rightarrow> tsys" where
  "upd_tcpu c f s = s\<lparr>tcpus := (tcpus s)(c := f (tcpus s c))\<rparr>"

definition upd_tport :: "nat \<Rightarrow> (tport \<Rightarrow> tport) \<Rightarrow> tsys \<Rightarrow> tsys" where
  "upd_tport p f s = s\<lparr>tports := (tports s)(p := f (tports s p))\<rparr>"

lemmas tupd_defs = upd_timer_def upd_tcpu_def upd_tport_def

section \<open>The timer queue of a CPU\<close>

fun node_key :: "tsys \<Rightarrow> nat \<Rightarrow> tnode \<Rightarrow> u64" where
  "node_key s c STN = stn_fire_at (tcpus s c)"
| "node_key s c (TR t) = fire_at_ns (timers s t)"

text \<open>
  \<open>timer_queue.insert\<close>: the tree is ordered by the deadline and an equal key descends to
  the right, so a node lands after every node that is not later than it.
\<close>

fun tq_insert :: "(tnode \<Rightarrow> u64) \<Rightarrow> tnode \<Rightarrow> tnode list \<Rightarrow> tnode list" where
  "tq_insert k n [] = [n]"
| "tq_insert k n (m # ms) = (if k n < k m then n # m # ms else m # tq_insert k n ms)"

definition timer_queue_insert :: "nat \<Rightarrow> tnode \<Rightarrow> tsys \<Rightarrow> tsys" where
  "timer_queue_insert c n s =
     upd_tcpu c (\<lambda>q. q\<lparr>timer_queue := tq_insert (node_key s c) n (timer_queue q)\<rparr>) s"

definition timer_queue_erase :: "nat \<Rightarrow> tnode \<Rightarrow> tsys \<Rightarrow> tsys" where
  "timer_queue_erase c n s = upd_tcpu c (\<lambda>q. q\<lparr>timer_queue := remove1 n (timer_queue q)\<rparr>) s"

definition attention_queue_erase :: "nat \<Rightarrow> nat \<Rightarrow> tsys \<Rightarrow> tsys" where
  "attention_queue_erase c t s =
     upd_tcpu c (\<lambda>q. q\<lparr>attention_queue := remove1 t (attention_queue q)\<rparr>) s"

definition maybe_rearm_timer :: "nat \<Rightarrow> u64 \<Rightarrow> tsys \<Rightarrow> tsys" where
  "maybe_rearm_timer c deadline s =
     (let armed = local_timer_next_deadline (tcpus s c) in
      if armed \<noteq> 0 \<and> armed < deadline then s
      else upd_tcpu c (\<lambda>q. q\<lparr>local_timer_next_deadline := deadline\<rparr>) s)"

definition delete_timer_right :: "nat \<Rightarrow> tsys \<Rightarrow> tsys" where
  "delete_timer_right t s = s\<lparr>rcu_pushed := t # rcu_pushed s\<rparr>"

definition should_delete_self :: "timer \<Rightarrow> bool" where
  "should_delete_self r \<longleftrightarrow>
     \<not> t_alive r \<and> \<not> waiting_for_attention r \<and> \<not> in_timer_queue r \<and> \<not> is_sent r"

section \<open>Operations of a timer right\<close>

text \<open>
  \<open>create_for_port\<close>: \<open>alloc\<close> is the address \<open>make_unique\<close> returns, \<open>None\<close> when the
  allocation fails. The identifier is taken before the port is found to be dead, as in the
  code.
\<close>

definition create_for_port :: "nat option \<Rightarrow> nat \<Rightarrow> tsys \<Rightarrow> nat ReturnStr \<times> tsys" where
  "create_for_port alloc p s =
     (case alloc of None \<Rightarrow> (Error ENOMEM, s)
      | Some t \<Rightarrow>
         (let i = tp_current_right_id (tports s p) + 1;
              s1 = upd_tport p (\<lambda>q. q\<lparr>tp_current_right_id := i\<rparr>) s in
          if \<not> tp_alive (tports s p) then (Error ENOENT, s1)
          else (Success t,
                upd_tport p (\<lambda>q. q\<lparr>tp_rights := t # tp_rights q\<rparr>)
                 (s1\<lparr>timers := (timers s)(t := \<lparr>t_parent = p, t_parent_id = i,
                        parent_cpu = None, fire_at_ns = 0, next_update_ns = 0,
                        is_sent = False, in_timer_queue = False,
                        waiting_for_attention = False, t_alive = True\<rparr>),
                      t_known := t # t_known s\<rparr>))))"

text \<open>\<open>request_attention\<close>: queue the timer for its CPU, which gets an interrupt.\<close>

definition request_attention :: "nat \<Rightarrow> tsys \<Rightarrow> tsys option" where
  "request_attention t s =
     (case parent_cpu (timers s t) of None \<Rightarrow> None
      | Some pc \<Rightarrow>
         do { kassert (\<not> waiting_for_attention (timers s t));
              kassert (in_timer_queue (timers s t));
              Some (upd_timer t (\<lambda>r. r\<lparr>waiting_for_attention := True\<rparr>)
                (upd_tcpu pc (\<lambda>q. q\<lparr>attention_queue := attention_queue q @ [t]\<rparr>) s)) })"

text \<open>\<open>fire\<close>, run by CPU \<open>c\<close> on a timer it has just taken out of its queue.\<close>

definition fire :: "nat \<Rightarrow> nat \<Rightarrow> tsys \<Rightarrow> tsys option" where
  "fire c t s =
     do { kassert (in_timer_queue (timers s t));
          let s1 = upd_timer t (\<lambda>r. r\<lparr>in_timer_queue := False\<rparr>) s;
          kassert (parent_cpu (timers s t) = Some c);
          let s2 = (if waiting_for_attention (timers s t)
                    then upd_timer t (\<lambda>r. r\<lparr>waiting_for_attention := False\<rparr>)
                          (attention_queue_erase c t s1)
                    else s1);
          if \<not> t_alive (timers s t)
          then Some (if should_delete_self (timers s2 t) then delete_timer_right t s2 else s2)
          else Some (upd_tport (t_parent (timers s t))
                       (\<lambda>q. q\<lparr>tp_queue := tp_queue q @ [t]\<rparr>)
                       (upd_timer t (\<lambda>r. r\<lparr>is_sent := True\<rparr>) s2)) }"

text \<open>Arm the timer on CPU \<open>c\<close>: set the deadline, insert, rearm, and set the flag.\<close>

definition arm_on :: "nat \<Rightarrow> nat \<Rightarrow> u64 \<Rightarrow> tsys \<Rightarrow> tsys" where
  "arm_on c t deadline s =
     upd_timer t (\<lambda>r. r\<lparr>in_timer_queue := True\<rparr>)
      (maybe_rearm_timer c deadline
        (timer_queue_insert c (TR t)
          (upd_timer t (\<lambda>r. r\<lparr>fire_at_ns := deadline\<rparr>) s)))"

definition set_deadline :: "nat \<Rightarrow> nat \<Rightarrow> u64 \<Rightarrow> tsys \<Rightarrow> (kresult \<times> tsys) option" where
  "set_deadline c t new_deadline s =
     (let r = timers s t in
      if \<not> t_alive r then Some (Error ENOENT, s)
      else if is_sent r
      then Some (kok, upd_timer t (\<lambda>r. r\<lparr>next_update_ns := new_deadline\<rparr>) s)
      else if in_timer_queue r then
        (if parent_cpu r = Some c then
           (let s1 = (if waiting_for_attention r
                      then upd_timer t (\<lambda>r. r\<lparr>waiting_for_attention := False,
                                             next_update_ns := 0\<rparr>)
                            (attention_queue_erase c t s)
                      else s);
                s2 = upd_timer t (\<lambda>r. r\<lparr>in_timer_queue := False, fire_at_ns := new_deadline\<rparr>)
                      (timer_queue_erase c (TR t) s1) in
            Some (kok, if new_deadline \<noteq> 0 then arm_on c t new_deadline s2 else s2))
         else
           (let s1 = upd_timer t (\<lambda>r. r\<lparr>next_update_ns := new_deadline\<rparr>) s in
            if \<not> waiting_for_attention r
            then map_option (Pair kok) (request_attention t s1)
            else Some (kok, s1)))
      else if new_deadline \<noteq> 0 then
        do { kassert (next_update_ns r = 0);
             Some (kok, arm_on c t new_deadline
                          (upd_timer t (\<lambda>r. r\<lparr>parent_cpu := Some c\<rparr>) s)) }
      else Some (kok, s))"

text \<open>\<open>TimerRight::get_attention\<close>, run by the CPU the timer is queued on.\<close>

definition timer_get_attention :: "nat \<Rightarrow> nat \<Rightarrow> tsys \<Rightarrow> tsys option" where
  "timer_get_attention c t s =
     do { kassert (waiting_for_attention (timers s t));
          let s1 = upd_timer t (\<lambda>r. r\<lparr>waiting_for_attention := False\<rparr>) s;
          kassert (parent_cpu (timers s t) = Some c);
          let s2 = attention_queue_erase c t s1;
          kassert (in_timer_queue (timers s t));
          let s3 = upd_timer t (\<lambda>r. r\<lparr>in_timer_queue := False\<rparr>)
                     (timer_queue_erase c (TR t) s2);
          let nu = next_update_ns (timers s t);
          let s4 = (if t_alive (timers s t) \<and> nu \<noteq> 0
                    then upd_timer t (\<lambda>r. r\<lparr>next_update_ns := 0\<rparr>) (arm_on c t nu s3)
                    else s3);
          Some (if \<not> t_alive (timers s4 t) \<and> should_delete_self (timers s4 t)
                then delete_timer_right t s4 else s4) }"

text \<open>\<open>TimerRight::delete_self\<close>, run once the message has left the queue of the port.\<close>

definition timer_delete_self :: "nat \<Rightarrow> nat \<Rightarrow> tsys \<Rightarrow> tsys option" where
  "timer_delete_self c t s =
     do { kassert (is_sent (timers s t));
          let s1 = upd_timer t (\<lambda>r. r\<lparr>is_sent := False\<rparr>) s;
          kassert (\<not> waiting_for_attention (timers s t));
          kassert (\<not> in_timer_queue (timers s t));
          if \<not> t_alive (timers s t)
          then do { kassert (should_delete_self (timers s1 t));
                    Some (delete_timer_right t s1) }
          else (let nu = next_update_ns (timers s t) in
                Some (if nu \<noteq> 0
                      then upd_timer t (\<lambda>r. r\<lparr>next_update_ns := 0\<rparr>)
                             (arm_on c t nu (upd_timer t (\<lambda>r. r\<lparr>parent_cpu := Some c\<rparr>) s1))
                      else s1)) }"

definition timer_destroy_recieve_right :: "nat \<Rightarrow> nat \<Rightarrow> tsys \<Rightarrow> (bool \<times> tsys) option" where
  "timer_destroy_recieve_right c t s =
     (let r = timers s t in
      if \<not> t_alive r then Some (False, s)
      else
        (let s1 = upd_tport (t_parent r) (\<lambda>q. q\<lparr>tp_rights := remove1 t (tp_rights q)\<rparr>)
                    (upd_timer t (\<lambda>r. r\<lparr>t_alive := False\<rparr>) s) in
         do { s2 \<leftarrow>
               (if in_timer_queue r then
                  (if parent_cpu r = Some c then
                     (let s' = upd_timer t (\<lambda>r. r\<lparr>in_timer_queue := False\<rparr>)
                                 (timer_queue_erase c (TR t) s1) in
                      Some (if waiting_for_attention r
                            then upd_timer t (\<lambda>r. r\<lparr>waiting_for_attention := False\<rparr>)
                                   (attention_queue_erase c t s')
                            else s'))
                   else if \<not> waiting_for_attention r then request_attention t s1
                   else Some s1)
                else Some s1);
              Some (True, if should_delete_self (timers s2 t)
                          then delete_timer_right t s2 else s2) }))"

section \<open>The scheduler tick and the timer interrupt\<close>

text \<open>\<open>CPU_Info::sched_timer\<close>; \<open>now\<close> is the value of \<open>get_ns_since_bootup\<close>.\<close>

definition sched_timer :: "nat \<Rightarrow> u64 \<Rightarrow> u64 \<Rightarrow> tsys \<Rightarrow> tsys" where
  "sched_timer c now period_ms s =
     (if period_ms = 0 then upd_tcpu c (\<lambda>q. q\<lparr>sched_timer_deadline := 0\<rparr>) s
      else
        (let d = now + period_ms * 1000000;
             s1 = upd_tcpu c (\<lambda>q. q\<lparr>sched_timer_deadline := d\<rparr>) s;
             arm = (\<lambda>s. maybe_rearm_timer c d
                          (timer_queue_insert c STN (upd_tcpu c (\<lambda>q. q\<lparr>stn_fire_at := d\<rparr>) s))) in
         if stn_fire_at (tcpus s c) > d then arm (timer_queue_erase c STN s1)
         else if stn_fire_at (tcpus s c) = 0 then arm s1
         else s1))"

text \<open>
  The three parts of \<open>cpu_timer_interrupt\<close>: the entry, which marks the hardware timer as not
  running; one round of the loop, which takes the first node out of the queue and fires it;
  and the end, which rearms the hardware for the first node left. Firing the scheduler's node
  ends in \<open>sched_timer\<close> with the quantum of the task that runs next (\<open>period_ms\<close>); the choice of
  that task is the scheduler's.
\<close>

definition irq_enter :: "nat \<Rightarrow> u64 \<Rightarrow> tsys \<Rightarrow> tsys" where
  "irq_enter c time s = upd_tcpu c (\<lambda>q. q\<lparr>local_timer_next_deadline := 0, irq := Scan time\<rparr>) s"

definition irq_pop :: "nat \<Rightarrow> u64 \<Rightarrow> u64 \<Rightarrow> tsys \<Rightarrow> tsys option" where
  "irq_pop c now period_ms s =
     (case irq (tcpus s c) of
        Scan time \<Rightarrow>
          (case timer_queue (tcpus s c) of
             [] \<Rightarrow> None
           | n # ms \<Rightarrow>
               if node_key s c n > time then None
               else
                 (let s1 = upd_tcpu c (\<lambda>q. q\<lparr>timer_queue := ms\<rparr>) s in
                  case n of
                    STN \<Rightarrow> Some (sched_timer c now period_ms
                                  (upd_tcpu c (\<lambda>q. q\<lparr>stn_fire_at := 0\<rparr>) s1))
                  | TR t \<Rightarrow> Some (upd_tcpu c (\<lambda>q. q\<lparr>irq := Firing time t\<rparr>) s1)))
      | _ \<Rightarrow> None)"

definition irq_fire :: "nat \<Rightarrow> tsys \<Rightarrow> tsys option" where
  "irq_fire c s =
     (case irq (tcpus s c) of
        Firing time t \<Rightarrow> map_option (upd_tcpu c (\<lambda>q. q\<lparr>irq := Scan time\<rparr>)) (fire c t s)
      | _ \<Rightarrow> None)"

definition irq_exit :: "nat \<Rightarrow> tsys \<Rightarrow> tsys" where
  "irq_exit c s =
     upd_tcpu c (\<lambda>q. q\<lparr>irq := Idle\<rparr>)
       (case timer_queue (tcpus s c) of
          [] \<Rightarrow> s
        | n # _ \<Rightarrow> maybe_rearm_timer c (node_key s c n) s)"

text \<open>
  The whole handler, on one CPU and without interleaving: the entry, the loop
  \<open>while (it && it->fire_at_ns <= time)\<close> and the end.
\<close>

partial_function (option) irq_loop :: "nat \<Rightarrow> u64 \<Rightarrow> u64 \<Rightarrow> tsys \<Rightarrow> tsys option" where
  "irq_loop c now period_ms s =
     (case irq (tcpus s c) of
        Scan time \<Rightarrow>
          (case timer_queue (tcpus s c) of
             [] \<Rightarrow> Some s
           | n # _ \<Rightarrow>
               if node_key s c n > time then Some s
               else Option.bind (irq_pop c now period_ms s) (\<lambda>s1.
                      case irq (tcpus s1 c) of
                        Firing _ _ \<Rightarrow> Option.bind (irq_fire c s1) (irq_loop c now period_ms)
                      | _ \<Rightarrow> irq_loop c now period_ms s1))
      | _ \<Rightarrow> None)"

definition cpu_timer_interrupt :: "nat \<Rightarrow> u64 \<Rightarrow> u64 \<Rightarrow> u64 \<Rightarrow> tsys \<Rightarrow> tsys option" where
  "cpu_timer_interrupt c time now period_ms s =
     map_option (irq_exit c) (irq_loop c now period_ms (irq_enter c time s))"

section \<open>Events\<close>

text \<open>
  What can happen to the timers of the machine, one event at a time. \<open>tenabled\<close> says who calls
  what: a CPU inside its timer interrupt runs nothing else; \<open>get_attention\<close> takes timers from
  the front of the attention queue of its CPU; a timer message is popped from the front of the
  queue of its port and then \<open>delete_self\<close> is called on it; \<open>make_unique\<close> returns memory not in
  use; the clock does not wrap around.
\<close>

datatype tevent =
    TCreate "nat option" nat
  | TSetDeadline nat nat u64
  | TDestroy nat nat
  | TAttention nat
  | TPop nat
  | TDeleteSelf nat nat
  | TIrqEnter nat u64
  | TIrqPop nat u64 u64
  | TIrqFire nat
  | TIrqExit nat

fun tenabled :: "tsys \<Rightarrow> tevent \<Rightarrow> bool" where
  "tenabled s (TCreate alloc p) \<longleftrightarrow> (case alloc of None \<Rightarrow> True | Some t \<Rightarrow> t \<notin> set (t_known s))"
| "tenabled s (TSetDeadline c t d) \<longleftrightarrow>
     t \<in> set (t_known s) \<and> irq (tcpus s c) = Idle"
| "tenabled s (TDestroy c t) \<longleftrightarrow>
     t \<in> set (t_known s) \<and> irq (tcpus s c) = Idle"
| "tenabled s (TAttention c) \<longleftrightarrow>
     attention_queue (tcpus s c) \<noteq> [] \<and> irq (tcpus s c) = Idle"
| "tenabled s (TPop p) \<longleftrightarrow> tp_queue (tports s p) \<noteq> []"
| "tenabled s (TDeleteSelf c t) \<longleftrightarrow> t \<in> set (popped s) \<and> irq (tcpus s c) = Idle"
| "tenabled s (TIrqEnter c time) \<longleftrightarrow> irq (tcpus s c) = Idle"
| "tenabled s (TIrqPop c now period_ms) \<longleftrightarrow>
     (case irq (tcpus s c) of
        Scan time \<Rightarrow> timer_queue (tcpus s c) \<noteq> []
                       \<and> node_key s c (hd (timer_queue (tcpus s c))) \<le> time
                       \<and> (period_ms = 0 \<or> now + period_ms * 1000000 \<noteq> 0)
      | _ \<Rightarrow> False)"
| "tenabled s (TIrqFire c) \<longleftrightarrow> (case irq (tcpus s c) of Firing time t \<Rightarrow> True | _ \<Rightarrow> False)"
| "tenabled s (TIrqExit c) \<longleftrightarrow>
     (case irq (tcpus s c) of
        Scan time \<Rightarrow> timer_queue (tcpus s c) = []
                       \<or> node_key s c (hd (timer_queue (tcpus s c))) > time
      | _ \<Rightarrow> False)"

fun texec :: "tevent \<Rightarrow> tsys \<Rightarrow> tsys option" where
  "texec (TCreate alloc p) s = Some (snd (create_for_port alloc p s))"
| "texec (TSetDeadline c t d) s = map_option snd (set_deadline c t d s)"
| "texec (TDestroy c t) s = map_option snd (timer_destroy_recieve_right c t s)"
| "texec (TAttention c) s = timer_get_attention c (hd (attention_queue (tcpus s c))) s"
| "texec (TPop p) s =
     Some (upd_tport p (\<lambda>q. q\<lparr>tp_queue := tl (tp_queue q)\<rparr>)
            (s\<lparr>popped := hd (tp_queue (tports s p)) # popped s\<rparr>))"
| "texec (TDeleteSelf c t) s =
     timer_delete_self c t (s\<lparr>popped := remove1 t (popped s)\<rparr>)"
| "texec (TIrqEnter c time) s = Some (irq_enter c time s)"
| "texec (TIrqPop c now period_ms) s = irq_pop c now period_ms s"
| "texec (TIrqFire c) s = irq_fire c s"
| "texec (TIrqExit c) s = Some (irq_exit c s)"

inductive tstep :: "tsys \<Rightarrow> tsys \<Rightarrow> bool" where
  tstepI: "tenabled s e \<Longrightarrow> texec e s = Some s' \<Longrightarrow> tstep s s'"

definition tinit :: "tsys \<Rightarrow> bool" where
  "tinit s \<longleftrightarrow> t_known s = [] \<and> popped s = [] \<and> rcu_pushed s = []
     \<and> (\<forall>c. timer_queue (tcpus s c) = [] \<and> attention_queue (tcpus s c) = []
           \<and> stn_fire_at (tcpus s c) = 0 \<and> irq (tcpus s c) = Idle)
     \<and> (\<forall>p. tp_rights (tports s p) = [] \<and> tp_queue (tports s p) = [])"

inductive treachable :: "tsys \<Rightarrow> bool" where
  treach_init: "tinit s \<Longrightarrow> treachable s"
| treach_step: "treachable s \<Longrightarrow> tstep s s' \<Longrightarrow> treachable s'"

lemmas timer_op_defs = create_for_port_def request_attention_def fire_def set_deadline_def
  timer_get_attention_def timer_delete_self_def timer_destroy_recieve_right_def
  irq_enter_def irq_pop_def irq_fire_def irq_exit_def sched_timer_def
lemmas timer_aux_defs = arm_on_def timer_queue_insert_def timer_queue_erase_def
  attention_queue_erase_def delete_timer_right_def should_delete_self_def
  maybe_rearm_timer_def

end
