(* ===== verification/Timers_Inv.thy ===== *)
theory Timers_Inv
  imports Timers
begin

text \<open>
  The invariants of the timers. Everything the system says about one timer right, its fields
  and in which containers it is, is gathered in a \<open>tview\<close>; \<open>view_ok\<close> says that the flags of the
  timer and its places agree, and an operation on a timer is shown to keep the view of that
  timer well formed and every other view as it was (\<open>good_step\<close>). \<open>armed_inv\<close> is the invariant
  of the timer queues: sorted by deadline, and the hardware timer set no later than the first.
  The last section runs the interrupt handler to its end.
\<close>

section \<open>Views\<close>

record tview =
  v_timer :: timer
  v_known :: bool
  v_tq :: "nat \<Rightarrow> bool"
  v_firing :: "nat \<Rightarrow> bool"
  v_att :: "nat \<Rightarrow> bool"
  v_msg :: "nat \<Rightarrow> bool"
  v_popped :: bool
  v_rights :: "nat \<Rightarrow> bool"
  v_freed :: bool

fun is_firing :: "irq_pc \<Rightarrow> nat \<Rightarrow> bool" where
  "is_firing (Firing time t') t \<longleftrightarrow> t' = t"
| "is_firing _ t \<longleftrightarrow> False"

definition view :: "tsys \<Rightarrow> nat \<Rightarrow> tview" where
  "view s t = \<lparr>v_timer = timers s t, v_known = (t \<in> set (t_known s)),
     v_tq = (\<lambda>c. TR t \<in> set (timer_queue (tcpus s c))),
     v_firing = (\<lambda>c. is_firing (irq (tcpus s c)) t),
     v_att = (\<lambda>c. t \<in> set (attention_queue (tcpus s c))),
     v_msg = (\<lambda>p. t \<in> set (tp_queue (tports s p))),
     v_popped = (t \<in> set (popped s)),
     v_rights = (\<lambda>p. t \<in> set (tp_rights (tports s p))),
     v_freed = (t \<in> set (rcu_pushed s))\<rparr>"

definition flags_ok :: "timer \<Rightarrow> bool" where
  "flags_ok r \<longleftrightarrow>
      (waiting_for_attention r \<longrightarrow> in_timer_queue r)
    \<and> (in_timer_queue r \<longrightarrow> parent_cpu r \<noteq> None)
    \<and> (is_sent r \<longrightarrow> \<not> in_timer_queue r)
    \<and> (t_alive r \<and> next_update_ns r \<noteq> 0 \<longrightarrow> is_sent r \<or> waiting_for_attention r)"

definition view_ok :: "tview \<Rightarrow> bool" where
  "view_ok v \<longleftrightarrow>
     (let r = v_timer v in
      (v_known v \<longrightarrow> flags_ok r)
      \<and> (\<forall>c. v_firing v c \<longrightarrow> v_known v \<and> in_timer_queue r \<and> parent_cpu r = Some c)
      \<and> (\<forall>c. v_tq v c = (v_known v \<and> in_timer_queue r \<and> parent_cpu r = Some c \<and> \<not> v_firing v c))
      \<and> (\<forall>c. v_att v c = (v_known v \<and> waiting_for_attention r \<and> parent_cpu r = Some c))
      \<and> (\<forall>p. v_msg v p = (v_known v \<and> is_sent r \<and> t_parent r = p \<and> \<not> v_popped v))
      \<and> (v_popped v \<longrightarrow> v_known v \<and> is_sent r)
      \<and> (\<forall>p. v_rights v p = (v_known v \<and> t_alive r \<and> t_parent r = p))
      \<and> v_freed v = (v_known v \<and> should_delete_self r))"

definition tdistinct :: "tsys \<Rightarrow> bool" where
  "tdistinct s \<longleftrightarrow> distinct (t_known s) \<and> distinct (popped s) \<and> distinct (rcu_pushed s)
     \<and> (\<forall>c. distinct (timer_queue (tcpus s c)) \<and> distinct (attention_queue (tcpus s c)))
     \<and> (\<forall>p. distinct (tp_rights (tports s p)) \<and> distinct (tp_queue (tports s p)))"

definition timer_inv :: "tsys \<Rightarrow> bool" where
  "timer_inv s \<longleftrightarrow> tdistinct s \<and> (\<forall>t. view_ok (view s t))"

lemma set_tq_insert [simp]: "set (tq_insert k n q) = insert n (set q)"
  by (induction q) auto

lemma distinct_tq_insert [simp]: "distinct (tq_insert k n q) \<longleftrightarrow> n \<notin> set q \<and> distinct q"
  by (induction q) auto


subsection \<open>What the updates leave alone\<close>

lemma upd_timer_sel [simp]:
  "timers (upd_timer t f s) = (timers s)(t := f (timers s t))"
  "tcpus (upd_timer t f s) = tcpus s"
  "tports (upd_timer t f s) = tports s"
  "t_known (upd_timer t f s) = t_known s"
  "popped (upd_timer t f s) = popped s"
  "rcu_pushed (upd_timer t f s) = rcu_pushed s"
  by (simp_all add: upd_timer_def)

lemma upd_tcpu_sel [simp]:
  "tcpus (upd_tcpu c g s) = (tcpus s)(c := g (tcpus s c))"
  "timers (upd_tcpu c g s) = timers s"
  "tports (upd_tcpu c g s) = tports s"
  "t_known (upd_tcpu c g s) = t_known s"
  "popped (upd_tcpu c g s) = popped s"
  "rcu_pushed (upd_tcpu c g s) = rcu_pushed s"
  by (simp_all add: upd_tcpu_def)

lemma upd_tport_sel [simp]:
  "tports (upd_tport p h s) = (tports s)(p := h (tports s p))"
  "timers (upd_tport p h s) = timers s"
  "tcpus (upd_tport p h s) = tcpus s"
  "t_known (upd_tport p h s) = t_known s"
  "popped (upd_tport p h s) = popped s"
  "rcu_pushed (upd_tport p h s) = rcu_pushed s"
  by (simp_all add: upd_tport_def)

lemma queue_op_timers [simp]:
  "timers (timer_queue_insert c n s) = timers s"
  "timers (timer_queue_erase c n s) = timers s"
  "timers (attention_queue_erase c t s) = timers s"
  "timers (maybe_rearm_timer c d s) = timers s"
  "timers (delete_timer_right t s) = timers s"
  by (simp_all add: timer_aux_defs Let_def)

lemma queue_op_tports [simp]:
  "tports (timer_queue_insert c n s) = tports s"
  "tports (timer_queue_erase c n s) = tports s"
  "tports (attention_queue_erase c t s) = tports s"
  "tports (maybe_rearm_timer c d s) = tports s"
  "tports (delete_timer_right t s) = tports s"
  by (simp_all add: timer_aux_defs Let_def)

lemma queue_op_lists [simp]:
  "t_known (timer_queue_insert c n s) = t_known s"
  "t_known (timer_queue_erase c n s) = t_known s"
  "t_known (attention_queue_erase c t s) = t_known s"
  "t_known (maybe_rearm_timer c d s) = t_known s"
  "t_known (delete_timer_right t s) = t_known s"
  "popped (timer_queue_insert c n s) = popped s"
  "popped (timer_queue_erase c n s) = popped s"
  "popped (attention_queue_erase c t s) = popped s"
  "popped (maybe_rearm_timer c d s) = popped s"
  "popped (delete_timer_right t s) = popped s"
  "rcu_pushed (timer_queue_insert c n s) = rcu_pushed s"
  "rcu_pushed (timer_queue_erase c n s) = rcu_pushed s"
  "rcu_pushed (attention_queue_erase c t s) = rcu_pushed s"
  "rcu_pushed (maybe_rearm_timer c d s) = rcu_pushed s"
  "rcu_pushed (delete_timer_right t s) = t # rcu_pushed s"
  by (simp_all add: timer_aux_defs Let_def)

lemma queue_op_tcpus [simp]:
  "tcpus (timer_queue_insert c n s) =
     (tcpus s)(c := (tcpus s c)\<lparr>timer_queue := tq_insert (node_key s c) n (timer_queue (tcpus s c))\<rparr>)"
  "tcpus (timer_queue_erase c n s) =
     (tcpus s)(c := (tcpus s c)\<lparr>timer_queue := remove1 n (timer_queue (tcpus s c))\<rparr>)"
  "tcpus (attention_queue_erase c t s) =
     (tcpus s)(c := (tcpus s c)\<lparr>attention_queue := remove1 t (attention_queue (tcpus s c))\<rparr>)"
  "tcpus (delete_timer_right t s) = tcpus s"
  by (simp_all add: timer_aux_defs)

lemma tcpus_rearm [simp]:
  "timer_queue (tcpus (maybe_rearm_timer c d s) c') = timer_queue (tcpus s c')"
  "attention_queue (tcpus (maybe_rearm_timer c d s) c') = attention_queue (tcpus s c')"
  "irq (tcpus (maybe_rearm_timer c d s) c') = irq (tcpus s c')"
  "stn_fire_at (tcpus (maybe_rearm_timer c d s) c') = stn_fire_at (tcpus s c')"
  by (auto simp: maybe_rearm_timer_def upd_tcpu_def Let_def)

lemma arm_on_sel [simp]:
  "timers (arm_on c t d s) = (timers s)(t := (timers s t)\<lparr>fire_at_ns := d, in_timer_queue := True\<rparr>)"
  "tports (arm_on c t d s) = tports s"
  "t_known (arm_on c t d s) = t_known s"
  "popped (arm_on c t d s) = popped s"
  "rcu_pushed (arm_on c t d s) = rcu_pushed s"
  "attention_queue (tcpus (arm_on c t d s) c') = attention_queue (tcpus s c')"
  "irq (tcpus (arm_on c t d s) c') = irq (tcpus s c')"
  "stn_fire_at (tcpus (arm_on c t d s) c') = stn_fire_at (tcpus s c')"
  by (simp_all add: arm_on_def)

lemma arm_on_set [simp]:
  "set (timer_queue (tcpus (arm_on c t d s) c')) =
     (if c' = c then insert (TR t) (set (timer_queue (tcpus s c))) else set (timer_queue (tcpus s c')))"
  "distinct (timer_queue (tcpus (arm_on c t d s) c')) \<longleftrightarrow>
     (c' = c \<longrightarrow> TR t \<notin> set (timer_queue (tcpus s c))) \<and> distinct (timer_queue (tcpus s c'))"
  by (simp_all add: arm_on_def)




definition good_step :: "nat \<Rightarrow> tsys \<Rightarrow> tsys \<Rightarrow> bool" where
  "good_step t s s' \<longleftrightarrow>
     tdistinct s' \<and> view_ok (view s' t) \<and> (\<forall>t'. t' \<noteq> t \<longrightarrow> view s' t' = view s t')"

lemma good_step_inv:
  assumes "timer_inv s" and "good_step t s s'"
  shows "timer_inv s'"
proof -
  have "view_ok (view s' t')" for t'
    using assms by (cases "t' = t") (auto simp: timer_inv_def good_step_def)
  then show ?thesis using assms by (simp add: timer_inv_def good_step_def)
qed


lemma timer_inv_view: "timer_inv s \<Longrightarrow> view_ok (view s t)"
  by (simp add: timer_inv_def)
lemma timer_inv_distinct: "timer_inv s \<Longrightarrow> tdistinct s"
  by (simp add: timer_inv_def)

lemma good_stepI:
  assumes "tdistinct s'" and "view_ok (view s' t)" and "\<And>t'. t' \<noteq> t \<Longrightarrow> view s' t' = view s t'"
  shows "good_step t s s'"
  using assms by (simp add: good_step_def)


lemma view_upd_timer [simp]:
  "view (upd_timer t f s) t' =
     (if t' = t then (view s t)\<lparr>v_timer := f (v_timer (view s t))\<rparr> else view s t')"
  by (simp add: view_def)

lemma view_tq_erase [simp]:
  "tdistinct s \<Longrightarrow> view (timer_queue_erase c (TR t) s) t' =
     (if t' = t then (view s t)\<lparr>v_tq := (v_tq (view s t))(c := False)\<rparr> else view s t')"
  by (auto simp: view_def tdistinct_def)

lemma view_att_erase [simp]:
  "tdistinct s \<Longrightarrow> view (attention_queue_erase c t s) t' =
     (if t' = t then (view s t)\<lparr>v_att := (v_att (view s t))(c := False)\<rparr> else view s t')"
  by (auto simp: view_def tdistinct_def)

lemma view_att_push [simp]:
  "view (upd_tcpu c (\<lambda>q. q\<lparr>attention_queue := attention_queue q @ [t]\<rparr>) s) t' =
     (if t' = t then (view s t)\<lparr>v_att := (v_att (view s t))(c := True)\<rparr> else view s t')"
  by (auto simp: view_def)

lemma view_tq_insert [simp]:
  "view (timer_queue_insert c (TR t) s) t' =
     (if t' = t then (view s t)\<lparr>v_tq := (v_tq (view s t))(c := True)\<rparr> else view s t')"
  by (auto simp: view_def)

lemma view_tq_stn [simp]:
  "view (timer_queue_insert c STN s) t' = view s t'"
  "view (timer_queue_erase c STN s) t' = view s t'"
  by (auto simp: view_def notin_set_remove1)

lemma view_rearm [simp]: "view (maybe_rearm_timer c d s) t' = view s t'"
  by (simp add: view_def)

lemma view_delete [simp]:
  "view (delete_timer_right t s) t' =
     (if t' = t then (view s t)\<lparr>v_freed := True\<rparr> else view s t')"
  by (simp add: view_def)

lemma view_msg_push [simp]:
  "view (upd_tport p (\<lambda>q. q\<lparr>tp_queue := tp_queue q @ [t]\<rparr>) s) t' =
     (if t' = t then (view s t)\<lparr>v_msg := (v_msg (view s t))(p := True)\<rparr> else view s t')"
  by (auto simp: view_def)

lemma view_rights_erase [simp]:
  "tdistinct s \<Longrightarrow> view (upd_tport p (\<lambda>q. q\<lparr>tp_rights := remove1 t (tp_rights q)\<rparr>) s) t' =
     (if t' = t then (view s t)\<lparr>v_rights := (v_rights (view s t))(p := False)\<rparr> else view s t')"
  by (auto simp: view_def tdistinct_def)

lemma view_timer [simp]: "v_timer (view s t) = timers s t"
  by (simp add: view_def)

lemma view_arm_on [simp]:
  "view (arm_on c t d s) t' =
     (if t' = t then (view s t)\<lparr>v_timer := (timers s t)\<lparr>fire_at_ns := d, in_timer_queue := True\<rparr>,
                               v_tq := (v_tq (view s t))(c := True)\<rparr> else view s t')"
  by (simp add: arm_on_def)

lemma tdistinct_ops [simp]:
  "tdistinct (upd_timer t f s) \<longleftrightarrow> tdistinct s"
  "tdistinct (maybe_rearm_timer c d s) \<longleftrightarrow> tdistinct s"
  "tdistinct (timer_queue_insert c n s) \<longleftrightarrow> n \<notin> set (timer_queue (tcpus s c)) \<and> tdistinct s"
  "tdistinct (delete_timer_right t s) \<longleftrightarrow> \<not> v_freed (view s t) \<and> tdistinct s"
  "tdistinct s \<Longrightarrow> tdistinct (timer_queue_erase c n s)"
  "tdistinct s \<Longrightarrow> tdistinct (attention_queue_erase c t s)"
  "tdistinct s \<Longrightarrow> tdistinct (upd_tport p (\<lambda>q. q\<lparr>tp_rights := remove1 t (tp_rights q)\<rparr>) s)"
  "tdistinct s \<Longrightarrow> \<not> v_msg (view s t) p \<Longrightarrow>
     tdistinct (upd_tport p (\<lambda>q. q\<lparr>tp_queue := tp_queue q @ [t]\<rparr>) s)"
  "tdistinct s \<Longrightarrow> \<not> v_att (view s t) c \<Longrightarrow>
     tdistinct (upd_tcpu c (\<lambda>q. q\<lparr>attention_queue := attention_queue q @ [t]\<rparr>) s)"
  "tdistinct (upd_tcpu c (\<lambda>q. q\<lparr>irq := i\<rparr>) s) \<longleftrightarrow> tdistinct s"
  by (auto simp: tdistinct_def view_def)

lemma tdistinct_arm_on [simp]:
  "tdistinct (arm_on c t d s) \<longleftrightarrow> \<not> v_tq (view s t) c \<and> tdistinct s"
  by (simp add: arm_on_def) (simp add: view_def)

lemmas ok_simps = view_ok_def flags_ok_def should_delete_self_def

lemma view_sel:
  "v_firing (view s t) c \<longleftrightarrow> is_firing (irq (tcpus s c)) t"
  "v_known (view s t) \<longleftrightarrow> t \<in> set (t_known s)"
  "v_att (view s t) c \<longleftrightarrow> t \<in> set (attention_queue (tcpus s c))"
  "v_popped (view s t) \<longleftrightarrow> t \<in> set (popped s)"
  "v_tq (view s t) c \<longleftrightarrow> TR t \<in> set (timer_queue (tcpus s c))"
  by (simp_all add: view_def)

lemma view_pop:
  assumes "tdistinct s" and "tp_queue (tports s p) = t # ts"
  shows "view (upd_tport p (\<lambda>q. q\<lparr>tp_queue := tl (tp_queue q)\<rparr>) (s\<lparr>popped := t # popped s\<rparr>)) t' =
     (if t' = t then (view s t)\<lparr>v_msg := (v_msg (view s t))(p := False), v_popped := True\<rparr>
      else view s t')"
proof -
  have "t \<notin> set ts" using assms by (metis tdistinct_def distinct.simps(2))
  with assms(2) show ?thesis by (auto simp: view_def)
qed

lemma timer_invD:
  assumes "timer_inv s"
  shows "view_ok (view s t)" and "tdistinct s"
  using assms by (simp_all add: timer_inv_def)



lemma set_deadline_good:
  assumes "set_deadline c t d s = Some (r, s')" "timer_inv s" "t \<in> set (t_known s)" "irq (tcpus s c) = Idle"
  shows "good_step t s s'"
proof -
  from assms have "view_ok (view s t)" "tdistinct s" "v_known (view s t)" "\<not> v_firing (view s t) c"
    by (auto simp: timer_inv_def view_sel)
  then show ?thesis
    using assms(1)
    by (auto simp: set_deadline_def request_attention_def good_step_def Let_def split: if_splits option.splits)
       (simp_all add: ok_simps Let_def, (blast+)?)
qed

lemma destroy_good:
  assumes "timer_destroy_recieve_right c t s = Some (r, s')" "timer_inv s" "t \<in> set (t_known s)" "irq (tcpus s c) = Idle"
  shows "good_step t s s'"
proof -
  from assms have "view_ok (view s t)" "tdistinct s" "v_known (view s t)" "\<not> v_firing (view s t) c"
    by (auto simp: timer_inv_def view_sel)
  then show ?thesis
    using assms(1)
    by (auto simp: timer_destroy_recieve_right_def request_attention_def good_step_def Let_def split: if_splits option.splits)
       (simp_all add: ok_simps Let_def, (blast+)?)
qed

lemma attention_good:
  assumes "timer_get_attention c t s = Some s'" "timer_inv s" "t \<in> set (attention_queue (tcpus s c))" "irq (tcpus s c) = Idle"
  shows "good_step t s s'"
proof -
  from assms have "view_ok (view s t)" "tdistinct s" "v_att (view s t) c" "\<not> v_firing (view s t) c"
    by (auto simp: timer_inv_def view_sel)
  then show ?thesis
    using assms(1)
    by (auto simp: timer_get_attention_def good_step_def Let_def split: if_splits option.splits)
       (simp_all add: ok_simps Let_def, (blast+)?)
qed

lemma view_unpop [simp]:
  "tdistinct s \<Longrightarrow> view (s\<lparr>popped := remove1 t (popped s)\<rparr>) t' =
     (if t' = t then (view s t)\<lparr>v_popped := False\<rparr> else view s t')"
  by (auto simp: view_def tdistinct_def)
lemma tdistinct_unpop [simp]: "tdistinct s \<Longrightarrow> tdistinct (s\<lparr>popped := remove1 t (popped s)\<rparr>)"
  by (auto simp: tdistinct_def)

lemma view_irq_upd [simp]:
  "view (upd_tcpu c (\<lambda>q. q\<lparr>irq := i\<rparr>) s) t' = (view s t')\<lparr>v_firing := (v_firing (view s t'))(c := is_firing i t')\<rparr>"
  by (auto simp: view_def)

lemma delete_self_good:
  assumes "timer_delete_self c t (s\<lparr>popped := remove1 t (popped s)\<rparr>) = Some s'" "timer_inv s" "t \<in> set (popped s)" "irq (tcpus s c) = Idle"
  shows "good_step t s s'"
proof -
  from assms have "view_ok (view s t)" "tdistinct s" "v_popped (view s t)" "\<not> v_firing (view s t) c"
    by (auto simp: timer_inv_def view_sel)
  then show ?thesis
    using assms(1)
    by (auto simp: timer_delete_self_def good_step_def Let_def split: if_splits option.splits)
       (simp_all add: ok_simps Let_def, (blast+)?)
qed


lemma view_ok_firing:
  "view_ok v \<Longrightarrow> v_firing v c \<Longrightarrow>
     v_known v \<and> in_timer_queue (v_timer v) \<and> parent_cpu (v_timer v) = Some c"
  by (simp add: view_ok_def Let_def)

lemma irq_fire_good:
  assumes "irq_fire c s = Some s'" "timer_inv s" "irq (tcpus s c) = Firing time t"
  shows "good_step t s s'"
proof -
  from assms have i: "view_ok (view s t)" "tdistinct s" "v_firing (view s t) c"
    by (auto simp: timer_inv_def view_sel)
  obtain s1 where s1: "fire c t s = Some s1" and s': "s' = upd_tcpu c (\<lambda>q. q\<lparr>irq := Scan time\<rparr>) s1"
    using assms by (auto simp: irq_fire_def)
  have f: "view s1 t' = view s t'" if "t' \<noteq> t" for t'
    using s1 i that by (auto simp: fire_def Let_def split: if_splits)
  have o: "parent_cpu (timers s t) = Some c" "in_timer_queue (timers s t)"
    "\<And>c'. v_firing (view s t) c' \<longleftrightarrow> c' = c"
    using view_ok_firing [OF i(1)] i(3) by (auto, metis option.inject)
  show ?thesis
  proof (rule good_stepI)
    show "view s' t' = view s t'" if "t' \<noteq> t" for t'
    proof -
      have "v_firing (view s t') c = False" using assms(3) that by (simp add: view_sel)
      then have "(v_firing (view s t'))(c := False) = v_firing (view s t')" by (simp add: fun_upd_idem)
      then show ?thesis using f that by (simp add: s')
    qed
    show "view_ok (view s' t)" using s1 i o
      by (auto simp: s' fire_def Let_def split: if_splits) (simp_all add: ok_simps Let_def, blast+)
    show "tdistinct s'" using s1 i o
      by (auto simp: s' fire_def Let_def split: if_splits) (simp_all add: ok_simps Let_def)
  qed
qed

lemma view_tq_tl:
  assumes "tdistinct s" and "timer_queue (tcpus s c) = TR t # q"
  shows "view (upd_tcpu c (\<lambda>x. x\<lparr>timer_queue := q\<rparr>) s) t' =
     (if t' = t then (view s t)\<lparr>v_tq := (v_tq (view s t))(c := False)\<rparr> else view s t')"
proof -
  have "TR t \<notin> set q" using assms by (metis tdistinct_def distinct.simps(2))
  with assms(2) show ?thesis by (auto simp: view_def)
qed

lemma irq_pop_good:
  assumes "timer_inv s" "irq (tcpus s c) = Scan time" "timer_queue (tcpus s c) = TR t # q"
  shows "good_step t s (upd_tcpu c (\<lambda>q. q\<lparr>irq := Firing time t\<rparr>) (upd_tcpu c (\<lambda>x. x\<lparr>timer_queue := q\<rparr>) s))"
proof (rule good_stepI)
  note i = timer_invD [OF assms(1)]
  have n: "\<not> v_firing (view s t') c" for t' using assms(2) by (simp add: view_sel)
  have q: "v_tq (view s t) c" using assms(3) by (simp add: view_sel)
  show "view (upd_tcpu c (irq_update (\<lambda>_. Firing time t)) (upd_tcpu c (timer_queue_update (\<lambda>_. q)) s)) t' =
          view s t'" if "t' \<noteq> t" for t'
  proof -
    have "(v_firing (view s t'))(c := False) = v_firing (view s t')" using n by (simp add: fun_upd_idem)
    then show ?thesis using that by (simp add: view_tq_tl [OF i(2) assms(3)])
  qed
  show "view_ok (view (upd_tcpu c (irq_update (\<lambda>_. Firing time t)) (upd_tcpu c (timer_queue_update (\<lambda>_. q)) s)) t)"
    using i(1) [of t] n [of t] q by (auto simp: view_tq_tl [OF i(2) assms(3)] ok_simps Let_def)
  show "tdistinct (upd_tcpu c (irq_update (\<lambda>_. Firing time t)) (upd_tcpu c (timer_queue_update (\<lambda>_. q)) s))"
    using i(2) assms(3) by (simp add: tdistinct_def) (metis distinct.simps(2))
qed

lemma pop_good:
  assumes "timer_inv s" "tp_queue (tports s p) = t # ts"
  shows "good_step t s
     (upd_tport p (\<lambda>q. q\<lparr>tp_queue := tl (tp_queue q)\<rparr>) (s\<lparr>popped := t # popped s\<rparr>))"
proof (rule good_stepI)
  note i = timer_invD [OF assms(1)]
  have q: "v_msg (view s t) p" using assms(2) by (simp add: view_def)
  have m: "\<not> v_popped (view s t)" using i(1) [of t] q by (simp add: ok_simps Let_def)
  show "tdistinct (upd_tport p (\<lambda>q. q\<lparr>tp_queue := tl (tp_queue q)\<rparr>) (s\<lparr>popped := t # popped s\<rparr>))"
    using i(2) m by (simp add: tdistinct_def distinct_tl view_sel)
  show "view_ok (view (upd_tport p (\<lambda>q. q\<lparr>tp_queue := tl (tp_queue q)\<rparr>) (s\<lparr>popped := t # popped s\<rparr>)) t)"
    using i(1) [of t] q m by (auto simp: view_pop [OF i(2) assms(2)] ok_simps Let_def)
qed (simp add: view_pop [OF timer_invD(2) [OF assms(1)] assms(2)])

lemma create_good:
  assumes "timer_inv s" "t \<notin> set (t_known s)"
  shows "good_step t s (snd (create_for_port (Some t) p s))"
proof (rule good_stepI)
  note i = timer_invD [OF assms(1)]
  have n: "\<not> v_known (view s t)" using assms(2) by (simp add: view_sel)
  show "tdistinct (snd (create_for_port (Some t) p s))"
    using i(2) n i(1) [of t]  by (auto simp: create_for_port_def tdistinct_def Let_def ok_simps view_def)
  show "view_ok (view (snd (create_for_port (Some t) p s)) t)"
    using  n i(1) [of t]  by (auto simp: create_for_port_def Let_def ok_simps view_def)
qed (auto simp: create_for_port_def Let_def view_def)


subsection \<open>No assertion fails, and every step keeps the invariant\<close>

lemma set_deadline_runs:
  "view_ok (view s t) \<Longrightarrow> t \<in> set (t_known s) \<Longrightarrow> set_deadline c t d s \<noteq> None"
  by (auto simp: set_deadline_def request_attention_def ok_simps view_sel Let_def split: option.splits)

lemma destroy_runs:
  "view_ok (view s t) \<Longrightarrow> t \<in> set (t_known s) \<Longrightarrow> timer_destroy_recieve_right c t s \<noteq> None"
  by (auto simp: timer_destroy_recieve_right_def request_attention_def ok_simps view_sel Let_def split: option.splits)

lemma attention_runs:
  "view_ok (view s t) \<Longrightarrow> t \<in> set (attention_queue (tcpus s c)) \<Longrightarrow> timer_get_attention c t s \<noteq> None"
  by (auto simp: timer_get_attention_def ok_simps view_sel Let_def)

lemma delete_self_runs:
  "view_ok (view s t) \<Longrightarrow> t \<in> set (popped s) \<Longrightarrow>
     timer_delete_self c t (s\<lparr>popped := remove1 t (popped s)\<rparr>) \<noteq> None"
  by (auto simp: timer_delete_self_def ok_simps view_sel Let_def)

lemma irq_fire_runs:
  "view_ok (view s t) \<Longrightarrow> irq (tcpus s c) = Firing time t \<Longrightarrow> irq_fire c s \<noteq> None"
  using view_ok_firing [of "view s t" c] by (auto simp: irq_fire_def fire_def view_sel Let_def)

lemma view_sched_timer [simp]: "view (sched_timer c now d s) t = view s t"
  by (simp add: sched_timer_def Let_def) (auto simp: view_def)


lemma tdistinct_sched_timer [simp]:
  assumes "tdistinct s" and "STN \<in> set (timer_queue (tcpus s c)) \<longrightarrow> stn_fire_at (tcpus s c) \<noteq> 0"
  shows "tdistinct (sched_timer c now d s)"
  using assms by (auto simp: sched_timer_def Let_def tdistinct_def)

section \<open>The armed invariant\<close>

definition tq_ok :: "(tnode \<Rightarrow> u64) \<Rightarrow> cpu_timers \<Rightarrow> bool" where
  "tq_ok k q \<longleftrightarrow> sorted (map k (timer_queue q)) \<and> (\<forall>n \<in> set (timer_queue q). k n \<noteq> 0)
     \<and> (STN \<in> set (timer_queue q) \<longleftrightarrow> stn_fire_at q \<noteq> 0)
     \<and> (irq q = Idle \<longrightarrow> (\<forall>n \<in> set (timer_queue q).
           local_timer_next_deadline q \<noteq> 0 \<and> local_timer_next_deadline q \<le> k n))"

definition armed_inv :: "tsys \<Rightarrow> bool" where
  "armed_inv s \<longleftrightarrow> (\<forall>c. tq_ok (node_key s c) (tcpus s c))"

lemma sorted_tq_insert: "sorted (map k q) \<Longrightarrow> sorted (map k (tq_insert k n q))"
  by (induction q) (auto simp: order_trans less_imp_le)

lemma sorted_map_remove1: "sorted (map k q) \<Longrightarrow> sorted (map k (remove1 n q))"
  by (induction q) (auto dest: notin_set_remove1 simp: in_set_remove1 intro: set_remove1_subset [THEN subsetD])

lemma node_key_cong:
  "timers s = timers s' \<Longrightarrow> stn_fire_at (tcpus s c) = stn_fire_at (tcpus s' c) \<Longrightarrow> node_key s c = node_key s' c"
proof
  fix n assume "timers s = timers s'" "stn_fire_at (tcpus s c) = stn_fire_at (tcpus s' c)"
  then show "node_key s c n = node_key s' c n" by (cases n) auto
qed

lemma tq_ok_erase: "tq_ok k q \<Longrightarrow> n \<noteq> STN \<Longrightarrow> tq_ok k (q\<lparr>timer_queue := remove1 n (timer_queue q)\<rparr>)"
  by (auto simp: tq_ok_def sorted_map_remove1 dest: notin_set_remove1)

lemma tq_ok_att [simp]: "tq_ok k (q\<lparr>attention_queue := a\<rparr>) = tq_ok k q"
  by (simp add: tq_ok_def)

lemma armed_cong:
  assumes "armed_inv s" and "\<And>c. tcpus s' c = tcpus s c"
    and "\<And>c t. TR t \<in> set (timer_queue (tcpus s c)) \<Longrightarrow> fire_at_ns (timers s' t) = fire_at_ns (timers s t)"
  shows "armed_inv s'"
proof -
  have "node_key s' c n = node_key s c n" if "n \<in> set (timer_queue (tcpus s c))" for c n
  proof (cases n)
    case STN
    then show ?thesis using assms(2) by simp
  next
    case (TR t)
    then show ?thesis using that assms(3) by simp
  qed
  moreover from this have "map (node_key s' c) (timer_queue (tcpus s c)) = map (node_key s c) (timer_queue (tcpus s c))" for c
    by auto
  ultimately show ?thesis
    using assms(1,2) by (simp add: armed_inv_def tq_ok_def del: map_eq_conv)
qed

lemma armed_upd_timer:
  assumes "armed_inv s"
    and "fire_at_ns (f (timers s t)) = fire_at_ns (timers s t) \<or> (\<forall>c. TR t \<notin> set (timer_queue (tcpus s c)))"
  shows "armed_inv (upd_timer t f s)"
  using assms(1) by (rule armed_cong) (use assms(2) in auto)

lemma armed_upd_tport [simp]: "armed_inv (upd_tport p h s) = armed_inv s"
  by (rule iffI; erule armed_cong; simp)

lemma armed_known [simp]: "armed_inv (s\<lparr>popped := x\<rparr>) = armed_inv s"
  by (rule iffI; erule armed_cong; simp)

lemma armed_delete [simp]: "armed_inv (delete_timer_right t s) = armed_inv s"
  by (rule iffI; erule armed_cong; simp)

lemma armed_upd_tcpu:
  assumes "armed_inv s" and "stn_fire_at (g (tcpus s c)) = stn_fire_at (tcpus s c)"
    and "tq_ok (node_key s c) (tcpus s c) \<Longrightarrow> tq_ok (node_key s c) (g (tcpus s c))"
  shows "armed_inv (upd_tcpu c g s)"
proof -
  have "node_key (upd_tcpu c g s) c' = node_key s c'" for c'
    using assms(2) by (intro node_key_cong) auto
  then show ?thesis using assms(1,3) by (simp add: armed_inv_def)
qed

lemma armed_tq_erase: "armed_inv s \<Longrightarrow> armed_inv (timer_queue_erase c (TR t) s)"
  unfolding timer_queue_erase_def by (rule armed_upd_tcpu) (auto intro: tq_ok_erase)

lemma armed_att [simp]: 
  "armed_inv s \<Longrightarrow> armed_inv (attention_queue_erase c t s)"
  "armed_inv s \<Longrightarrow> armed_inv (upd_tcpu c (\<lambda>q. q\<lparr>attention_queue := attention_queue q @ [t]\<rparr>) s)"
  unfolding attention_queue_erase_def by (rule armed_upd_tcpu; simp)+

text \<open>Inserting a node and rearming for its deadline.\<close>

lemma tq_ok_insert_rearm:
  assumes "tq_ok k q" and "k n = d" and "d \<noteq> 0" and "n \<noteq> STN"
  shows "tq_ok k (let q' = q\<lparr>timer_queue := tq_insert k n (timer_queue q)\<rparr> in
           if local_timer_next_deadline q' \<noteq> 0 \<and> local_timer_next_deadline q' < d then q'
           else q'\<lparr>local_timer_next_deadline := d\<rparr>)"
  using assms by (auto simp: tq_ok_def sorted_tq_insert Let_def not_less)

lemma armed_insert_rearm:
  assumes "armed_inv s" and "node_key s c n = d" and "d \<noteq> 0" and "n \<noteq> STN"
  shows "armed_inv (maybe_rearm_timer c d (timer_queue_insert c n s))"
proof -
  have "maybe_rearm_timer c d (timer_queue_insert c n s) =
     upd_tcpu c (\<lambda>q. let q' = q\<lparr>timer_queue := tq_insert (node_key s c) n (timer_queue q)\<rparr> in
           if local_timer_next_deadline q' \<noteq> 0 \<and> local_timer_next_deadline q' < d then q'
           else q'\<lparr>local_timer_next_deadline := d\<rparr>) s"
    by (simp add: maybe_rearm_timer_def timer_queue_insert_def upd_tcpu_def Let_def)
  also have "armed_inv \<dots>"
    using assms(1)
  proof (rule armed_upd_tcpu)
    assume "tq_ok (node_key s c) (tcpus s c)"
    from tq_ok_insert_rearm [of "node_key s c" "tcpus s c" n d, OF this assms(2-4)]
    show "tq_ok (node_key s c) (let q' = (tcpus s c)\<lparr>timer_queue := tq_insert (node_key s c) n (timer_queue (tcpus s c))\<rparr> in
           if local_timer_next_deadline q' \<noteq> 0 \<and> local_timer_next_deadline q' < d then q'
           else q'\<lparr>local_timer_next_deadline := d\<rparr>)" .
  qed (simp add: Let_def)
  finally show ?thesis .
qed

lemma armed_arm_on:
  assumes "armed_inv s" and "\<forall>c'. TR t \<notin> set (timer_queue (tcpus s c'))" and "d \<noteq> 0"
  shows "armed_inv (arm_on c t d s)"
proof -
  let ?s1 = "upd_timer t (\<lambda>r. r\<lparr>fire_at_ns := d\<rparr>) s"
  have "armed_inv ?s1" using assms by (intro armed_upd_timer) auto
  then have "armed_inv (maybe_rearm_timer c d (timer_queue_insert c (TR t) ?s1))"
    using assms(3) by (intro armed_insert_rearm) auto
  then show ?thesis unfolding arm_on_def by (rule armed_upd_timer) simp
qed

lemma view_ok_tq:
  "view_ok v \<Longrightarrow> v_tq v c \<longleftrightarrow>
     v_known v \<and> in_timer_queue (v_timer v) \<and> parent_cpu (v_timer v) = Some c \<and> \<not> v_firing v c"
  by (simp add: view_ok_def Let_def)

lemma not_queued:
  assumes "timer_inv s" and "\<not> in_timer_queue (timers s t)"
  shows "TR t \<notin> set (timer_queue (tcpus s c))"
  using view_ok_tq [OF timer_invD(1) [OF assms(1)], of t c] assms(2) by (simp add: view_sel)

lemma queued_only_once:
  assumes "timer_inv s" and "parent_cpu (timers s t) = Some c"
  shows "TR t \<in> set (timer_queue (tcpus s c')) \<Longrightarrow> c' = c"
  using view_ok_tq [OF timer_invD(1) [OF assms(1)], of t c'] assms(2) by (simp add: view_sel)

lemma not_queued_after_erase:
  assumes "timer_inv s"
  shows "TR t \<notin> set (remove1 (TR t) (timer_queue (tcpus s c)))"
  using timer_invD(2) [OF assms] by (simp add: tdistinct_def)

lemmas armed_intros = armed_arm_on armed_upd_timer armed_tq_erase armed_att

lemma set_deadline_armed:
  assumes "set_deadline c t d s = Some (r, s')" "timer_inv s" "armed_inv s"
  shows "armed_inv s'"
    using assms(1,3) not_queued [OF assms(2)] queued_only_once [OF assms(2)] not_queued_after_erase [OF assms(2)]
    by (auto simp: set_deadline_def request_attention_def Let_def split: if_splits option.splits
      intro!: armed_intros)

lemma destroy_armed:
  assumes "timer_destroy_recieve_right c t s = Some (r, s')" "timer_inv s" "armed_inv s"
  shows "armed_inv s'"
    using assms(1,3) not_queued [OF assms(2)] queued_only_once [OF assms(2)] not_queued_after_erase [OF assms(2)]
    by (auto simp: timer_destroy_recieve_right_def request_attention_def Let_def split: if_splits option.splits
      intro!: armed_intros)

lemma attention_armed:
  assumes "timer_get_attention c t s = Some s'" "timer_inv s" "armed_inv s"
  shows "armed_inv s'"
    using assms(1,3) not_queued [OF assms(2)] queued_only_once [OF assms(2)] not_queued_after_erase [OF assms(2)]
    by (auto simp: timer_get_attention_def Let_def split: if_splits intro!: armed_intros)

lemma delete_self_armed:
  assumes "timer_delete_self c t (s\<lparr>popped := x\<rparr>) = Some s'" "timer_inv s" "armed_inv s"
  shows "armed_inv s'"
    using assms(1,3) not_queued [OF assms(2)]
    by (auto simp: timer_delete_self_def Let_def split: if_splits intro!: armed_intros)


lemma armed_irq_busy: "armed_inv s \<Longrightarrow> i \<noteq> Idle \<Longrightarrow> armed_inv (upd_tcpu c (\<lambda>q. q\<lparr>irq := i\<rparr>) s)"
  by (rule armed_upd_tcpu) (auto simp: tq_ok_def)

lemma irq_enter_armed: "armed_inv s \<Longrightarrow> armed_inv (irq_enter c time s)"
  unfolding irq_enter_def by (rule armed_upd_tcpu) (auto simp: tq_ok_def)

lemma irq_fire_armed:
  assumes "irq_fire c s = Some s'" "timer_inv s" "armed_inv s"
  shows "armed_inv s'"
  using assms(1,3)
  by (auto simp: irq_fire_def fire_def Let_def split: if_splits irq_pc.splits
      intro!: armed_intros armed_irq_busy)

lemma irq_exit_armed:
  assumes "armed_inv s"
  shows "armed_inv (irq_exit c s)"
proof (cases "timer_queue (tcpus s c)")
  case Nil
  with assms show ?thesis
    unfolding irq_exit_def by (auto intro!: armed_upd_tcpu simp: tq_ok_def)
next
  case (Cons n ns)
  let ?k = "node_key s c n" and ?q = "tcpus s c"
  let ?l = "local_timer_next_deadline ?q"
  have ok: "tq_ok (node_key s c) ?q" using assms by (simp add: armed_inv_def)
  then have min: "\<forall>m \<in> set (timer_queue ?q). ?k \<le> node_key s c m" and nz: "?k \<noteq> 0"
    using Cons by (auto simp: tq_ok_def)
  have "irq_exit c s = upd_tcpu c (\<lambda>q. q\<lparr>local_timer_next_deadline :=
          (if ?l \<noteq> 0 \<and> ?l < ?k then ?l else ?k), irq := Idle\<rparr>) s"
    using Cons by (simp add: irq_exit_def maybe_rearm_timer_def upd_tcpu_def)
  also have "armed_inv \<dots>"
    using assms
  proof (rule armed_upd_tcpu)
    show "tq_ok (node_key s c) (?q\<lparr>local_timer_next_deadline :=
          (if ?l \<noteq> 0 \<and> ?l < ?k then ?l else ?k), irq := Idle\<rparr>)"
      using ok min nz by (auto simp: tq_ok_def) 
  qed simp
  finally show ?thesis .
qed

lemma tq_ok_stn:
  assumes "tq_ok k q" and "distinct (timer_queue q)" and "d \<noteq> 0" and "\<And>t. k' (TR t) = k (TR t)" and "k' STN = d"
  shows "tq_ok k' (let q' = q\<lparr>timer_queue := tq_insert k' STN (remove1 STN (timer_queue q)),
                             stn_fire_at := d, sched_timer_deadline := x\<rparr> in
           if local_timer_next_deadline q' \<noteq> 0 \<and> local_timer_next_deadline q' < d then q'
           else q'\<lparr>local_timer_next_deadline := d\<rparr>)"
proof -
  have k: "k' n = k n" if "n \<in> set (remove1 STN (timer_queue q))" for n
    using that assms(2) by (cases n rule: tnode.exhaust) (simp_all add: assms(4))
  then have "map k' (remove1 STN (timer_queue q)) = map k (remove1 STN (timer_queue q))" by simp
  then have "sorted (map k' (remove1 STN (timer_queue q)))"
    using assms(1) sorted_map_remove1 by (metis tq_ok_def)
  moreover have e: "\<forall>n \<in> set (timer_queue q) - {STN}. k' n = k n"
    using k assms(2) by auto
  moreover have "\<forall>n \<in> set (timer_queue q). k' n \<noteq> 0"
    using e assms(1,3,5) by (metis DiffI singletonD tq_ok_def)
  ultimately show ?thesis
    using assms by (auto simp: tq_ok_def sorted_tq_insert Let_def not_less)
      (metis DiffI singletonD less_imp_le order_trans order_refl)+
qed

lemma sched_timer_armed:
  assumes "armed_inv s" and "timer_inv s" and "period_ms = 0 \<or> now + period_ms * 1000000 \<noteq> 0"
  shows "armed_inv (sched_timer c now period_ms s)"
proof -
  let ?d = "now + period_ms * 1000000" and ?q = "tcpus s c"
  have t: "armed_inv (upd_tcpu c (\<lambda>q. q\<lparr>sched_timer_deadline := x\<rparr>) s)" for x
    using assms(1) by (rule armed_upd_tcpu) (simp_all add: tq_ok_def)
  have ok: "tq_ok (node_key s c) ?q" and dq: "distinct (timer_queue ?q)"
    using assms(1) timer_invD(2) [OF assms(2)] by (auto simp: armed_inv_def tdistinct_def)
  have stn: "STN \<in> set (timer_queue ?q) \<longleftrightarrow> stn_fire_at ?q \<noteq> 0"
    using ok by (simp add: tq_ok_def)
  show ?thesis
  proof (cases "period_ms = 0 \<or> (stn_fire_at ?q \<noteq> 0 \<and> \<not> ?d < stn_fire_at ?q)")
    case True
    then show ?thesis using t by (auto simp: sched_timer_def Let_def)
  next
    case False
    let ?k' = "\<lambda>n. case n of STN \<Rightarrow> ?d | TR t \<Rightarrow> fire_at_ns (timers s t)"
    let ?f = "\<lambda>q. let q' = q\<lparr>timer_queue := tq_insert ?k' STN (remove1 STN (timer_queue q)),
                             stn_fire_at := ?d, sched_timer_deadline := ?d\<rparr> in
           if local_timer_next_deadline q' \<noteq> 0 \<and> local_timer_next_deadline q' < ?d then q'
           else q'\<lparr>local_timer_next_deadline := ?d\<rparr>"
    have k: "node_key s' c' = (\<lambda>n. case n of STN \<Rightarrow> stn_fire_at (tcpus s' c') | TR t \<Rightarrow> fire_at_ns (timers s' t))" for s' c'
      by (rule ext) (simp split: tnode.split)
    have r: "stn_fire_at ?q = 0 \<Longrightarrow> remove1 STN (timer_queue ?q) = timer_queue ?q"
      using stn by (simp add: remove1_idem)
    have "sched_timer c now period_ms s = upd_tcpu c ?f s"
      using False r
      by (cases "tcpus s c") (auto simp: sched_timer_def Let_def maybe_rearm_timer_def timer_queue_insert_def timer_queue_erase_def upd_tcpu_def k)
    moreover have "tq_ok ?k' (?f ?q)"
      using ok dq assms(3) False by (intro tq_ok_stn [where k = "node_key s c"]) auto
    moreover have "node_key (upd_tcpu c ?f s) c' = (if c' = c then ?k' else node_key s c')" for c'
      by (auto simp: k Let_def fun_eq_iff split: tnode.split)
    ultimately show ?thesis using assms(1) by (simp add: armed_inv_def)
  qed
qed

lemma sched_timer_inv:
  assumes "timer_inv s" and "armed_inv s"
  shows "timer_inv (sched_timer c now d s)"
proof -
  have "STN \<in> set (timer_queue (tcpus s c)) \<longrightarrow> stn_fire_at (tcpus s c) \<noteq> 0"
    using assms(2) by (auto simp: armed_inv_def tq_ok_def)
  then show ?thesis using assms(1) by (simp add: timer_inv_def)
qed

lemma stn_pop_inv:
  assumes "timer_inv s" "armed_inv s" "timer_queue (tcpus s c) = STN # ns" "irq (tcpus s c) \<noteq> Idle"
  defines "s1 \<equiv> upd_tcpu c (\<lambda>q. q\<lparr>stn_fire_at := 0\<rparr>) (upd_tcpu c (\<lambda>q. q\<lparr>timer_queue := ns\<rparr>) s)"
  shows "timer_inv s1 \<and> armed_inv s1 \<and> (\<forall>t. view s1 t = view s t)"
proof -
  note i = timer_invD [OF assms(1)]
  have "distinct (STN # ns)" using i(2) assms(3) by (metis tdistinct_def)
  then have n: "STN \<notin> set ns" "distinct ns" by auto
  have v: "view s1 t = view s t" for t
    using assms(3) by (auto simp: s1_def view_def)
  have "tdistinct s1" using i(2) n by (auto simp: s1_def tdistinct_def)
  then have 1: "timer_inv s1" using i(1) v by (simp add: timer_inv_def)
  have k: "node_key s1 c' m = node_key s c' m" if "m \<in> set ns \<or> c' \<noteq> c" for c' m
    using that n by (cases m rule: tnode.exhaust) (auto simp: s1_def)
  then have m: "map (node_key s1 c) ns = map (node_key s c) ns" by simp
  have "tq_ok (node_key s1 c') (tcpus s1 c')" for c'
  proof (cases "c' = c")
    case True
    have "tq_ok (node_key s c) (tcpus s c)" using assms(2) by (simp add: armed_inv_def)
    then have "sorted (map (node_key s c) ns)" "\<forall>m \<in> set ns. node_key s1 c m \<noteq> 0"
      using assms(3) k by (auto simp: tq_ok_def)
    then have "sorted (map (node_key s1 c) ns)" "\<forall>m \<in> set ns. node_key s1 c m \<noteq> 0"
      by (simp_all only: m)
    then show ?thesis using True n assms(4) by (simp add: tq_ok_def s1_def)
  next
    case False
    then have "node_key s1 c' = node_key s c'" using k by auto
    then show ?thesis using False assms(2) by (simp add: armed_inv_def s1_def)
  qed
  then show ?thesis using 1 v by (simp add: armed_inv_def)
qed

lemma armed_tq_tl:
  assumes "armed_inv s" and "timer_queue (tcpus s c) = TR t # ns"
  shows "armed_inv (upd_tcpu c (\<lambda>q. q\<lparr>timer_queue := ns\<rparr>) s)"
  using assms(1) by (rule armed_upd_tcpu) (use assms(2) in \<open>auto simp: tq_ok_def\<close>)

lemma view_irq_idem:
  assumes "\<And>t'. is_firing i t' = is_firing (irq (tcpus s c)) t'"
  shows "view (upd_tcpu c (\<lambda>q. q\<lparr>irq := i\<rparr>) s) t = view s t"
proof -
  have "v_firing (view s t) c = is_firing i t" by (simp add: assms view_sel)
  then show ?thesis by (simp add: fun_upd_idem)
qed

lemma irq_enter_inv:
  assumes "timer_inv s" and "irq (tcpus s c) = Idle"
  shows "timer_inv (irq_enter c time s)"
proof -
  have "view (irq_enter c time s) t = view s t" for t
    using assms(2) by (auto simp: irq_enter_def view_def)
  moreover have "tdistinct (irq_enter c time s)" using timer_invD(2) [OF assms(1)]
    by (simp add: irq_enter_def tdistinct_def)
  ultimately show ?thesis using assms(1) by (simp add: timer_inv_def)
qed

lemma irq_exit_inv:
  assumes "timer_inv s" and "irq (tcpus s c) = Scan time"
  shows "timer_inv (irq_exit c s)"
proof -
  have "view (irq_exit c s) t = view s t" for t
    using assms(2) by (auto simp: irq_exit_def view_def fun_eq_iff split: list.split)
  moreover have "tdistinct (irq_exit c s)" using timer_invD(2) [OF assms(1)]
    by (simp add: irq_exit_def split: list.split)
  ultimately show ?thesis using assms(1) by (simp add: timer_inv_def)
qed

lemma irq_pop_inv:
  assumes "timer_inv s" "armed_inv s" "tenabled s (TIrqPop c now d)"
  shows "\<exists>s'. irq_pop c now d s = Some s' \<and> timer_inv s' \<and> armed_inv s'"
proof -
  obtain time n ns where i: "irq (tcpus s c) = Scan time" and q: "timer_queue (tcpus s c) = n # ns"
    and k: "node_key s c n \<le> time" and d: "d = 0 \<or> now + d * 1000000 \<noteq> 0"
    using assms(3) by (cases "timer_queue (tcpus s c)") (auto split: irq_pc.splits)
  show ?thesis
  proof (cases n)
    case STN
    let ?s1 = "upd_tcpu c (\<lambda>q. q\<lparr>stn_fire_at := 0\<rparr>) (upd_tcpu c (\<lambda>q. q\<lparr>timer_queue := ns\<rparr>) s)"
    have "timer_inv ?s1 \<and> armed_inv ?s1" using stn_pop_inv [OF assms(1,2)] q i STN by simp
    then have "timer_inv (sched_timer c now d ?s1) \<and> armed_inv (sched_timer c now d ?s1)"
      using d sched_timer_inv sched_timer_armed by blast
    then show ?thesis using i q k STN by (simp add: irq_pop_def)
  next
    case (TR t)
    let ?s1 = "upd_tcpu c (\<lambda>q. q\<lparr>irq := Firing time t\<rparr>) (upd_tcpu c (\<lambda>q. q\<lparr>timer_queue := ns\<rparr>) s)"
    have "timer_inv ?s1" using irq_pop_good [OF assms(1) i] q TR good_step_inv [OF assms(1)] by blast
    moreover have "armed_inv ?s1" using armed_tq_tl [OF assms(2)] q TR by (intro armed_irq_busy) auto
    ultimately show ?thesis using i q k TR by (simp add: irq_pop_def)
  qed
qed

lemma texec_inv:
  assumes "timer_inv s" "armed_inv s" "tenabled s e"
  shows "\<exists>s'. texec e s = Some s' \<and> timer_inv s' \<and> armed_inv s'"
proof (cases e)
  case (TCreate alloc p)
  show ?thesis
  proof (cases alloc)
    case None
    then show ?thesis using TCreate assms by (simp add: create_for_port_def)
  next
    case (Some t)
    have "armed_inv (snd (create_for_port (Some t) p s))"
      using assms(2) by (rule armed_cong) (use assms TCreate Some timer_invD(1) [OF assms(1), of t] in \<open>auto simp: create_for_port_def Let_def view_def view_ok_def\<close>)
    then show ?thesis
      using TCreate Some assms create_good [of s t p] good_step_inv by auto
  qed
next
  case (TSetDeadline c t d)
  then obtain r s' where s': "set_deadline c t d s = Some (r, s')"
    using set_deadline_runs [OF timer_invD(1) [OF assms(1)]] assms(3) by fastforce
  then have "good_step t s s'" "armed_inv s'"
    using TSetDeadline assms by (auto intro: set_deadline_good set_deadline_armed)
  then show ?thesis using s' TSetDeadline assms(1) good_step_inv by fastforce
next
  case (TDestroy c t)
  then obtain r s' where s': "timer_destroy_recieve_right c t s = Some (r, s')"
    using destroy_runs [OF timer_invD(1) [OF assms(1)]] assms(3) by fastforce
  then have "good_step t s s'" "armed_inv s'"
    using TDestroy assms by (auto intro: destroy_good destroy_armed)
  then show ?thesis using s' TDestroy assms(1) good_step_inv by fastforce
next
  case (TAttention c)
  let ?t = "hd (attention_queue (tcpus s c))"
  have m: "?t \<in> set (attention_queue (tcpus s c))" "irq (tcpus s c) = Idle"
    using TAttention assms(3) by auto
  then obtain s' where s': "timer_get_attention c ?t s = Some s'"
    using attention_runs [OF timer_invD(1) [OF assms(1)]] by fastforce
  then have "good_step ?t s s'" "armed_inv s'"
    using m assms by (auto intro: attention_good attention_armed)
  then show ?thesis using s' TAttention assms(1) good_step_inv by fastforce
next
  case (TPop p)
  then obtain t ts where q: "tp_queue (tports s p) = t # ts"
    using assms(3) by (cases "tp_queue (tports s p)") auto
  show ?thesis
    using TPop q good_step_inv [OF assms(1) pop_good [OF assms(1) q]] assms(2) by simp
next
  case (TDeleteSelf c t)
  then obtain s' where s': "timer_delete_self c t (s\<lparr>popped := remove1 t (popped s)\<rparr>) = Some s'"
    using delete_self_runs [OF timer_invD(1) [OF assms(1)]] assms(3) by fastforce
  then have "good_step t s s'" "armed_inv s'"
    using TDeleteSelf assms by (auto intro: delete_self_good delete_self_armed)
  then show ?thesis using s' TDeleteSelf assms(1) good_step_inv by fastforce
next
  case (TIrqEnter c time)
  then show ?thesis using assms irq_enter_inv irq_enter_armed by auto
next
  case (TIrqPop c now d)
  then show ?thesis using assms irq_pop_inv by simp
next
  case (TIrqFire c)
  then obtain time t where i: "irq (tcpus s c) = Firing time t"
    using assms(3) by (auto split: irq_pc.splits)
  then obtain s' where s': "irq_fire c s = Some s'"
    using irq_fire_runs [OF timer_invD(1) [OF assms(1)]] by fastforce
  then have "good_step t s s'" "armed_inv s'"
    using i assms by (auto intro: irq_fire_good irq_fire_armed)
  then show ?thesis using s' TIrqFire assms(1) good_step_inv by fastforce
next
  case (TIrqExit c)
  then show ?thesis using assms irq_exit_inv irq_exit_armed by (auto split: irq_pc.splits)
qed

section \<open>The interrupt handler\<close>

definition due :: "nat \<Rightarrow> u64 \<Rightarrow> tsys \<Rightarrow> tnode list" where
  "due c time s = filter (\<lambda>n. node_key s c n \<le> time) (timer_queue (tcpus s c))"

lemma filter_tq_insert_later:
  "\<not> P n \<Longrightarrow> filter P (tq_insert k n q) = filter P q"
  by (induction q) auto

lemma due_cong:
  assumes "STN \<notin> set q" and "\<And>t. fire_at_ns (timers s' t) = fire_at_ns (timers s t)"
  shows "filter (\<lambda>n. node_key s' c n \<le> time) q = filter (\<lambda>n. node_key s c n \<le> time) q"
proof (rule filter_cong [OF refl])
  fix n assume "n \<in> set q"
  with assms(1) obtain t where "n = TR t" by (metis tnode.exhaust)
  then show "(node_key s' c n \<le> time) = (node_key s c n \<le> time)" by (simp add: assms(2))
qed

lemma sched_timer_timers [simp]: "timers (sched_timer c now d s) = timers s"
  by (simp add: sched_timer_def Let_def)

lemma due_sched_timer:
  assumes "STN \<notin> set (timer_queue (tcpus s c))" "stn_fire_at (tcpus s c) = 0" "d = 0 \<or> time < now + d * 1000000"
  shows "due c time (sched_timer c now d s) = due c time s"
proof (cases "d = 0")
  case True
  then have "timer_queue (tcpus (sched_timer c now d s) c) = timer_queue (tcpus s c)"
    by (simp add: sched_timer_def)
  then show ?thesis unfolding due_def using due_cong [OF assms(1), of "sched_timer c now d s" s c time] by simp
next
  case False
  let ?d = "now + d * 1000000" and ?s' = "sched_timer c now d s"
  have nl: "\<not> ?d < 0" by (rule word_not_simps(1))
  obtain k where q: "timer_queue (tcpus ?s' c) = tq_insert k STN (timer_queue (tcpus s c))"
    using False assms(2) nl unfolding sched_timer_def by (simp only: Let_def if_False if_True) simp
  have st: "node_key ?s' c STN = ?d"
    using False assms(2) nl unfolding sched_timer_def by (simp only: Let_def if_False if_True) simp
  have "due c time ?s' = filter (\<lambda>n. node_key ?s' c n \<le> time) (timer_queue (tcpus s c))"
    unfolding due_def q by (rule filter_tq_insert_later) (use st assms(3) False in simp)
  also have "\<dots> = due c time s" unfolding due_def by (rule due_cong [OF assms(1)]) simp
  finally show ?thesis .
qed

definition fired :: "tsys \<Rightarrow> tsys \<Rightarrow> nat \<Rightarrow> bool" where
  "fired s s' t \<longleftrightarrow> \<not> in_timer_queue (timers s' t)
     \<and> (t_alive (timers s t) \<longrightarrow> t \<in> set (tp_queue (tports s' (t_parent (timers s t)))))"

text \<open>The timers a round of the loop leaves alone, and the one it fires.\<close>

definition irq_effect :: "nat \<Rightarrow> u64 \<Rightarrow> tsys \<Rightarrow> tsys \<Rightarrow> bool" where
  "irq_effect c time s s' \<longleftrightarrow>
     (\<forall>t. if TR t \<in> set (due c time s) then fired s s' t else view s' t = view s t)"

lemma irq_round_stn:
  assumes "timer_inv s" "armed_inv s" "irq (tcpus s c) = Scan time"
    "timer_queue (tcpus s c) = STN # ns" "node_key s c STN \<le> time" "d = 0 \<or> time < now + d * 1000000"
  shows "\<exists>s'. irq_loop c now d s = irq_loop c now d s' \<and> timer_inv s' \<and> armed_inv s'
     \<and> irq (tcpus s' c) = Scan time \<and> due c time s = STN # due c time s' \<and> (\<forall>t. view s' t = view s t)"
proof -
  let ?s1 = "upd_tcpu c (\<lambda>q. q\<lparr>stn_fire_at := 0\<rparr>) (upd_tcpu c (\<lambda>q. q\<lparr>timer_queue := ns\<rparr>) s)"
  let ?s2 = "sched_timer c now d ?s1"
  have i: "timer_inv ?s1" "armed_inv ?s1" "\<forall>t. view ?s1 t = view s t"
    using stn_pop_inv [OF assms(1,2,4)] assms(3) by simp_all
  have d: "d = 0 \<or> now + d * 1000000 \<noteq> 0" using assms(6) by auto
  have pop: "irq_pop c now d s = Some ?s2" using assms by (simp add: irq_pop_def)
  have irq: "irq (tcpus ?s2 c) = Scan time" using assms(3) by (simp add: sched_timer_def Let_def)
  have "distinct (STN # ns)" using timer_invD(2) [OF assms(1)] assms(4) by (metis tdistinct_def)
  then have n: "STN \<notin> set ns" by simp
  have "due c time ?s2 = due c time ?s1" by (rule due_sched_timer) (use n assms(6) in auto)
  also have "\<dots> = filter (\<lambda>n. node_key s c n \<le> time) ns"
    unfolding due_def using due_cong [OF n, of ?s1 s c time] by simp
  finally have "due c time s = STN # due c time ?s2" using assms(4,5) by (simp add: due_def)
  moreover have "irq_loop c now d s = irq_loop c now d ?s2"
    using assms(3,4) leD [OF assms(5)] pop irq by (subst irq_loop.simps) simp
  ultimately show ?thesis
    using i irq sched_timer_inv [OF i(1,2)] sched_timer_armed [OF i(2,1) d] by (intro exI [of _ ?s2]) simp
qed

lemma irq_fire_fired:
  assumes "irq_fire c s = Some s'" "irq (tcpus s c) = Firing time t"
  shows "fired s s' t" and "irq (tcpus s' c) = Scan time"
    and "timer_queue (tcpus s' c) = timer_queue (tcpus s c)"
    and "\<And>t'. fire_at_ns (timers s' t') = fire_at_ns (timers s t')"
    and "stn_fire_at (tcpus s' c) = stn_fire_at (tcpus s c)"
  using assms by (auto simp: irq_fire_def fire_def fired_def Let_def split: if_splits)

lemma irq_round_timer:
  assumes "timer_inv s" "armed_inv s" "irq (tcpus s c) = Scan time"
    "timer_queue (tcpus s c) = TR t # ns" "node_key s c (TR t) \<le> time"
  shows "\<exists>s'. irq_loop c now d s = irq_loop c now d s' \<and> timer_inv s' \<and> armed_inv s'
     \<and> irq (tcpus s' c) = Scan time \<and> due c time s = TR t # due c time s'
     \<and> fired s s' t \<and> (\<forall>t'. t' \<noteq> t \<longrightarrow> view s' t' = view s t')"
proof -
  let ?s1 = "upd_tcpu c (\<lambda>q. q\<lparr>irq := Firing time t\<rparr>) (upd_tcpu c (\<lambda>q. q\<lparr>timer_queue := ns\<rparr>) s)"
  have g1: "good_step t s ?s1" by (rule irq_pop_good [OF assms(1,3,4)])
  then have i1: "timer_inv ?s1" by (rule good_step_inv [OF assms(1)])
  have a1: "armed_inv ?s1" using armed_tq_tl [OF assms(2,4)] by (intro armed_irq_busy) auto
  have irq1: "irq (tcpus ?s1 c) = Firing time t" by simp
  obtain s2 where s2: "irq_fire c ?s1 = Some s2"
    using irq_fire_runs [OF timer_invD(1) [OF i1] irq1] by auto
  have g2: "good_step t ?s1 s2" by (rule irq_fire_good [OF s2 i1 irq1])
  note f = irq_fire_fired [OF s2 irq1]
  have "node_key s2 c = node_key s c"
    by (rule ext, case_tac x) (simp_all add: f)
  then have "due c time s = TR t # due c time s2"
    using assms(4,5) f(3) by (simp add: due_def)
  moreover have "irq_pop c now d s = Some ?s1" using assms by (simp add: irq_pop_def)
  then have "irq_loop c now d s = irq_loop c now d s2"
    using assms(3,4) leD [OF assms(5)] s2 by (subst irq_loop.simps) simp
  moreover have "fired s s2 t" using f(1) by (simp add: fired_def)
  moreover have "\<forall>t'. t' \<noteq> t \<longrightarrow> view s2 t' = view s t'"
    using g1 g2 by (simp add: good_step_def)
  ultimately show ?thesis
    using f(2) good_step_inv [OF i1 g2] irq_fire_armed [OF s2 i1 a1] by blast
qed

lemma due_head:
  assumes "armed_inv s" "due c time s \<noteq> []"
  obtains n ns where "timer_queue (tcpus s c) = n # ns" "node_key s c n \<le> time"
proof (cases "timer_queue (tcpus s c)")
  case Nil
  then show ?thesis using assms(2) by (simp add: due_def)
next
  case (Cons n ns)
  have "sorted (map (node_key s c) (n # ns))"
    using assms(1) Cons by (metis armed_inv_def tq_ok_def)
  moreover obtain m where "m \<in> set (n # ns)" "node_key s c m \<le> time"
    using assms(2) Cons unfolding due_def filter_empty_conv by metis
  ultimately have "node_key s c n \<le> time" by (auto intro: order_trans)
  then show ?thesis using Cons that by blast
qed

lemma irq_loop_returns:
  assumes "timer_inv s" "armed_inv s" "irq (tcpus s c) = Scan time" "d = 0 \<or> time < now + d * 1000000"
  shows "\<exists>s'. irq_loop c now d s = Some s' \<and> timer_inv s' \<and> armed_inv s' \<and> irq (tcpus s' c) = Scan time
     \<and> due c time s' = [] \<and> irq_effect c time s s'"
  using assms(1-3)
proof (induction "length (due c time s)" arbitrary: s)
  case 0
  then have "due c time s = []" by simp
  moreover have "irq_loop c now d s = Some s"
    using 0 by (subst irq_loop.simps) (auto simp: due_def not_le split: list.split if_splits)
  ultimately show ?case using 0 by (auto simp: irq_effect_def)
next
  case (Suc k)
  then obtain n ns where q: "timer_queue (tcpus s c) = n # ns" and key: "node_key s c n \<le> time"
    using due_head [OF Suc.prems(2), of c time] by (metis length_0_conv nat.distinct(1))
  show ?case
  proof (cases n)
    case STN
    then obtain s1 where 1: "irq_loop c now d s = irq_loop c now d s1" "timer_inv s1" "armed_inv s1"
      "irq (tcpus s1 c) = Scan time" "due c time s = STN # due c time s1" "\<forall>t. view s1 t = view s t"
      using irq_round_stn [OF Suc.prems(1-3) _ _ assms(4)] q key by blast
    then obtain s2 where 2: "irq_loop c now d s1 = Some s2" "timer_inv s2 \<and> armed_inv s2"
      "irq (tcpus s2 c) = Scan time" "due c time s2 = []" "irq_effect c time s1 s2"
      using Suc.hyps(1) [of s1] Suc.hyps(2) by auto
    moreover have "fired s1 s2 t = fired s s2 t" for t
      unfolding fired_def using 1(6) by (metis view_timer)
    ultimately have "irq_effect c time s s2"
      using 1(5,6) unfolding irq_effect_def by (metis list.set_intros(2) set_ConsD tnode.distinct(1))
    then show ?thesis using 1(1) 2 by auto
  next
    case (TR u)
    then obtain s1 where 1: "irq_loop c now d s = irq_loop c now d s1" "timer_inv s1" "armed_inv s1"
      "irq (tcpus s1 c) = Scan time" "due c time s = TR u # due c time s1" "fired s s1 u"
      "\<forall>t. t \<noteq> u \<longrightarrow> view s1 t = view s t"
      using irq_round_timer [OF Suc.prems(1-3)] q key by blast
    then obtain s2 where 2: "irq_loop c now d s1 = Some s2" "timer_inv s2 \<and> armed_inv s2"
      "irq (tcpus s2 c) = Scan time" "due c time s2 = []" "irq_effect c time s1 s2"
      using Suc.hyps(1) [of s1] Suc.hyps(2) by auto
    have t: "fired s1 s2 t = fired s s2 t" if "t \<noteq> u" for t
      unfolding fired_def using 1(7) that by (metis view_timer)
    have "TR u \<notin> set (due c time s1)"
      using timer_invD(2) [OF Suc.prems(1)] 1(5) by (metis due_def distinct.simps(2) distinct_filter tdistinct_def)
    then have "view s2 u = view s1 u" using 2(5) by (auto simp: irq_effect_def)
    then have "fired s s2 u"
      using 1(6) by (simp add: fired_def view_def fun_eq_iff)
    then have "irq_effect c time s s2"
      using 1(5,7) 2(5) t unfolding irq_effect_def by (metis insert_iff list.set(2) tnode.inject)
    then show ?thesis using 1(1) 2 by auto
  qed
qed

lemma treachable_inv: "treachable s \<Longrightarrow> timer_inv s \<and> armed_inv s"
proof (induction rule: treachable.induct)
  case (treach_init s)
  then show ?case
    by (auto simp: tinit_def timer_inv_def tdistinct_def view_def view_ok_def
        armed_inv_def tq_ok_def Let_def)
next
  case (treach_step s s')
  then show ?case by (auto elim!: tstep.cases dest: texec_inv)
qed

lemma fired_view:
  "fired s s' t \<longleftrightarrow> \<not> in_timer_queue (v_timer (view s' t))
     \<and> (t_alive (v_timer (view s t)) \<longrightarrow> v_msg (view s' t) (t_parent (v_timer (view s t))))"
  by (simp add: fired_def view_def)

lemma node_key_irq_enter [simp]: "node_key (irq_enter c time s) c' n = node_key s c' n"
  by (cases n) (auto simp: irq_enter_def)

lemma node_key_irq_exit [simp]: "node_key (irq_exit c s) c' n = node_key s c' n"
  by (cases n) (auto simp: irq_exit_def split: list.split)

lemma cpu_timer_interrupt_runs:
  assumes "timer_inv s" "armed_inv s" "irq (tcpus s c) = Idle" "d = 0 \<or> time < now + d * 1000000"
  shows "\<exists>s'. cpu_timer_interrupt c time now d s = Some s' \<and> timer_inv s' \<and> armed_inv s'
     \<and> irq (tcpus s' c) = Idle \<and> due c time s' = [] \<and> irq_effect c time s s'"
proof -
  let ?s0 = "irq_enter c time s"
  have i: "timer_inv ?s0" by (rule irq_enter_inv [OF assms(1,3)])
  have a: "armed_inv ?s0" by (rule irq_enter_armed [OF assms(2)])
  have irq: "irq (tcpus ?s0 c) = Scan time" by (simp add: irq_enter_def)
  have v0: "view ?s0 = view s"
    using assms(3) by (auto simp: irq_enter_def view_def fun_eq_iff)
  have due0: "due c time ?s0 = due c time s" by (simp add: due_def) (simp add: irq_enter_def)
  from irq_loop_returns [OF i a irq assms(4)] obtain s1 where 1: "irq_loop c now d ?s0 = Some s1"
    "timer_inv s1" "armed_inv s1" "irq (tcpus s1 c) = Scan time" "due c time s1 = []" "irq_effect c time ?s0 s1"
    by blast
  let ?s2 = "irq_exit c s1"
  have v2: "view ?s2 = view s1"
    using 1(4) by (auto simp: irq_exit_def view_def fun_eq_iff split: list.split)
  have "due c time ?s2 = due c time s1" by (simp add: due_def) (simp add: irq_exit_def split: list.split)
  moreover have "irq_effect c time s ?s2"
    using 1(6) unfolding irq_effect_def fired_view v0 v2 due0 .
  moreover have "irq (tcpus ?s2 c) = Idle" by (simp add: irq_exit_def)
  ultimately show ?thesis
    using 1 irq_exit_inv [OF 1(2,4)] irq_exit_armed [OF 1(3)] by (simp add: cpu_timer_interrupt_def)
qed

definition armed_at :: "tsys \<Rightarrow> nat \<Rightarrow> nat \<Rightarrow> u64 \<Rightarrow> bool" where
  "armed_at s c t d \<longleftrightarrow> TR t \<in> set (timer_queue (tcpus s c)) \<and> fire_at_ns (timers s t) = d
     \<and> parent_cpu (timers s t) = Some c \<and> in_timer_queue (timers s t)"

lemma arm_on_armed: "parent_cpu (timers s t) = Some c \<Longrightarrow> armed_at (arm_on c t d s) c t d"
  by (simp add: armed_at_def arm_on_def)

end
