(* ===== verification/Timers_Props.thy ===== *)
theory Timers_Props
  imports Timers_Inv
begin

text \<open>
  The properties of the timer rights, over every state the events of \<open>Timers\<close> lead to, and a
  concrete run on which they are applied: two timers on CPU 0, one destroyed and one given a
  new deadline by CPU 3 while both are queued.
\<close>

section \<open>A concrete run\<close>

definition tsys0 :: tsys where
  "tsys0 = \<lparr>timers = (\<lambda>_. \<lparr>t_parent = 0, t_parent_id = 0, parent_cpu = None, fire_at_ns = 0,
       next_update_ns = 0, is_sent = False, in_timer_queue = False, waiting_for_attention = False,
       t_alive = False\<rparr>),
     tcpus = (\<lambda>_. \<lparr>timer_queue = [], attention_queue = [], local_timer_next_deadline = 0,
       stn_fire_at = 0, sched_timer_deadline = 0, irq = Idle\<rparr>),
     tports = (\<lambda>_. \<lparr>tp_alive = True, tp_current_right_id = 0, tp_rights = [], tp_queue = []\<rparr>),
     t_known = [], popped = [], rcu_pushed = []\<rparr>"

fun truns :: "tevent list \<Rightarrow> tsys \<Rightarrow> tsys option" where
  "truns [] s = Some s"
| "truns (e # es) s = (if tenabled s e then Option.bind (texec e s) (truns es) else None)"

definition two_timers :: "tevent list" where
  "two_timers = [TCreate (Some 7) 1, TSetDeadline 0 7 100, TCreate (Some 8) 1,
      TSetDeadline 0 8 900, TSetDeadline 3 8 950, TDestroy 3 7]"

definition two_timers_sys :: tsys where
  "two_timers_sys = the (truns two_timers tsys0)"

definition freed_sys :: tsys where
  "freed_sys = the (truns [TCreate (Some 7) 1, TSetDeadline 0 7 100, TDestroy 3 7, TAttention 0] tsys0)"

lemma truns_reachable: "treachable s \<Longrightarrow> truns es s = Some s' \<Longrightarrow> treachable s'"
proof (induction es arbitrary: s)
  case (Cons e es)
  then obtain s1 where "tenabled s e" "texec e s = Some s1" "truns es s1 = Some s'"
    by (auto split: if_splits bind_splits)
  with Cons show ?case by (meson treach_step tstepI)
qed simp

lemma tsys0_reachable: "truns es tsys0 = Some s \<Longrightarrow> treachable s"
  by (rule truns_reachable [OF treach_init]) (simp_all add: tinit_def tsys0_def)

lemmas trun_simps = timer_op_defs timer_aux_defs tupd_defs tsys0_def Let_def

lemma two_timers_run: "truns two_timers tsys0 = Some two_timers_sys"
  by (simp add: two_timers_sys_def two_timers_def trun_simps)

lemmas two_timers_reachable = tsys0_reachable [OF two_timers_run]

lemma two_timers_state:
  "tcpus two_timers_sys 0 = \<lparr>timer_queue = [TR 7, TR 8], attention_queue = [8, 7],
     local_timer_next_deadline = 100, stn_fire_at = 0, sched_timer_deadline = 0, irq = Idle\<rparr>"
  "rcu_pushed two_timers_sys = []" "t_known two_timers_sys = [8, 7]"
  "timers two_timers_sys 8 = \<lparr>t_parent = 1, t_parent_id = 2, parent_cpu = Some 0,
     fire_at_ns = 900, next_update_ns = 950, is_sent = False, in_timer_queue = True,
     waiting_for_attention = True, t_alive = True\<rparr>"
  "fire_at_ns (timers two_timers_sys 7) = 100"
  by (simp_all add: two_timers_sys_def two_timers_def trun_simps)

section \<open>Properties\<close>

text \<open>
  C1. No assertion of the timer code fails: in every state the timer events lead to, whatever
  can happen next (a system call on any CPU, an interrupt, a step of an interrupt that is
  running, a message being taken out of a port) runs to its end. In particular the assertions
  on \<open>in_timer_queue\<close>, \<open>waiting_for_attention\<close>, \<open>parent_cpu\<close>, \<open>is_sent\<close> and \<open>next_update_ns\<close> hold
  in every interleaving.
\<close>

theorem timer_no_assertion_fails:
  "treachable s \<Longrightarrow> tenabled s e \<Longrightarrow> texec e s \<noteq> None"
  using treachable_inv texec_inv by blast

theorem timer_no_assertion_fails_witness:
  "treachable two_timers_sys \<and> tenabled two_timers_sys (TAttention 0)
     \<and> texec (TAttention 0) two_timers_sys \<noteq> None"
  using timer_no_assertion_fails [OF two_timers_reachable, of "TAttention 0"]
    two_timers_reachable by (simp add: two_timers_state)

text \<open>
  C2. A timer right is freed exactly once, and exactly when nothing refers to it any more: no
  timer is handed to the read-copy-update machinery twice, and a timer was handed to it iff it
  was created and is in no timer queue, no attention queue, no interrupt handler about to fire
  it, no rights of a port, no message queue, and no message on its way to \<open>delete_self\<close>. So no
  queue holds freed memory and no timer is leaked.
\<close>

theorem timer_freed_once:
  assumes "treachable s"
  shows "distinct (rcu_pushed s) \<and>
    (t \<in> set (rcu_pushed s) \<longleftrightarrow>
      t \<in> set (t_known s) \<and> t \<notin> set (popped s)
      \<and> (\<forall>c. TR t \<notin> set (timer_queue (tcpus s c)) \<and> t \<notin> set (attention_queue (tcpus s c))
             \<and> \<not> is_firing (irq (tcpus s c)) t)
      \<and> (\<forall>p. t \<notin> set (tp_rights (tports s p)) \<and> t \<notin> set (tp_queue (tports s p))))"
proof
  have i: "timer_inv s" using treachable_inv [OF assms] by blast
  show "distinct (rcu_pushed s)" using timer_invD(2) [OF i] by (simp add: tdistinct_def)
  show "t \<in> set (rcu_pushed s) \<longleftrightarrow>
      t \<in> set (t_known s) \<and> t \<notin> set (popped s)
      \<and> (\<forall>c. TR t \<notin> set (timer_queue (tcpus s c)) \<and> t \<notin> set (attention_queue (tcpus s c))
             \<and> \<not> is_firing (irq (tcpus s c)) t)
      \<and> (\<forall>p. t \<notin> set (tp_rights (tports s p)) \<and> t \<notin> set (tp_queue (tports s p)))"
    using timer_invD(1) [OF i, of t]
    by (simp add: view_ok_def view_def Let_def should_delete_self_def flags_ok_def) blast
qed

lemma freed_sys_run:
  "truns [TCreate (Some 7) 1, TSetDeadline 0 7 100, TDestroy 3 7, TAttention 0] tsys0 = Some freed_sys"
  "rcu_pushed freed_sys = [7]"
  by (simp_all add: freed_sys_def trun_simps)

theorem timer_freed_once_witness:
  "rcu_pushed freed_sys = [7] \<and> TR 7 \<notin> set (timer_queue (tcpus freed_sys 0))
     \<and> 7 \<notin> set (attention_queue (tcpus freed_sys 0))"
  using timer_freed_once [OF tsys0_reachable [OF freed_sys_run(1)], of 7] freed_sys_run(2) by simp





text \<open>
  C5. A deadline that was accepted is honoured. Setting a non-zero deadline on a live timer
  succeeds, and the timer ends up queued with exactly that deadline: at once when the timer is
  idle or queued on the calling CPU; as soon as the CPU that has it queued answers the
  attention request, when that is another CPU; and when the message of the last expiry is
  consumed, when that is still in the port.
\<close>

theorem set_deadline_honoured:
  assumes "treachable s" "t \<in> set (t_known s)" "t_alive (timers s t)" "d \<noteq> 0"
  shows "\<exists>s'. set_deadline c t d s = Some (kok, s') \<and>
     (if is_sent (timers s t)
      then \<forall>c'. \<exists>s''. timer_delete_self c' t s' = Some s'' \<and> armed_at s'' c' t d
      else case (if in_timer_queue (timers s t) then parent_cpu (timers s t) else Some c) of
        None \<Rightarrow> False
      | Some pc \<Rightarrow> if pc = c then armed_at s' c t d
                   else t \<in> set (attention_queue (tcpus s' pc))
                      \<and> (\<exists>s''. timer_get_attention pc t s' = Some s'' \<and> armed_at s'' pc t d))"
proof -
  have "view_ok (view s t)" using treachable_inv [OF assms(1)] timer_invD(1) by blast
  then have f: "flags_ok (timers s t)"
    "\<And>c. t \<in> set (attention_queue (tcpus s c)) =
            (waiting_for_attention (timers s t) \<and> parent_cpu (timers s t) = Some c)"
    using assms(2) by (simp_all add: view_ok_def view_def Let_def)
  show ?thesis
    using f assms(3,4)
    by (auto simp: flags_ok_def armed_at_def set_deadline_def request_attention_def
        timer_get_attention_def timer_delete_self_def arm_on_def Let_def split: option.splits)
qed

theorem set_deadline_honoured_witness:
  "\<exists>s' s''. set_deadline 3 8 970 two_timers_sys = Some (kok, s')
     \<and> 8 \<in> set (attention_queue (tcpus s' 0))
     \<and> timer_get_attention 0 8 s' = Some s'' \<and> armed_at s'' 0 8 970"
  using set_deadline_honoured [OF two_timers_reachable, of 8 970 3] by (simp add: two_timers_state)

end
