(* ===== verification/Links.thy ===== *)
theory Links
  imports Prelude
begin

text \<open>
  Doubly linked sequences. \<open>chain\<close> says that the cells of a list are linked in both directions
  between two ends; it is shared by the task queues of the scheduler, whose ends are null, and
  by the circular lists, whose ends are the header. The locale \<open>deque\<close> is the contract both
  implementations offer, with what their clients derive from it: the first element comes out
  first, a loop that empties a queue ends, and moving an element keeps the rest.
\<close>

section \<open>Chains\<close>

fun chain :: "('p \<Rightarrow> 'q) \<Rightarrow> ('p \<Rightarrow> 'q) \<Rightarrow> ('p \<Rightarrow> 'q) \<Rightarrow> 'q \<Rightarrow> 'p list \<Rightarrow> 'q \<Rightarrow> bool" where
  "chain ptr nx pv p [] n \<longleftrightarrow> True"
| "chain ptr nx pv p (x # xs) n \<longleftrightarrow>
     pv x = p \<and> nx x = (case xs of [] \<Rightarrow> n | y # _ \<Rightarrow> ptr y) \<and> chain ptr nx pv (ptr x) xs n"

definition first_of :: "('p \<Rightarrow> 'q) \<Rightarrow> 'p list \<Rightarrow> 'q \<Rightarrow> 'q" where
  "first_of ptr xs n = (case xs of [] \<Rightarrow> n | x # _ \<Rightarrow> ptr x)"

definition last_of :: "('p \<Rightarrow> 'q) \<Rightarrow> 'p list \<Rightarrow> 'q \<Rightarrow> 'q" where
  "last_of ptr xs p = (if xs = [] then p else ptr (last xs))"

lemma first_of_simps [simp]:
  "first_of ptr [] n = n" "first_of ptr (x # xs) n = ptr x"
  "first_of ptr (xs @ ys) n = first_of ptr xs (first_of ptr ys n)"
  by (auto simp: first_of_def split: list.split)

lemma last_of_simps [simp]:
  "last_of ptr [] p = p" "last_of ptr (x # xs) p = last_of ptr xs (ptr x)"
  "last_of ptr (xs @ ys) p = last_of ptr ys (last_of ptr xs p)"
  by (auto simp: last_of_def)

lemma chain_Cons [simp]:
  "chain ptr nx pv p (x # xs) n \<longleftrightarrow>
     pv x = p \<and> nx x = first_of ptr xs n \<and> chain ptr nx pv (ptr x) xs n"
  by (simp add: first_of_def)

declare chain.simps(2) [simp del]

lemma chain_append [simp]:
  "chain ptr nx pv p (xs @ ys) n \<longleftrightarrow>
     chain ptr nx pv p xs (first_of ptr ys n) \<and> chain ptr nx pv (last_of ptr xs p) ys n"
  by (induction xs arbitrary: p) auto

lemma chain_cong:
  "(\<And>x. x \<in> set xs \<Longrightarrow> nx' x = nx x \<and> pv' x = pv x) \<Longrightarrow>
     chain ptr nx' pv' p xs n = chain ptr nx pv p xs n"
  by (induction xs arbitrary: p) auto

lemma chain_set_prev:
  "x \<notin> set xs \<Longrightarrow> chain ptr nx (pv(x := v)) p xs n = chain ptr nx pv p xs n"
  "x \<notin> set xs \<Longrightarrow> chain ptr (nx(x := v)) pv p xs n = chain ptr nx pv p xs n"
  by (auto intro!: chain_cong)

text \<open>The two ends of a chain can be redirected by writing one cell each.\<close>

lemma chain_new_end:
  "chain ptr nx pv p (xs @ [x]) n \<Longrightarrow> x \<notin> set xs \<Longrightarrow> chain ptr (nx(x := n')) pv p (xs @ [x]) n'"
  by (auto simp: chain_set_prev)

lemma chain_new_start:
  "chain ptr nx pv p (x # xs) n \<Longrightarrow> x \<notin> set xs \<Longrightarrow> chain ptr nx (pv(x := p')) p' (x # xs) n"
  by (auto simp: chain_set_prev)

section \<open>Emptying loops\<close>

text \<open>\<open>while (first) take(first)\<close>: the loop of destructors and of the handlers that empty a queue.\<close>

partial_function (option) drain ::
    "('s \<Rightarrow> 'e option) \<Rightarrow> ('e \<Rightarrow> 's \<Rightarrow> 's option) \<Rightarrow> 's \<Rightarrow> 's option" where
  "drain fr er s = (case fr s of None \<Rightarrow> Some s | Some x \<Rightarrow> Option.bind (er x s) (drain fr er))"

lemma drain_None [simp]: "fr s = None \<Longrightarrow> drain fr er s = Some s"
  by (simp add: drain.simps)

lemma drain_Some [simp]: "fr s = Some x \<Longrightarrow> er x s = Some s' \<Longrightarrow> drain fr er s = drain fr er s'"
  by (simp add: drain.simps)

section \<open>Sequences of queue operations\<close>

datatype ('q, 'e) dop = PushBack 'q 'e | PushFront 'q 'e | Erase 'q 'e | PopFront 'q

text \<open>
  The specification: queues as lists. An operation is defined when its caller keeps its side of
  the contract, that an element is in at most one queue and is erased from the queue it is in.
\<close>

fun aexec :: "('q, 'e) dop \<Rightarrow> ('q \<Rightarrow> 'e list) \<Rightarrow> ('e option \<times> ('q \<Rightarrow> 'e list)) option" where
  "aexec (PushBack q e) L = (if \<forall>q. e \<notin> set (L q) then Some (None, L(q := L q @ [e])) else None)"
| "aexec (PushFront q e) L = (if \<forall>q. e \<notin> set (L q) then Some (None, L(q := e # L q)) else None)"
| "aexec (Erase q e) L = (if e \<in> set (L q) then Some (None, L(q := remove1 e (L q))) else None)"
| "aexec (PopFront q) L = (case L q of [] \<Rightarrow> Some (None, L) | x # xs \<Rightarrow> Some (Some x, L(q := xs)))"

text \<open>The same over an implementation: its push, erase and pop operations.\<close>

fun dexec :: "('q \<Rightarrow> 'e \<Rightarrow> 's \<Rightarrow> 's option) \<Rightarrow> ('q \<Rightarrow> 'e \<Rightarrow> 's \<Rightarrow> 's option) \<Rightarrow>
    ('q \<Rightarrow> 'e \<Rightarrow> 's \<Rightarrow> 's option) \<Rightarrow> ('q \<Rightarrow> 's \<Rightarrow> ('e option \<times> 's) option) \<Rightarrow>
    ('q, 'e) dop \<Rightarrow> 's \<Rightarrow> ('e option \<times> 's) option" where
  "dexec pb pf er po (PushBack q e) s = map_option (Pair None) (pb q e s)"
| "dexec pb pf er po (PushFront q e) s = map_option (Pair None) (pf q e s)"
| "dexec pb pf er po (Erase q e) s = map_option (Pair None) (er q e s)"
| "dexec pb pf er po (PopFront q) s = po q s"

fun seq_exec :: "('o \<Rightarrow> 's \<Rightarrow> ('r \<times> 's) option) \<Rightarrow> 'o list \<Rightarrow> 's \<Rightarrow> ('r list \<times> 's) option" where
  "seq_exec f [] s = Some ([], s)"
| "seq_exec f (x # xs) s =
     (case f x s of None \<Rightarrow> None
      | Some (r, s') \<Rightarrow> map_option (\<lambda>(rs, s''). (r # rs, s'')) (seq_exec f xs s'))"

lemma seq_exec_sim:
  assumes step: "\<And>x a c r a'. R c a \<Longrightarrow> f x a = Some (r, a') \<Longrightarrow> \<exists>c'. g x c = Some (r, c') \<and> R c' a'"
  shows "R c a \<Longrightarrow> seq_exec f xs a = Some (rs, a') \<Longrightarrow> \<exists>c'. seq_exec g xs c = Some (rs, c') \<and> R c' a'"
proof (induction xs arbitrary: a c rs)
  case (Cons x xs)
  from Cons.prems(2) obtain r a1 rs1 where 1: "f x a = Some (r, a1)" "seq_exec f xs a1 = Some (rs1, a')"
    "rs = r # rs1" by (auto split: option.splits)
  obtain c1 where "g x c = Some (r, c1)" "R c1 a1" using step [OF Cons.prems(1) 1(1)] by blast
  with Cons.IH [OF _ 1(2)] 1(3) show ?case by fastforce
qed simp

section \<open>The contract of a queue\<close>

text \<open>
  \<open>rep s L\<close>: in the store \<open>s\<close>, the queue \<open>q\<close> holds the elements \<open>L q\<close> in that order. An element is
  in at most one queue of a store.
\<close>

locale deque =
  fixes rep :: "'s \<Rightarrow> ('q \<Rightarrow> 'e list) \<Rightarrow> bool"
    and push_back push_front erase :: "'q \<Rightarrow> 'e \<Rightarrow> 's \<Rightarrow> 's option"
    and front :: "'q \<Rightarrow> 's \<Rightarrow> 'e option"
    and pop_front :: "'q \<Rightarrow> 's \<Rightarrow> ('e option \<times> 's) option"
  assumes rep_distinct: "rep s L \<Longrightarrow> distinct (L q)"
    and rep_disjoint: "rep s L \<Longrightarrow> e \<in> set (L q) \<Longrightarrow> e \<in> set (L q') \<Longrightarrow> q' = q"
    and rep_push_back: "rep s L \<Longrightarrow> \<forall>q. e \<notin> set (L q) \<Longrightarrow>
          \<exists>s'. push_back q e s = Some s' \<and> rep s' (L(q := L q @ [e]))"
    and rep_push_front: "rep s L \<Longrightarrow> \<forall>q. e \<notin> set (L q) \<Longrightarrow>
          \<exists>s'. push_front q e s = Some s' \<and> rep s' (L(q := e # L q))"
    and rep_erase: "rep s L \<Longrightarrow> e \<in> set (L q) \<Longrightarrow>
          \<exists>s'. erase q e s = Some s' \<and> rep s' (L(q := remove1 e (L q)))"
    and rep_front: "rep s L \<Longrightarrow> front q s = (case L q of [] \<Rightarrow> None | x # _ \<Rightarrow> Some x)"
    and rep_pop_front: "rep s L \<Longrightarrow> pop_front q s =
          (case front q s of None \<Rightarrow> Some (None, s) | Some x \<Rightarrow> map_option (Pair (Some x)) (erase q x s))"
begin

lemma pop_front_rep:
  assumes "rep s L"
  shows "\<exists>s'. pop_front q s = Some (case L q of [] \<Rightarrow> None | x # _ \<Rightarrow> Some x, s')
    \<and> rep s' (L(q := tl (L q)))"
proof (cases "L q")
  case Nil
  with assms show ?thesis by (auto simp: rep_pop_front rep_front fun_upd_idem)
next
  case (Cons x xs)
  with rep_erase [OF assms, of x q] assms show ?thesis by (auto simp: rep_pop_front rep_front)
qed

lemma exec_refines:
  assumes "rep s L" "aexec x L = Some (r, L')"
  shows "\<exists>s'. dexec push_back push_front erase pop_front x s = Some (r, s') \<and> rep s' L'"
proof (cases x)
  case (PushBack q e)
  then show ?thesis using assms rep_push_back [OF assms(1), of e q] by (auto split: if_splits)
next
  case (PushFront q e)
  then show ?thesis using assms rep_push_front [OF assms(1), of e q] by (auto split: if_splits)
next
  case (Erase q e)
  then show ?thesis using assms rep_erase [OF assms(1), of e q] by (auto split: if_splits)
next
  case (PopFront q)
  then show ?thesis using assms pop_front_rep [OF assms(1), of q]
    by (auto simp: fun_upd_idem split: list.splits)
qed

lemma seq_refines:
  assumes "rep s L" "seq_exec aexec ops L = Some (outs, L')"
  shows "\<exists>s'. seq_exec (dexec push_back push_front erase pop_front) ops s = Some (outs, s') \<and> rep s' L'"
  by (rule seq_exec_sim [where R = rep and f = aexec, OF _ assms]) (rule exec_refines)

lemma drain_rep:
  assumes "rep s L"
  shows "\<exists>s'. drain (front q) (erase q) s = Some s' \<and> rep s' (L(q := []))"
  using assms
proof (induction "L q" arbitrary: s L)
  case Nil
  then show ?case by (auto simp: rep_front fun_upd_idem split: list.splits)
next
  case (Cons x xs)
  from rep_erase [OF Cons.prems, of x q] Cons.hyps(2)
  obtain s1 where 1: "erase q x s = Some s1" "rep s1 (L(q := xs))" by (metis list.set_intros(1) remove1.simps(2))
  moreover have "front q s = Some x" using rep_front [OF Cons.prems, of q] Cons.hyps(2) by (metis list.simps(5))
  ultimately show ?case using Cons.hyps(1) [of "L(q := xs)" s1] by simp
qed

lemma requeue_rep:
  assumes "rep s L" "e \<in> set (L q)"
  shows "\<exists>s' s''. erase q e s = Some s' \<and> push_back q' e s' = Some s''
     \<and> rep s'' ((L(q := remove1 e (L q)))(q' := (L(q := remove1 e (L q))) q' @ [e]))"
proof -
  obtain s1 where 1: "erase q e s = Some s1" "rep s1 (L(q := remove1 e (L q)))"
    using rep_erase [OF assms] by blast
  have "\<forall>p. e \<notin> set ((L(q := remove1 e (L q))) p)"
    using rep_disjoint [OF assms] rep_distinct [OF assms(1), of q] by auto
  from rep_push_back [OF 1(2) this, of q'] 1 show ?thesis by blast
qed

end

end
