(* ===== verification/SchedQueue.thy ===== *)
theory SchedQueue
  imports Links
begin

text \<open>
  The task queues of the scheduler, \<open>kernel/generic/sched/sched_queue.cc\<close>: a doubly linked list
  whose pointers are in the task descriptors. The store has the link fields of every task and
  the two ends of every queue; a null pointer is \<open>None\<close>, and \<open>None\<close> as the result of an operation
  is a failed assertion. The queue lock is held by the caller of every operation but
  \<open>atomic_erase\<close>, which takes it.
\<close>

section \<open>Definitions\<close>

record task_links =
  queue_prev :: "nat option"
  queue_next :: "nat option"
  parent_queue :: "nat option"

record sched_queue =
  q_first :: "nat option"
  q_last :: "nat option"

record qstore =
  tasks :: "nat \<Rightarrow> task_links"
  queues :: "nat \<Rightarrow> sched_queue"

definition upd_task :: "nat \<Rightarrow> (task_links \<Rightarrow> task_links) \<Rightarrow> qstore \<Rightarrow> qstore" where
  "upd_task t f s = s\<lparr>tasks := (tasks s)(t := f (tasks s t))\<rparr>"

definition upd_queue :: "nat \<Rightarrow> (sched_queue \<Rightarrow> sched_queue) \<Rightarrow> qstore \<Rightarrow> qstore" where
  "upd_queue q f s = s\<lparr>queues := (queues s)(q := f (queues s q))\<rparr>"

definition sq_front :: "nat \<Rightarrow> qstore \<Rightarrow> nat option" where
  "sq_front this s = q_first (queues s this)"

definition sq_push_back :: "nat \<Rightarrow> nat \<Rightarrow> qstore \<Rightarrow> qstore option" where
  "sq_push_back this desc s =
     do { s1 \<leftarrow> (case q_first (queues s this) of
             None \<Rightarrow>
               Some (upd_task desc (\<lambda>t. t\<lparr>queue_prev := None\<rparr>)
                      (upd_queue this (\<lambda>q. q\<lparr>q_first := Some desc, q_last := Some desc\<rparr>) s))
           | Some _ \<Rightarrow>
               (case q_last (queues s this) of
                  None \<Rightarrow> None
                | Some l \<Rightarrow>
                    Some (upd_queue this (\<lambda>q. q\<lparr>q_last := Some desc\<rparr>)
                      (upd_task desc (\<lambda>t. t\<lparr>queue_prev := Some l\<rparr>)
                        (upd_task l (\<lambda>t. t\<lparr>queue_next := Some desc\<rparr>) s)))));
          Some (upd_task desc (\<lambda>t. t\<lparr>queue_next := None, parent_queue := Some this\<rparr>) s1) }"

definition sq_push_front :: "nat \<Rightarrow> nat \<Rightarrow> qstore \<Rightarrow> qstore option" where
  "sq_push_front this desc s =
     (let s1 = (case q_first (queues s this) of
             None \<Rightarrow>
               upd_task desc (\<lambda>t. t\<lparr>queue_next := None\<rparr>)
                (upd_queue this (\<lambda>q. q\<lparr>q_first := Some desc, q_last := Some desc\<rparr>) s)
           | Some f \<Rightarrow>
               upd_queue this (\<lambda>q. q\<lparr>q_first := Some desc\<rparr>)
                (upd_task f (\<lambda>t. t\<lparr>queue_prev := Some desc\<rparr>)
                  (upd_task desc (\<lambda>t. t\<lparr>queue_next := Some f\<rparr>) s))) in
      Some (upd_task desc (\<lambda>t. t\<lparr>queue_prev := None, parent_queue := Some this\<rparr>) s1))"

text \<open>The unlinking that \<open>erase\<close> and \<open>atomic_erase\<close> share: neighbours first, then the links.\<close>

definition sq_unlink :: "nat \<Rightarrow> nat \<Rightarrow> qstore \<Rightarrow> qstore" where
  "sq_unlink this desc s =
     (let s1 = (case queue_prev (tasks s desc) of
             Some p \<Rightarrow> upd_task p (\<lambda>t. t\<lparr>queue_next := queue_next (tasks s desc)\<rparr>) s
           | None \<Rightarrow> upd_queue this (\<lambda>q. q\<lparr>q_first := queue_next (tasks s desc)\<rparr>) s);
          s2 = (case queue_next (tasks s1 desc) of
             Some n \<Rightarrow> upd_task n (\<lambda>t. t\<lparr>queue_prev := queue_prev (tasks s1 desc)\<rparr>) s1
           | None \<Rightarrow> upd_queue this (\<lambda>q. q\<lparr>q_last := queue_prev (tasks s1 desc)\<rparr>) s1) in
      upd_task desc (\<lambda>t. t\<lparr>queue_prev := None, queue_next := None, parent_queue := None\<rparr>) s2)"

definition sq_erase :: "nat \<Rightarrow> nat \<Rightarrow> qstore \<Rightarrow> qstore option" where
  "sq_erase this desc s =
     do { kassert (parent_queue (tasks s desc) = Some this);
          kassert (queue_prev (tasks s desc) \<noteq> None \<or> queue_next (tasks s desc) \<noteq> None
                   \<or> q_first (queues s this) = Some desc \<or> q_last (queues s this) = Some desc);
          Some (sq_unlink this desc s) }"

definition sq_atomic_erase :: "nat \<Rightarrow> nat \<Rightarrow> qstore \<Rightarrow> qstore" where
  "sq_atomic_erase this desc s = sq_unlink this desc s"

definition sq_pop_front :: "nat \<Rightarrow> qstore \<Rightarrow> (nat option \<times> qstore) option" where
  "sq_pop_front this s =
     (case q_first (queues s this) of
        None \<Rightarrow> Some (None, s)
      | Some ptr \<Rightarrow> map_option (Pair (Some ptr)) (sq_erase this ptr s))"

definition sq_destroy :: "nat \<Rightarrow> qstore \<Rightarrow> qstore option" where
  "sq_destroy this s = drain (sq_front this) (sq_erase this) s"

section \<open>Representation\<close>

definition sq_nx :: "qstore \<Rightarrow> nat \<Rightarrow> nat option" where "sq_nx s t = queue_next (tasks s t)"
definition sq_pv :: "qstore \<Rightarrow> nat \<Rightarrow> nat option" where "sq_pv s t = queue_prev (tasks s t)"
definition sq_pq :: "qstore \<Rightarrow> nat \<Rightarrow> nat option" where "sq_pq s t = parent_queue (tasks s t)"

text \<open>
  The store holds the queues \<open>L\<close>: the ends and the links of every queue follow its list, and the
  tasks whose \<open>parent_queue\<close> is a queue are exactly its elements.
\<close>

definition sq_rep1 :: "qstore \<Rightarrow> nat \<Rightarrow> nat list \<Rightarrow> bool" where
  "sq_rep1 s q xs \<longleftrightarrow> distinct xs \<and> q_first (queues s q) = first_of Some xs None
     \<and> q_last (queues s q) = last_of Some xs None \<and> chain Some (sq_nx s) (sq_pv s) None xs None"

definition sq_rep :: "qstore \<Rightarrow> (nat \<Rightarrow> nat list) \<Rightarrow> bool" where
  "sq_rep s L \<longleftrightarrow> (\<forall>q. sq_rep1 s q (L q)) \<and> (\<forall>t q. sq_pq s t = Some q \<longleftrightarrow> t \<in> set (L q))"

lemma sq_sel [simp]:
  "tasks (upd_task t f s) = (tasks s)(t := f (tasks s t))" "queues (upd_task t f s) = queues s"
  "queues (upd_queue q g s) = (queues s)(q := g (queues s q))" "tasks (upd_queue q g s) = tasks s"
  by (simp_all add: upd_task_def upd_queue_def)

lemma sq_links [simp]:
  "sq_nx (upd_task t f s) = (sq_nx s)(t := queue_next (f (tasks s t)))"
  "sq_pv (upd_task t f s) = (sq_pv s)(t := queue_prev (f (tasks s t)))"
  "sq_pq (upd_task t f s) = (sq_pq s)(t := parent_queue (f (tasks s t)))"
  "sq_nx (upd_queue q g s) = sq_nx s" "sq_pv (upd_queue q g s) = sq_pv s" "sq_pq (upd_queue q g s) = sq_pq s"
  by (auto simp: sq_nx_def sq_pv_def sq_pq_def fun_eq_iff)

lemma sq_fold [simp]:
  "queue_next (tasks s t) = sq_nx s t" "queue_prev (tasks s t) = sq_pv s t"
  "parent_queue (tasks s t) = sq_pq s t"
  by (simp_all add: sq_nx_def sq_pv_def sq_pq_def)

lemma sq_repD:
  assumes "sq_rep s L"
  shows "distinct (L q)" "q_first (queues s q) = first_of Some (L q) None"
    "q_last (queues s q) = last_of Some (L q) None" "chain Some (sq_nx s) (sq_pv s) None (L q) None"
    "sq_pq s t = Some q \<longleftrightarrow> t \<in> set (L q)"
  using assms by (auto simp: sq_rep_def sq_rep1_def)

lemma sq_rep_disjoint:
  assumes "sq_rep s L" "e \<in> set (L q)" "e \<in> set (L q')"
  shows "q' = q"
  using assms sq_repD(5) [OF assms(1), of e q] sq_repD(5) [OF assms(1), of e q'] by simp

text \<open>A write to one queue, to elements of it and to one task outside all queues keeps the others.\<close>

lemma sq_rep_update:
  assumes "sq_rep s L" "sq_rep1 s' q xs"
    and "\<And>q'. q' \<noteq> q \<Longrightarrow> queues s' q' = queues s q'"
    and "\<And>t q'. t \<in> set (L q') \<Longrightarrow> q' \<noteq> q \<Longrightarrow> sq_nx s' t = sq_nx s t \<and> sq_pv s' t = sq_pv s t"
    and "\<And>t q'. sq_pq s' t = Some q' \<longleftrightarrow> t \<in> set ((L(q := xs)) q')"
  shows "sq_rep s' (L(q := xs))"
proof -
  have "sq_rep1 s' q' (L q')" if "q' \<noteq> q" for q'
    using sq_repD(1-4) [OF assms(1), of q'] assms(3) [OF that] assms(4) [OF _ that]
      chain_cong [of "L q'" "sq_nx s'" "sq_nx s" "sq_pv s'" "sq_pv s"]
    by (simp add: sq_rep1_def)
  then show ?thesis using assms(2,5) by (simp add: sq_rep_def)
qed

lemma sq_rep_front: "sq_rep s L \<Longrightarrow> sq_front q s = (case L q of [] \<Rightarrow> None | x # _ \<Rightarrow> Some x)"
  using sq_repD(2) [of s L q] by (simp add: sq_front_def first_of_def)

lemma sq_rep_push_back:
  assumes "sq_rep s L" "\<forall>q. e \<notin> set (L q)"
  shows "\<exists>s'. sq_push_back q e s = Some s' \<and> sq_rep s' (L(q := L q @ [e]))"
proof (cases "L q" rule: rev_cases)
  case Nil
  then have "q_first (queues s q) = None" using sq_repD(2) [OF assms(1)] by simp
  then show ?thesis using Nil assms(2) sq_repD(5) [OF assms(1)]
    by (auto simp: sq_push_back_def sq_rep1_def intro!: sq_rep_update [OF assms(1)] split: if_splits)
next
  case (snoc xs l)
  note r = sq_repD [OF assms(1), of q, unfolded snoc]
  obtain f where f: "q_first (queues s q) = Some f" using r(2) by (cases xs) auto
  have l: "q_last (queues s q) = Some l" using r(3) by simp
  have ne: "l \<noteq> e" "e \<notin> set xs" "l \<notin> set xs" using assms(2) snoc r(1) by (auto dest: spec [of _ q])
  let ?s' = "upd_task e (\<lambda>t. t\<lparr>queue_next := None, parent_queue := Some q\<rparr>)
    (upd_queue q (\<lambda>q. q\<lparr>q_last := Some e\<rparr>) (upd_task e (\<lambda>t. t\<lparr>queue_prev := Some l\<rparr>)
      (upd_task l (\<lambda>t. t\<lparr>queue_next := Some e\<rparr>) s)))"
  have "sq_push_back q e s = Some ?s'" by (simp add: sq_push_back_def f l)
  moreover have "sq_rep ?s' (L(q := L q @ [e]))"
  proof (rule sq_rep_update [OF assms(1)])
    show "sq_rep1 ?s' q (L q @ [e])"
      using r(1-4) ne snoc by (auto simp: sq_rep1_def chain_set_prev)
    show "queues ?s' q' = queues s q'" if "q' \<noteq> q" for q'
      using that by simp
    show "sq_nx ?s' t = sq_nx s t \<and> sq_pv ?s' t = sq_pv s t" if "t \<in> set (L q')" "q' \<noteq> q" for t q'
      using that assms(2) sq_rep_disjoint [OF assms(1), of l q q'] snoc by auto
    show "sq_pq ?s' t = Some q' \<longleftrightarrow> t \<in> set ((L(q := L q @ [e])) q')" for t q'
      using assms(2) sq_repD(5) [OF assms(1), of t q'] snoc by auto
  qed
  ultimately show ?thesis by blast
qed

lemma sq_rep_push_front:
  assumes "sq_rep s L" "\<forall>q. e \<notin> set (L q)"
  shows "\<exists>s'. sq_push_front q e s = Some s' \<and> sq_rep s' (L(q := e # L q))"
proof (cases "L q")
  case Nil
  then have "q_first (queues s q) = None" using sq_repD(2) [OF assms(1)] by simp
  then show ?thesis using Nil assms(2) sq_repD(5) [OF assms(1)]
    by (auto simp: sq_push_front_def sq_rep1_def intro!: sq_rep_update [OF assms(1)] split: if_splits)
next
  case (Cons f xs)
  note r = sq_repD [OF assms(1), of q, unfolded Cons]
  have f: "q_first (queues s q) = Some f" using r(2) by simp
  have ne: "f \<noteq> e" "e \<notin> set xs" "f \<notin> set xs" using assms(2) Cons r(1) by (auto dest: spec [of _ q])
  let ?s' = "upd_task e (\<lambda>t. t\<lparr>queue_prev := None, parent_queue := Some q\<rparr>)
    (upd_queue q (\<lambda>q. q\<lparr>q_first := Some e\<rparr>) (upd_task f (\<lambda>t. t\<lparr>queue_prev := Some e\<rparr>)
      (upd_task e (\<lambda>t. t\<lparr>queue_next := Some f\<rparr>) s)))"
  have "sq_push_front q e s = Some ?s'" by (simp add: sq_push_front_def f)
  moreover have "sq_rep ?s' (L(q := e # L q))"
  proof (rule sq_rep_update [OF assms(1)])
    show "sq_rep1 ?s' q (e # L q)"
      using r(1-4) ne Cons by (auto simp: sq_rep1_def chain_set_prev)
    show "queues ?s' q' = queues s q'" if "q' \<noteq> q" for q'
      using that by simp
    show "sq_nx ?s' t = sq_nx s t \<and> sq_pv ?s' t = sq_pv s t" if "t \<in> set (L q')" "q' \<noteq> q" for t q'
      using that assms(2) sq_rep_disjoint [OF assms(1), of f q q'] Cons by auto
    show "sq_pq ?s' t = Some q' \<longleftrightarrow> t \<in> set ((L(q := e # L q)) q')" for t q'
      using assms(2) sq_repD(5) [OF assms(1), of t q'] Cons by auto
  qed
  ultimately show ?thesis by blast
qed

lemma sq_pq_unlink: "sq_pq (sq_unlink q e s) = (sq_pq s)(e := None)"
  by (auto simp: sq_unlink_def Let_def split: option.split)

lemma sq_rep_unlink:
  assumes "sq_rep s L" "e \<in> set (L q)"
  shows "sq_rep (sq_unlink q e s) (L(q := remove1 e (L q)))"
proof -
  obtain ys zs where L: "L q = ys @ e # zs" using assms(2) by (meson split_list)
  note r = sq_repD [OF assms(1), of q, unfolded L]
  have ne: "e \<notin> set ys" "e \<notin> set zs" "set ys \<inter> set zs = {}" "distinct ys" "distinct zs" using r(1) by auto
  have rem: "remove1 e (L q) = ys @ zs" using L ne by (simp add: remove1_append)
  have ps: "sq_pv s e = last_of Some ys None" "sq_nx s e = first_of Some zs None"
    "chain Some (sq_nx s) (sq_pv s) None ys (Some e)" "chain Some (sq_nx s) (sq_pv s) (Some e) zs None" 
    using r(4) by simp_all
  let ?s' = "sq_unlink q e s"
  have "sq_rep ?s' (L(q := ys @ zs))"
  proof (rule sq_rep_update [OF assms(1)])
    show "sq_rep1 ?s' q (ys @ zs)"
      using r(2,3) ne ps
      by (cases ys rule: rev_cases; cases zs) (auto simp: sq_rep1_def sq_unlink_def Let_def chain_set_prev)
    show "queues ?s' q' = queues s q'" if "q' \<noteq> q" for q'
      using that by (simp add: sq_unlink_def Let_def split: option.split)
    show "sq_nx ?s' t = sq_nx s t \<and> sq_pv ?s' t = sq_pv s t" if "t \<in> set (L q')" "q' \<noteq> q" for t q'
    proof -
      have "t \<notin> set (L q)" using that sq_rep_disjoint [OF assms(1)] by blast
      then show ?thesis using L ps(1,2)
        by (cases ys rule: rev_cases; cases zs) (auto simp: sq_unlink_def Let_def)
    qed
    show "sq_pq ?s' t = Some q' \<longleftrightarrow> t \<in> set ((L(q := ys @ zs)) q')" for t q'
    proof (cases "t = e")
      case True
      have "e \<notin> set ((L(q := ys @ zs)) q')"
        using ne sq_rep_disjoint [OF assms, of q'] by (cases "q' = q") auto
      with True show ?thesis by (simp add: sq_pq_unlink)
    next
      case False
      with sq_repD(5) [OF assms(1), of t q'] L show ?thesis by (cases "q' = q") (simp_all add: sq_pq_unlink)
    qed
  qed
  then show ?thesis by (simp add: rem)
qed

lemma sq_rep_erase:
  assumes "sq_rep s L" "e \<in> set (L q)"
  shows "\<exists>s'. sq_erase q e s = Some s' \<and> sq_rep s' (L(q := remove1 e (L q)))"
proof -
  have "sq_pq s e = Some q" using assms sq_repD(5) by blast
  moreover have "sq_pv s e \<noteq> None \<or> sq_nx s e \<noteq> None \<or> q_first (queues s q) = Some e"
  proof -
    obtain ys zs where L: "L q = ys @ e # zs" using assms(2) by (meson split_list)
    then show ?thesis
      using sq_repD(2,4) [OF assms(1), of q] by (cases ys rule: rev_cases) auto
  qed
  ultimately have "sq_erase q e s = Some (sq_unlink q e s)" by (auto simp: sq_erase_def)
  then show ?thesis using sq_rep_unlink [OF assms] by blast
qed

interpretation sq: deque sq_rep sq_push_back sq_push_front sq_erase sq_front sq_pop_front
  by unfold_locales
    (auto simp: sq_rep_front sq_rep_push_back sq_rep_push_front sq_rep_erase sq_repD(1)
      sq_pop_front_def sq_front_def [symmetric] intro: sq_rep_disjoint)

lemma sq_erase_atomic_erase:
  assumes "sq_rep s L" "e \<in> set (L q)"
  shows "sq_erase q e s = Some (sq_atomic_erase q e s)"
proof -
  obtain s' where s': "sq_erase q e s = Some s'" using sq_rep_erase [OF assms] by blast
  then have "s' = sq_unlink q e s" unfolding sq_erase_def by (auto simp del: sq_fold split: if_splits)
  with s' show ?thesis by (simp add: sq_atomic_erase_def)
qed

section \<open>Properties\<close>

definition sq_empty :: qstore where
  "sq_empty = \<lparr>tasks = (\<lambda>_. \<lparr>queue_prev = None, queue_next = None, parent_queue = None\<rparr>),
     queues = (\<lambda>_. \<lparr>q_first = None, q_last = None\<rparr>)\<rparr>"

lemma sq_empty_rep: "sq_rep sq_empty (\<lambda>_. [])"
  by (simp add: sq_rep_def sq_rep1_def sq_empty_def sq_pq_def)

text \<open>
  C6. The pointer-linked task queues behave as lists. Whatever sequence of \<open>push_back\<close>,
  \<open>push_front\<close>, \<open>erase\<close> and \<open>pop_front\<close> runs on the queues of a store, on tasks that are in no
  queue when pushed and in the queue they are erased from, no assertion fails, every
  \<open>pop_front\<close> returns the task the list specification gives, and at the end the links, the ends
  and the \<open>parent_queue\<close> of every task spell out exactly the lists of the specification.
\<close>

theorem sched_queue_refines_lists:
  assumes "sq_rep s L" "seq_exec aexec ops L = Some (outs, L')"
  shows "\<exists>s'. seq_exec (dexec sq_push_back sq_push_front sq_erase sq_pop_front) ops s = Some (outs, s')
     \<and> sq_rep s' L'"
  by (rule sq.seq_refines [OF assms])

theorem sched_queue_refines_lists_witness:
  "\<exists>s'. seq_exec (dexec sq_push_back sq_push_front sq_erase sq_pop_front)
     [PushBack 0 5, PushBack 0 6, PushBack 0 7, PushFront 0 8, Erase 0 6, PushFront 1 6,
      PopFront 0, PopFront 0] sq_empty
     = Some ([None, None, None, None, None, None, Some 8, Some 5], s')
     \<and> sq_rep s' ((\<lambda>_. [])(0 := [7], 1 := [6]))"
  using sched_queue_refines_lists [OF sq_empty_rep, of
    "[PushBack 0 5, PushBack 0 6, PushBack 0 7, PushFront 0 8, Erase 0 6, PushFront 1 6,
      PopFront 0, PopFront 0]"] by (simp add: fun_upd_twist)

text \<open>
  C7. Destroying a task queue ends, whatever it holds: every task of the queue is taken out and
  unlinked, and every other queue is as it was.
\<close>

theorem sched_queue_destroy:
  assumes "sq_rep s L"
  shows "\<exists>s'. sq_destroy q s = Some s' \<and> sq_rep s' (L(q := []))"
  unfolding sq_destroy_def by (rule sq.drain_rep [OF assms])

lemma sq_two:
  "\<exists>s. seq_exec (dexec sq_push_back sq_push_front sq_erase sq_pop_front) [PushBack 0 5, PushBack 0 6] sq_empty
     = Some ([None, None], s) \<and> sq_rep s ((\<lambda>_. [])(0 := [5, 6]))"
  using sq.seq_refines [OF sq_empty_rep, of "[PushBack 0 5, PushBack 0 6]"] by simp

theorem sched_queue_destroy_witness:
  "\<exists>s s'. sq_rep s ((\<lambda>_. [])(0 := [5, 6])) \<and> sq_destroy 0 s = Some s' \<and> sq_rep s' (\<lambda>_. [])"
proof -
  obtain s where s: "sq_rep s ((\<lambda>_. [])(0 := [5, 6]))" using sq_two by blast
  from sched_queue_destroy [OF this, of 0] have "\<exists>s'. sq_destroy 0 s = Some s' \<and> sq_rep s' (\<lambda>_. [])"
    by (simp add: fun_upd_idem)
  with s show ?thesis by blast
qed

end
