(* ===== verification/IntrusiveList.thy ===== *)
theory IntrusiveList
  imports Links
begin

text \<open>
  The circular lists \<open>CircularDoubleList\<close> of \<open>libs/sysroot/include/pmos/containers/intrusive_list.hh\<close>,
  which hold the messages of a port, the attention requests of a CPU, the copies of a right and
  the free pages. A list is a header cell linked in a ring with the cells embedded in its
  elements. \<open>Hd q\<close> is the address of the header of list \<open>q\<close> and \<open>El e\<close> of the cell in element \<open>e\<close>.
\<close>

section \<open>Definitions\<close>

datatype lptr = Hd nat | El nat

record DoubleListHead =
  nxt :: lptr
  prv :: lptr

type_synonym lstore = "lptr \<Rightarrow> DoubleListHead"

definition set_nxt :: "lptr \<Rightarrow> lptr \<Rightarrow> lstore \<Rightarrow> lstore" where
  "set_nxt p v h = h(p := (h p)\<lparr>nxt := v\<rparr>)"

definition set_prv :: "lptr \<Rightarrow> lptr \<Rightarrow> lstore \<Rightarrow> lstore" where
  "set_prv p v h = h(p := (h p)\<lparr>prv := v\<rparr>)"

definition cl_init :: "nat \<Rightarrow> lstore \<Rightarrow> lstore" where
  "cl_init q h = h(Hd q := \<lparr>nxt = Hd q, prv = Hd q\<rparr>)"

definition cl_push_front :: "nat \<Rightarrow> nat \<Rightarrow> lstore \<Rightarrow> lstore" where
  "cl_push_front q p h =
     (let h1 = set_nxt (El p) (nxt (h (Hd q))) h;
          h2 = set_prv (El p) (Hd q) h1;
          h3 = set_prv (nxt (h2 (Hd q))) (El p) h2 in
      set_nxt (Hd q) (El p) h3)"

definition cl_push_back :: "nat \<Rightarrow> nat \<Rightarrow> lstore \<Rightarrow> lstore" where
  "cl_push_back q p h =
     (let h1 = set_prv (El p) (prv (h (Hd q))) h;
          h2 = set_nxt (El p) (Hd q) h1;
          h3 = set_nxt (prv (h2 (Hd q))) (El p) h2 in
      set_prv (Hd q) (El p) h3)"

definition cl_remove :: "nat \<Rightarrow> lstore \<Rightarrow> lstore" where
  "cl_remove p h =
     (let h1 = set_nxt (prv (h (El p))) (nxt (h (El p))) h in
      set_prv (nxt (h1 (El p))) (prv (h1 (El p))) h1)"

definition cl_erase :: "nat \<Rightarrow> lstore \<Rightarrow> lptr \<times> lstore" where
  "cl_erase p h = (nxt (h (El p)), cl_remove p h)"

definition cl_empty :: "nat \<Rightarrow> lstore \<Rightarrow> bool" where
  "cl_empty q h \<longleftrightarrow> nxt (h (Hd q)) = Hd q"

text \<open>Iterators are cell addresses; \<open>operator*\<close> of the end iterator is not an element.\<close>

definition cl_begin :: "nat \<Rightarrow> lstore \<Rightarrow> lptr" where "cl_begin q h = nxt (h (Hd q))"
definition cl_end :: "nat \<Rightarrow> lptr" where "cl_end q = Hd q"
definition it_inc :: "lstore \<Rightarrow> lptr \<Rightarrow> lptr" where "it_inc h it = nxt (h it)"
definition it_dec :: "lstore \<Rightarrow> lptr \<Rightarrow> lptr" where "it_dec h it = prv (h it)"

fun it_deref :: "lptr \<Rightarrow> nat option" where
  "it_deref (El e) = Some e"
| "it_deref (Hd q) = None"

definition cl_front :: "nat \<Rightarrow> lstore \<Rightarrow> nat option" where
  "cl_front q h = it_deref (cl_begin q h)"

text \<open>\<open>for (auto it = begin(); it != end(); ++it)\<close>, with the elements it visits.\<close>

partial_function (option) cl_walk :: "nat \<Rightarrow> lstore \<Rightarrow> lptr \<Rightarrow> nat list option" where
  "cl_walk q h it =
     (if it = cl_end q then Some []
      else case it_deref it of None \<Rightarrow> None
           | Some e \<Rightarrow> Option.bind (cl_walk q h (it_inc h it)) (\<lambda>es. Some (e # es)))"

text \<open>
  \<open>swap\<close> exchanges the headers and then points the ends of each ring to its new header; the second
  part is written out once per list in the code.
\<close>

definition cl_fix_head :: "nat \<Rightarrow> nat \<Rightarrow> lstore \<Rightarrow> lstore" where
  "cl_fix_head this other h =
     (if nxt (h (Hd this)) = Hd other
      then set_prv (Hd this) (Hd this) (set_nxt (Hd this) (Hd this) h)
      else let h1 = set_prv (nxt (h (Hd this))) (Hd this) h in
           set_nxt (prv (h1 (Hd this))) (Hd this) h1)"

definition cl_swap :: "nat \<Rightarrow> nat \<Rightarrow> lstore \<Rightarrow> lstore" where
  "cl_swap this other h =
     (if this = other then h
      else
        let tmp = h (Hd this);
            h1 = h(Hd this := h (Hd other));
            h2 = h1(Hd other := tmp) in
        cl_fix_head other this (cl_fix_head this other h2))"

text \<open>What the callers do to take the first element: \<open>empty\<close>, \<open>front\<close> and \<open>erase\<close>.\<close>

definition cl_pop_front :: "nat \<Rightarrow> lstore \<Rightarrow> (nat option \<times> lstore) option" where
  "cl_pop_front q h =
     (if cl_empty q h then Some (None, h)
      else case cl_front q h of None \<Rightarrow> None | Some e \<Rightarrow> Some (Some e, snd (cl_erase e h)))"

section \<open>Representation\<close>

definition enx :: "lstore \<Rightarrow> nat \<Rightarrow> lptr" where "enx h e = nxt (h (El e))"
definition epv :: "lstore \<Rightarrow> nat \<Rightarrow> lptr" where "epv h e = prv (h (El e))"

definition cl_rep1 :: "lstore \<Rightarrow> nat \<Rightarrow> nat list \<Rightarrow> bool" where
  "cl_rep1 h q xs \<longleftrightarrow> distinct xs \<and> nxt (h (Hd q)) = first_of El xs (Hd q)
     \<and> prv (h (Hd q)) = last_of El xs (Hd q) \<and> chain El (enx h) (epv h) (Hd q) xs (Hd q)"

definition cl_rep :: "lstore \<Rightarrow> (nat \<Rightarrow> nat list) \<Rightarrow> bool" where
  "cl_rep h L \<longleftrightarrow> (\<forall>q. cl_rep1 h q (L q)) \<and> (\<forall>q q' e. e \<in> set (L q) \<longrightarrow> e \<in> set (L q') \<longrightarrow> q = q')"

lemma set_links [simp]:
  "nxt (set_nxt p v h p') = (if p' = p then v else nxt (h p'))"
  "prv (set_nxt p v h p') = prv (h p')"
  "prv (set_prv p v h p') = (if p' = p then v else prv (h p'))"
  "nxt (set_prv p v h p') = nxt (h p')"
  "nxt ((h(p := c)) p') = (if p' = p then nxt c else nxt (h p'))"
  "prv ((h(p := c)) p') = (if p' = p then prv c else prv (h p'))"
  by (simp_all add: set_nxt_def set_prv_def)

lemma elem_links [simp]:
  "enx (set_nxt (El e) v h) = (enx h)(e := v)" "epv (set_prv (El e) v h) = (epv h)(e := v)"
  "enx (set_nxt (Hd q) v h) = enx h" "epv (set_prv (Hd q) v h) = epv h"
  "epv (set_nxt p v h) = epv h" "enx (set_prv p v h) = enx h"
  "enx (h(Hd q := c)) = enx h" "epv (h(Hd q := c)) = epv h"
  "nxt (h (El e)) = enx h e" "prv (h (El e)) = epv h e"
  by (auto simp: enx_def epv_def fun_eq_iff)

lemma set_frame [simp]:
  "p' \<noteq> p \<Longrightarrow> set_nxt p v h p' = h p'" "p' \<noteq> p \<Longrightarrow> set_prv p v h p' = h p'"
  by (simp_all add: set_nxt_def set_prv_def)

lemma cl_repD:
  assumes "cl_rep h L"
  shows "distinct (L q)" "nxt (h (Hd q)) = first_of El (L q) (Hd q)"
    "prv (h (Hd q)) = last_of El (L q) (Hd q)" "chain El (enx h) (epv h) (Hd q) (L q) (Hd q)"
    "e \<in> set (L q) \<Longrightarrow> e \<in> set (L q') \<Longrightarrow> q' = q"
  using assms by (auto simp: cl_rep_def cl_rep1_def)

lemma cl_rep_update:
  assumes "cl_rep h L" "cl_rep1 h' q xs"
    and "\<And>q'. q' \<noteq> q \<Longrightarrow> h' (Hd q') = h (Hd q')"
    and "\<And>e q'. e \<in> set (L q') \<Longrightarrow> q' \<noteq> q \<Longrightarrow> enx h' e = enx h e \<and> epv h' e = epv h e"
    and "\<And>e q'. e \<in> set (L q') \<Longrightarrow> q' \<noteq> q \<Longrightarrow> e \<notin> set xs"
  shows "cl_rep h' (L(q := xs))"
proof -
  have "cl_rep1 h' q' (L q')" if "q' \<noteq> q" for q'
    using cl_repD(1-4) [OF assms(1), of q'] assms(3) [OF that] assms(4) [OF _ that]
      chain_cong [of "L q'" "enx h'" "enx h" "epv h'" "epv h"]
    by (simp add: cl_rep1_def)
  then show ?thesis using assms(2,5) cl_repD(5) [OF assms(1)] by (fastforce simp: cl_rep_def)
qed

lemma cl_rep_push_back:
  assumes "cl_rep h L" "\<forall>q. e \<notin> set (L q)"
  shows "cl_rep (cl_push_back q e h) (L(q := L q @ [e]))"
proof (rule cl_rep_update [OF assms(1)])
  note r = cl_repD(1-4) [OF assms(1), of q]
  show "cl_rep1 (cl_push_back q e h) q (L q @ [e])"
    using r assms(2) 
    by (cases "L q" rule: rev_cases) (auto simp: cl_rep1_def cl_push_back_def Let_def chain_set_prev dest: spec [of _ q])
  show "cl_push_back q e h (Hd q') = h (Hd q')" if "q' \<noteq> q" for q'
    using r that
    by (cases "L q" rule: rev_cases) (auto simp: cl_push_back_def Let_def)
  show "enx (cl_push_back q e h) e' = enx h e' \<and> epv (cl_push_back q e h) e' = epv h e'"
    if "e' \<in> set (L q')" "q' \<noteq> q" for e' q'
  proof -
    have "e' \<notin> set (L q)" "e' \<noteq> e" using that cl_repD(5) [OF assms(1)] assms(2) by blast+
    then show ?thesis using r 
      by (cases "L q" rule: rev_cases) (auto simp: cl_push_back_def Let_def)
  qed
  show "e' \<notin> set (L q @ [e])" if "e' \<in> set (L q')" "q' \<noteq> q" for e' q'
    using that cl_repD(5) [OF assms(1)] assms(2) by auto
qed

lemma cl_rep_push_front:
  assumes "cl_rep h L" "\<forall>q. e \<notin> set (L q)"
  shows "cl_rep (cl_push_front q e h) (L(q := e # L q))"
proof (rule cl_rep_update [OF assms(1)])
  note r = cl_repD(1-4) [OF assms(1), of q]
  show "cl_rep1 (cl_push_front q e h) q (e # L q)"
    using r assms(2)
    by (cases "L q") (auto simp: cl_rep1_def cl_push_front_def Let_def chain_set_prev dest: spec [of _ q])
  show "cl_push_front q e h (Hd q') = h (Hd q')" if "q' \<noteq> q" for q'
    using r that by (cases "L q") (auto simp: cl_push_front_def Let_def)
  show "enx (cl_push_front q e h) e' = enx h e' \<and> epv (cl_push_front q e h) e' = epv h e'"
    if "e' \<in> set (L q')" "q' \<noteq> q" for e' q'
  proof -
    have "e' \<notin> set (L q)" "e' \<noteq> e" using that cl_repD(5) [OF assms(1)] assms(2) by blast+
    then show ?thesis using r by (cases "L q") (auto simp: cl_push_front_def Let_def)
  qed
  show "e' \<notin> set (e # L q)" if "e' \<in> set (L q')" "q' \<noteq> q" for e' q'
    using that cl_repD(5) [OF assms(1)] assms(2) by auto
qed

lemma cl_rep_remove:
  assumes "cl_rep h L" "e \<in> set (L q)"
  shows "cl_rep (cl_remove e h) (L(q := remove1 e (L q)))"
proof -
  obtain ys zs where L: "L q = ys @ e # zs" using assms(2) by (meson split_list)
  note r = cl_repD(1-4) [OF assms(1), of q, unfolded L]
  have ne: "e \<notin> set ys" "e \<notin> set zs" "set ys \<inter> set zs = {}" "distinct ys" "distinct zs" using r(1) by auto
  have ps: "epv h e = last_of El ys (Hd q)" "enx h e = first_of El zs (Hd q)"
    "chain El (enx h) (epv h) (Hd q) ys (El e)" "chain El (enx h) (epv h) (El e) zs (Hd q)"
    using r(4) by simp_all
  have rem: "remove1 e (L q) = ys @ zs" using L ne by (simp add: remove1_append)
  have "cl_rep (cl_remove e h) (L(q := ys @ zs))"
  proof (rule cl_rep_update [OF assms(1)])
    show "cl_rep1 (cl_remove e h) q (ys @ zs)"
      using r(2,3) ne ps
      by (cases ys rule: rev_cases; cases zs) (auto simp: cl_rep1_def cl_remove_def Let_def chain_set_prev)
    show "cl_remove e h (Hd q') = h (Hd q')" if "q' \<noteq> q" for q'
      using that ps(1,2) ne
      by (cases ys rule: rev_cases; cases zs) (auto simp: cl_remove_def Let_def)
    show "enx (cl_remove e h) e' = enx h e' \<and> epv (cl_remove e h) e' = epv h e'"
      if "e' \<in> set (L q')" "q' \<noteq> q" for e' q'
    proof -
      have "e' \<notin> set (L q)" using that cl_repD(5) [OF assms(1)] by blast
      then show ?thesis using L ps(1,2)
        by (cases ys rule: rev_cases; cases zs) (auto simp: cl_remove_def Let_def)
    qed
    show "e' \<notin> set (ys @ zs)" if "e' \<in> set (L q')" "q' \<noteq> q" for e' q'
      using that cl_repD(5) [OF assms(1), of e' q' q] L by auto
  qed
  then show ?thesis by (simp add: rem)
qed

lemma cl_rep_front: "cl_rep h L \<Longrightarrow> cl_front q h = (case L q of [] \<Rightarrow> None | x # _ \<Rightarrow> Some x)"
  using cl_repD(2) [of h L q] by (simp add: cl_front_def cl_begin_def first_of_def split: list.splits)

lemma cl_rep_empty: "cl_rep h L \<Longrightarrow> cl_empty q h \<longleftrightarrow> L q = []"
  using cl_repD(2) [of h L q] by (simp add: cl_empty_def first_of_def split: list.splits)

text \<open>The iterator \<open>erase\<close> returns is the place of the element after the erased one.\<close>

lemma cl_erase_next:
  assumes "cl_rep h L" "L q = ys @ e # zs"
  shows "fst (cl_erase e h) = first_of El zs (Hd q)"
  using cl_repD(4) [OF assms(1), of q] assms(2) by (simp add: cl_erase_def)

lemma cl_walk_chain:
  "chain El (enx h) (epv h) p xs (Hd q) \<Longrightarrow> cl_walk q h (first_of El xs (Hd q)) = Some xs"
proof (induction xs arbitrary: p)
  case Nil
  show ?case by (subst cl_walk.simps) (simp add: cl_end_def)
next
  case (Cons x xs)
  then have "cl_walk q h (first_of El xs (Hd q)) = Some xs" by auto
  then show ?case using Cons.prems by (subst cl_walk.simps) (simp add: cl_end_def it_inc_def)
qed

lemma cl_fix_head_rep:
  assumes "distinct ys" "nxt (h (Hd a)) = first_of El ys (Hd b)" "prv (h (Hd a)) = last_of El ys (Hd b)"
    "chain El (enx h) (epv h) (Hd b) ys (Hd b)"
  shows "cl_rep1 (cl_fix_head a b h) a ys"
    and "q \<noteq> a \<Longrightarrow> cl_fix_head a b h (Hd q) = h (Hd q)"
    and "e \<notin> set ys \<Longrightarrow> enx (cl_fix_head a b h) e = enx h e \<and> epv (cl_fix_head a b h) e = epv h e"
proof -
  consider "ys = []" | y where "ys = [y]" | y zs z where "ys = y # zs @ [z]"
    by (metis append_butlast_last_id list.exhaust)
  note * = this
  show "cl_rep1 (cl_fix_head a b h) a ys"
    by (rule *) (use assms in \<open>auto simp: cl_fix_head_def cl_rep1_def Let_def chain_set_prev\<close>)
  show "cl_fix_head a b h (Hd q) = h (Hd q)" if "q \<noteq> a"
    by (rule *) (use assms that in \<open>auto simp: cl_fix_head_def Let_def\<close>)
  show "enx (cl_fix_head a b h) e = enx h e \<and> epv (cl_fix_head a b h) e = epv h e" if "e \<notin> set ys"
    by (rule *) (use assms that in \<open>auto simp: cl_fix_head_def Let_def\<close>)
qed

lemma cl_rep1_frame:
  assumes "cl_rep1 h q xs" "h' (Hd q) = h (Hd q)"
    and "\<And>e. e \<in> set xs \<Longrightarrow> enx h' e = enx h e \<and> epv h' e = epv h e"
  shows "cl_rep1 h' q xs"
  using assms chain_cong [of xs "enx h'" "enx h" "epv h'" "epv h"] by (simp add: cl_rep1_def)

lemma cl_rep_swap:
  assumes "cl_rep h L"
  shows "cl_rep (cl_swap a b h) (L(a := L b, b := L a))"
proof (cases "a = b")
  case True
  then show ?thesis using assms by (simp add: cl_swap_def)
next
  case False
  let ?h2 = "h(Hd a := h (Hd b), Hd b := h (Hd a))"
  let ?h3 = "cl_fix_head a b ?h2" and ?h4 = "cl_fix_head b a (cl_fix_head a b ?h2)"
  note ra = cl_repD(1-4) [OF assms, of a] and rb = cl_repD(1-4) [OF assms, of b]
  have dj: "set (L a) \<inter> set (L b) = {}" using False cl_repD(5) [OF assms] by blast
  note f3 = cl_fix_head_rep [of "L b" ?h2 a b]
  have h3: "cl_rep1 ?h3 a (L b)" and h3o: "\<And>q. q \<noteq> a \<Longrightarrow> ?h3 (Hd q) = ?h2 (Hd q)"
    and h3e: "\<And>e. e \<notin> set (L b) \<Longrightarrow> enx ?h3 e = enx h e \<and> epv ?h3 e = epv h e"
    using rb False f3 by simp_all
  have c: "chain El (enx ?h3) (epv ?h3) (Hd a) (L a) (Hd a)"
    by (rule chain_cong [THEN iffD2, OF _ ra(4)]) (use dj h3e in blast)
  note f4 = cl_fix_head_rep [of "L a" ?h3 b a]
  have h4: "cl_rep1 ?h4 b (L a)" and h4o: "\<And>q. q \<noteq> b \<Longrightarrow> ?h4 (Hd q) = ?h3 (Hd q)"
    and h4e: "\<And>e. e \<notin> set (L a) \<Longrightarrow> enx ?h4 e = enx ?h3 e \<and> epv ?h4 e = epv ?h3 e"
    using ra False c h3o [of b] f4 by simp_all
  have a4: "cl_rep1 ?h4 a (L b)"
    by (rule cl_rep1_frame [OF h3]) (use False h4o h4e dj in auto)
  have o4: "cl_rep1 ?h4 q (L q)" if "q \<noteq> a" "q \<noteq> b" for q
  proof (rule cl_rep1_frame [of h])
    show "cl_rep1 h q (L q)" using assms by (simp add: cl_rep_def)
    show "?h4 (Hd q) = h (Hd q)" using that h4o h3o by simp
    fix e assume "e \<in> set (L q)"
    then have "e \<notin> set (L a)" "e \<notin> set (L b)" using that cl_repD(5) [OF assms] by blast+
    then show "enx ?h4 e = enx h e \<and> epv ?h4 e = epv h e" using h3e h4e by simp
  qed
  have dj4: "q = q'" if "e \<in> set ((L(a := L b, b := L a)) q)" "e \<in> set ((L(a := L b, b := L a)) q')" for q q' e
  proof -
    define \<pi> where "\<pi> = (\<lambda>q. if q = b then a else if q = a then b else q)"
    have e: "L(a := L b, b := L a) = (\<lambda>q. L (\<pi> q))" by (auto simp: \<pi>_def)
    have "\<pi> q' = \<pi> q" using that cl_repD(5) [OF assms, of e "\<pi> q" "\<pi> q'"] unfolding e by simp
    then show ?thesis using False by (auto simp: \<pi>_def split: if_splits)
  qed
  have "cl_rep1 ?h4 q ((L(a := L b, b := L a)) q)" for q using a4 h4 o4 [of q] False by simp
  moreover have "cl_swap a b h = ?h4" using False by (simp add: cl_swap_def Let_def)
  ultimately show ?thesis unfolding cl_rep_def using dj4 by presburger
qed

interpretation cl: deque cl_rep "\<lambda>q e h. Some (cl_push_back q e h)" "\<lambda>q e h. Some (cl_push_front q e h)"
    "\<lambda>q e h. Some (snd (cl_erase e h))" cl_front cl_pop_front
  by unfold_locales
    (auto simp: cl_rep_push_back cl_rep_push_front cl_rep_remove cl_rep_front cl_repD(1) cl_erase_def
      cl_pop_front_def cl_rep_empty split: list.split intro: cl_repD(5))

section \<open>Properties\<close>

definition cl_none :: lstore where "cl_none p = \<lparr>nxt = p, prv = p\<rparr>"

lemma cl_none_rep: "cl_rep cl_none (\<lambda>_. [])"
  by (simp add: cl_rep_def cl_rep1_def cl_none_def)

text \<open>
  C8. The circular lists behave as lists: any sequence of \<open>push_back\<close>, \<open>push_front\<close>, \<open>erase\<close> and
  taking the first element, on elements that are in no list when pushed and in the list they are
  erased from, gives the elements the list specification gives, in that order, and leaves
  every ring linked, in both directions, through exactly the elements of its list.
\<close>

theorem circular_list_refines_lists:
  assumes "cl_rep h L" "seq_exec aexec ops L = Some (outs, L')"
  shows "\<exists>h'. seq_exec (dexec (\<lambda>q e h. Some (cl_push_back q e h)) (\<lambda>q e h. Some (cl_push_front q e h))
       (\<lambda>q e h. Some (snd (cl_erase e h))) cl_pop_front) ops h = Some (outs, h') \<and> cl_rep h' L'"
  by (rule cl.seq_refines [OF assms])

theorem circular_list_refines_lists_witness:
  "\<exists>h'. seq_exec (dexec (\<lambda>q e h. Some (cl_push_back q e h)) (\<lambda>q e h. Some (cl_push_front q e h))
       (\<lambda>q e h. Some (snd (cl_erase e h))) cl_pop_front)
     [PushFront 3 1, PushBack 3 2, PushFront 3 4, Erase 3 1, PopFront 3] cl_none
     = Some ([None, None, None, None, Some 4], h') \<and> cl_rep h' ((\<lambda>_. [])(3 := [2]))"
  using circular_list_refines_lists [OF cl_none_rep, of
    "[PushFront 3 1, PushBack 3 2, PushFront 3 4, Erase 3 1, PopFront 3]"] by simp

text \<open>
  C9. \<open>swap\<close> exchanges two lists, and iterating from \<open>begin()\<close> to \<open>end()\<close> ends after visiting
  exactly the elements in order: after \<open>swap\<close> both hold for the two lists, the empty ones and
  a list swapped with itself included, and all other lists are as before.
\<close>

theorem circular_list_swap_walk:
  assumes "cl_rep h L"
  shows "cl_rep (cl_swap a b h) (L(a := L b, b := L a))
    \<and> cl_walk a (cl_swap a b h) (cl_begin a (cl_swap a b h)) = Some (L b)
    \<and> cl_walk b (cl_swap a b h) (cl_begin b (cl_swap a b h)) = Some (L a)"
proof -
  have r: "cl_rep (cl_swap a b h) (L(a := L b, b := L a))" by (rule cl_rep_swap [OF assms])
  have "cl_walk q (cl_swap a b h) (cl_begin q (cl_swap a b h)) = Some ((L(a := L b, b := L a)) q)" for q
    using cl_walk_chain [OF cl_repD(4) [OF r, of q]] cl_repD(2) [OF r, of q] by (simp add: cl_begin_def)
  from this [of a] this [of b] r show ?thesis by (cases "a = b") simp_all
qed

theorem circular_list_swap_walk_witness:
  "cl_walk 1 (cl_swap 0 1 (cl_push_back 0 5 (cl_push_back 0 4 cl_none)))
      (cl_begin 1 (cl_swap 0 1 (cl_push_back 0 5 (cl_push_back 0 4 cl_none)))) = Some [4, 5]"
proof -
  have "cl_rep (cl_push_back 0 5 (cl_push_back 0 4 cl_none)) ((\<lambda>_. [])(0 := [4, 5]))"
    using cl_rep_push_back [OF cl_rep_push_back [OF cl_none_rep, of 4 0], of 5 0] by simp
  from circular_list_swap_walk [OF this, of 0 1] show ?thesis by simp
qed

end
