(* ===== verification/Rcu.thy ===== *)
theory Rcu
  imports Prelude
begin

text \<open>
  Read-copy-update, \<open>kernel/generic/memory/rcu.hh\<close> and \<open>rcu.cc\<close>: every object of the kernel that
  other CPUs may still be reading is handed to \<open>RCU_CPU::push\<close>, and its callback, which frees
  it, runs from \<open>RCU_CPU::quiet\<close> once the generation counter has moved on.

  \<open>quiet\<close> takes the lock of the shared state twice and reads the generation between the two, so
  it is three steps here, between which other CPUs run; \<open>quiet\<close> itself is their composition.
\<close>

unbundle bit_operations_syntax

section \<open>State\<close>

record rcu =
  bitmask :: "u64 list"
  generation :: u64
  highest_generation :: u64

type_synonym rcu_head = "nat \<times> nat"
  \<comment> \<open>the address of the head and its \<open>rcu_func\<close>\<close>

record rcu_cpu =
  current_callbacks :: "rcu_head list"
  next_callbacks :: "rcu_head list"
  cpu_generation :: u64

section \<open>The shared state\<close>

definition cpu_bit_set :: "nat \<Rightarrow> rcu \<Rightarrow> bool" where
  "cpu_bit_set cpu r \<longleftrightarrow> (bitmask r ! (cpu div 64)) AND push_bit (cpu mod 64) 1 \<noteq> 0"

definition silence_cpu :: "nat \<Rightarrow> rcu \<Rightarrow> rcu" where
  "silence_cpu cpu r =
     r\<lparr>bitmask := (bitmask r)[cpu div 64 :=
         (bitmask r ! (cpu div 64)) AND NOT (push_bit (cpu mod 64) 1)]\<rparr>"

fun words_zero :: "u64 list \<Rightarrow> bool" where
  "words_zero [] \<longleftrightarrow> True"
| "words_zero (w # ws) \<longleftrightarrow> (if w \<noteq> 0 then False else words_zero ws)"

definition generation_complete :: "rcu \<Rightarrow> bool" where
  "generation_complete r \<longleftrightarrow> words_zero (bitmask r)"

text \<open>\<open>number_of_cpus\<close> is the global the class reads; the last word gets the remaining bits.\<close>

definition start_word :: "nat \<Rightarrow> nat \<Rightarrow> u64" where
  "start_word number_of_cpus i =
     (if (i + 1) * 64 \<le> number_of_cpus then - 1
      else push_bit (number_of_cpus - i * 64) 1 - 1)"

definition start_generation :: "nat \<Rightarrow> rcu \<Rightarrow> rcu" where
  "start_generation number_of_cpus r =
     (let g = generation r + 1 in
      r\<lparr>bitmask := map (start_word number_of_cpus) [0..<length (bitmask r)],
        generation := g, highest_generation := g + 1\<rparr>)"

definition rcu_init :: "nat \<Rightarrow> rcu" where
  "rcu_init number_of_cpus =
     \<lparr>bitmask = replicate ((number_of_cpus + 63) div 64) 0, generation = 0, highest_generation = 0\<rparr>"

section \<open>The state of a CPU\<close>

definition push :: "rcu_head \<Rightarrow> rcu_cpu \<Rightarrow> rcu_cpu" where
  "push head c = c\<lparr>next_callbacks := head # next_callbacks c\<rparr>"

text \<open>The calls the loop over a batch makes: the head, and whether the next one has the same function.\<close>

fun run_callbacks :: "rcu_head list \<Rightarrow> (nat \<times> bool) list" where
  "run_callbacks [] = []"
| "run_callbacks (c # cs) = (fst c, cs \<noteq> [] \<and> snd (hd cs) = snd c) # run_callbacks cs"

definition quiet_announce :: "nat \<Rightarrow> nat \<Rightarrow> rcu \<Rightarrow> rcu" where
  "quiet_announce number_of_cpus my_cpu_id r =
     (if cpu_bit_set my_cpu_id r
      then (let r1 = silence_cpu my_cpu_id r in
            if generation_complete r1
            then (let r2 = r1\<lparr>generation := generation r1 + 1\<rparr> in
                  if generation r2 \<le> highest_generation r2 then start_generation number_of_cpus r2 else r2)
            else r1)
      else r)"

definition quiet_run :: "rcu \<Rightarrow> rcu_cpu \<Rightarrow> (nat \<times> bool) list \<times> rcu_cpu" where
  "quiet_run r c =
     (if current_callbacks c \<noteq> [] \<and> generation r > cpu_generation c
      then (run_callbacks (current_callbacks c), c\<lparr>current_callbacks := []\<rparr>)
      else ([], c))"

definition quiet_advance :: "nat \<Rightarrow> rcu \<Rightarrow> rcu_cpu \<Rightarrow> (rcu \<times> rcu_cpu) option" where
  "quiet_advance number_of_cpus r c =
     (if current_callbacks c = [] \<and> next_callbacks c \<noteq> []
      then (let g = generation r + 1;
                c1 = c\<lparr>current_callbacks := next_callbacks c, next_callbacks := [], cpu_generation := g\<rparr> in
            if \<not> generation_complete r
            then do { kassert (highest_generation r \<le> g + 1);
                      Some (r\<lparr>highest_generation := g + 1\<rparr>, c1) }
            else Some (start_generation number_of_cpus r, c1))
      else Some (r, c))"

text \<open>The whole of \<open>quiet\<close>, with no other CPU in between.\<close>

definition quiet :: "nat \<Rightarrow> nat \<Rightarrow> rcu \<Rightarrow> rcu_cpu \<Rightarrow> ((nat \<times> bool) list \<times> rcu \<times> rcu_cpu) option" where
  "quiet number_of_cpus my_cpu_id r c =
     (let r1 = quiet_announce number_of_cpus my_cpu_id r;
          (calls, c1) = quiet_run r1 c in
      map_option (Pair calls) (quiet_advance number_of_cpus r1 c1))"

section \<open>The machine\<close>

definition heads :: "(nat \<times> 'a) list \<Rightarrow> nat set" where
  "heads cs = fst ` set cs"

text \<open>
  The shared state, the CPUs, where each CPU is in \<open>quiet\<close>, the callbacks pushed and the calls
  made so far, latest first, and, for every callback, which CPUs have entered \<open>quiet\<close> since it
  was pushed (that is when a CPU holds no reference any more), and which CPUs had already
  answered the running generation when the batch of the callback was queued on it.
\<close>

datatype quiet_pc = Out | Announced | Ran

record rcu_sys =
  rshared :: rcu
  rcpus :: "nat \<Rightarrow> rcu_cpu"
  rpc :: "nat \<Rightarrow> quiet_pc"
  pushed :: "rcu_head list"
  called :: "(nat \<times> bool) list"
  passed :: "nat \<Rightarrow> nat \<Rightarrow> bool"
  answered :: "nat \<Rightarrow> nat \<Rightarrow> bool"

datatype revent = RPush nat rcu_head | RAnnounce nat | RRun nat | RAdvance nat

fun renabled :: "nat \<Rightarrow> rcu_sys \<Rightarrow> revent \<Rightarrow> bool" where
  "renabled n s (RPush k h) \<longleftrightarrow> k < n \<and> rpc s k = Out \<and> fst h \<notin> heads (pushed s)"
| "renabled n s (RAnnounce k) \<longleftrightarrow> k < n \<and> rpc s k = Out \<and> unat (generation (rshared s)) + 4 < 2 ^ 64"
| "renabled n s (RRun k) \<longleftrightarrow> k < n \<and> rpc s k = Announced"
| "renabled n s (RAdvance k) \<longleftrightarrow> k < n \<and> rpc s k = Ran \<and> unat (generation (rshared s)) + 4 < 2 ^ 64"

fun rexec :: "nat \<Rightarrow> revent \<Rightarrow> rcu_sys \<Rightarrow> rcu_sys option" where
  "rexec n (RPush k h) s =
     Some (s\<lparr>rcpus := (rcpus s)(k := push h (rcpus s k)), pushed := h # pushed s,
             passed := (passed s)(fst h := (\<lambda>_. False))\<rparr>)"
| "rexec n (RAnnounce k) s =
     Some (s\<lparr>rshared := quiet_announce n k (rshared s), rpc := (rpc s)(k := Announced),
             passed := (\<lambda>h. (passed s h)(k := True))\<rparr>)"
| "rexec n (RRun k) s =
     (let (calls, c) = quiet_run (rshared s) (rcpus s k) in
      Some (s\<lparr>rcpus := (rcpus s)(k := c), rpc := (rpc s)(k := Ran), called := rev calls @ called s\<rparr>))"
| "rexec n (RAdvance k) s =
     (case quiet_advance n (rshared s) (rcpus s k) of None \<Rightarrow> None
      | Some (r, c) \<Rightarrow>
          Some (s\<lparr>rshared := r, rcpus := (rcpus s)(k := c), rpc := (rpc s)(k := Out),
                  answered := (\<lambda>h j. if h \<in> heads (current_callbacks c)
                                        \<and> current_callbacks (rcpus s k) = []
                                     then \<not> generation_complete (rshared s) \<and> \<not> cpu_bit_set j (rshared s)
                                     else answered s h j)\<rparr>))"

definition rsys_init :: "nat \<Rightarrow> rcu_sys" where
  "rsys_init n = \<lparr>rshared = rcu_init n,
     rcpus = (\<lambda>_. \<lparr>current_callbacks = [], next_callbacks = [], cpu_generation = 0\<rparr>),
     rpc = (\<lambda>_. Out), pushed = [], called = [], passed = (\<lambda>_ _. False), answered = (\<lambda>_ _. False)\<rparr>"

inductive rreachable :: "nat \<Rightarrow> rcu_sys \<Rightarrow> bool" for n where
  rreach_init: "rreachable n (rsys_init n)"
| rreach_step: "rreachable n s \<Longrightarrow> renabled n s e \<Longrightarrow> rexec n e s = Some s' \<Longrightarrow> rreachable n s'"

lemma heads_simps [simp]:
  "heads [] = {}" "heads (c # cs) = insert (fst c) (heads cs)" "heads (cs @ ds) = heads cs \<union> heads ds"
  "heads (rev cs) = heads cs"
  by (auto simp: heads_def)

section \<open>The bit mask is a set of CPUs\<close>

definition pending :: "rcu \<Rightarrow> nat \<Rightarrow> bool" where
  "pending r k \<longleftrightarrow> k div 64 < length (bitmask r) \<and> bit (bitmask r ! (k div 64)) (k mod 64)"

lemma cpu_bit_set_pending:
  "k div 64 < length (bitmask r) \<Longrightarrow> cpu_bit_set k r \<longleftrightarrow> pending r k"
  by (simp add: cpu_bit_set_def pending_def push_bit_of_1 and_exp_eq_0_iff_not_bit)

lemma silence_cpu_pending:
  assumes "k div 64 < length (bitmask r)"
  shows "pending (silence_cpu k r) j \<longleftrightarrow> pending r j \<and> j \<noteq> k"
proof (cases "j div 64 = k div 64")
  case True
  then have "j mod 64 = k mod 64 \<longleftrightarrow> j = k" by (metis mod_mult_div_eq)
  then show ?thesis using True assms
    by (auto simp: pending_def silence_cpu_def push_bit_of_1 bit_and_iff bit_not_iff bit_exp_iff)
next
  case False
  then show ?thesis by (auto simp: pending_def silence_cpu_def)
qed

lemma words_zero_iff: "words_zero ws \<longleftrightarrow> (\<forall>w \<in> set ws. w = 0)"
  by (induction ws) auto

lemma generation_complete_iff: "generation_complete r \<longleftrightarrow> (\<forall>k. \<not> pending r k)"
proof
  assume "generation_complete r"
  then show "\<forall>k. \<not> pending r k"
    by (simp add: generation_complete_def words_zero_iff pending_def all_set_conv_all_nth)
next
  assume none: "\<forall>k. \<not> pending r k"
  have "bitmask r ! i = 0" if "i < length (bitmask r)" for i
  proof (rule bit_eqI)
    fix m assume "possible_bit TYPE(u64) m"
    then have "m < 64" by simp
    then show "bit (bitmask r ! i) m \<longleftrightarrow> bit (0 :: u64) m"
      using none [THEN spec, of "64 * i + m"] that by (simp add: pending_def)
  qed
  then show "generation_complete r"
    by (auto simp: generation_complete_def words_zero_iff in_set_conv_nth)
qed

lemma cpu_word:
  assumes "k < n"
  shows "k div 64 < (n + 63) div (64 :: nat)"
proof -
  have "(k + 64) div 64 \<le> (n + 63) div 64" by (rule div_le_mono) (use assms in simp)
  then show ?thesis by simp
qed

lemma start_generation_pending:
  assumes "length (bitmask r) = (n + 63) div 64"
  shows "pending (start_generation n r) k \<longleftrightarrow> k < n"
proof (cases "k div 64 < (n + 63) div 64")
  case True
  have "bit (start_word n (k div 64)) (k mod 64) \<longleftrightarrow> k < n"
  proof (cases "(k div 64 + 1) * 64 \<le> n")
    case True
    then show ?thesis by (auto simp: start_word_def)
  next
    case False
    have "bit (start_word n (k div 64)) (k mod 64) \<longleftrightarrow> k mod 64 < n - k div 64 * 64"
      using False by (simp add: start_word_def push_bit_of_1 bit_mask_iff flip: mask_eq_exp_minus_1)
    also have "\<dots> \<longleftrightarrow> k mod 64 + k div 64 * 64 < n" by (rule less_diff_conv)
    also have "k mod 64 + k div 64 * 64 = k" by simp
    finally show ?thesis .
  qed
  then show ?thesis using True assms by (simp add: pending_def start_generation_def Let_def)
next
  case False
  then have "\<not> k < n" using cpu_word by blast
  then show ?thesis using False assms by (simp add: pending_def start_generation_def Let_def)
qed


lemma bitmask_length [simp]:
  "length (bitmask (silence_cpu k r)) = length (bitmask r)"
  "length (bitmask (start_generation n r)) = length (bitmask r)"
  "length (bitmask (quiet_announce n k r)) = length (bitmask r)"
  by (simp_all add: silence_cpu_def start_generation_def quiet_announce_def Let_def)

lemma start_generation_sel [simp]:
  "generation (start_generation n r) = generation r + 1"
  "highest_generation (start_generation n r) = generation r + 2"
  by (simp_all add: start_generation_def Let_def)

lemma silence_cpu_sel [simp]:
  "generation (silence_cpu k r) = generation r"
  "highest_generation (silence_cpu k r) = highest_generation r"
  by (simp_all add: silence_cpu_def)

lemma pending_gen [simp]:
  "pending (r\<lparr>generation := g\<rparr>) = pending r" "pending (r\<lparr>highest_generation := g\<rparr>) = pending r"
  by (simp_all add: pending_def fun_eq_iff)

section \<open>Invariant\<close>

definition rshape :: "nat \<Rightarrow> rcu \<Rightarrow> bool" where
  "rshape n r \<longleftrightarrow> length (bitmask r) = (n + 63) div 64 \<and> (\<forall>k. pending r k \<longrightarrow> k < n)
     \<and> (if \<exists>k. pending r k
        then unat (highest_generation r) = unat (generation r) + 1
             \<or> unat (highest_generation r) = unat (generation r) + 2
        else generation r = 0 \<and> highest_generation r = 0)"

lemma unat_Suc: "unat (g :: u64) + d < 2 ^ 64 \<Longrightarrow> unat (g + of_nat d) = unat g + d"
  by (simp add: unat_word_ariths unat_of_nat)

lemma quiet_announce_cases:
  assumes "rshape n r" "k < n" "unat (generation r) + 4 < 2 ^ 64"
  obtains (complete) "\<And>j. pending r j \<longleftrightarrow> j = k" "\<And>j. pending (quiet_announce n k r) j \<longleftrightarrow> j < n"
      "unat (generation (quiet_announce n k r)) = unat (generation r) + 2"
      "unat (highest_generation (quiet_announce n k r)) = unat (generation r) + 3"
  | (running) "\<And>j. pending (quiet_announce n k r) j \<longleftrightarrow> pending r j \<and> j \<noteq> k"
      "(\<exists>j. pending (quiet_announce n k r) j) \<longleftrightarrow> (\<exists>j. pending r j)"
      "generation (quiet_announce n k r) = generation r"
      "highest_generation (quiet_announce n k r) = highest_generation r"
proof -
  have len: "length (bitmask r) = (n + 63) div 64" using assms(1) by (simp add: rshape_def)
  have w: "k div 64 < length (bitmask r)" using len cpu_word [OF assms(2)] by simp
  have bs: "cpu_bit_set k r \<longleftrightarrow> pending r k" by (rule cpu_bit_set_pending [OF w])
  have u: "unat (generation r + 1) = unat (generation r) + 1" "unat (generation r + 2) = unat (generation r) + 2"
      "unat (generation r + 3) = unat (generation r) + 3"
    using assms(3) unat_Suc [of "generation r" 1] unat_Suc [of "generation r" 2] unat_Suc [of "generation r" 3] by simp_all
  show ?thesis
  proof (cases "pending r k \<and> (\<forall>j. pending r j \<longrightarrow> j = k)")
    case True
    then have le: "generation r + 1 \<le> highest_generation r"
      using assms(1) u by (auto simp: rshape_def word_le_nat_alt split: if_splits)
    have "generation_complete (silence_cpu k r)"
      using True by (simp add: generation_complete_iff silence_cpu_pending [OF w])
    then have e: "quiet_announce n k r = start_generation n ((silence_cpu k r)\<lparr>generation := generation r + 1\<rparr>)"
      using True bs le by (simp add: quiet_announce_def Let_def)
    have "pending r j \<longleftrightarrow> j = k" for j using True by blast
    moreover have "pending (quiet_announce n k r) j \<longleftrightarrow> j < n" for j
      unfolding e by (rule start_generation_pending) (simp add: len)
    moreover have "generation (quiet_announce n k r) = generation r + 2"
      "highest_generation (quiet_announce n k r) = generation r + 3"
      by (simp_all add: e)
    ultimately show ?thesis using u by (intro complete) simp_all
  next
    case False
    then have "pending r k \<Longrightarrow> \<not> generation_complete (silence_cpu k r)"
      by (simp add: generation_complete_iff silence_cpu_pending [OF w])
    then have e: "quiet_announce n k r = (if pending r k then silence_cpu k r else r)"
      using bs by (simp add: quiet_announce_def)
    have p: "pending (quiet_announce n k r) j \<longleftrightarrow> pending r j \<and> j \<noteq> k" for j
      using silence_cpu_pending [OF w] by (cases "pending r k") (auto simp: e)
    moreover have "(\<exists>j. pending (quiet_announce n k r) j) \<longleftrightarrow> (\<exists>j. pending r j)"
      unfolding p using False by metis
    ultimately show ?thesis by (intro running) (simp_all add: e)
  qed
qed

lemma rshape_announce:
  assumes "rshape n r" "k < n" "unat (generation r) + 4 < 2 ^ 64"
  shows "rshape n (quiet_announce n k r)"
proof (cases rule: quiet_announce_cases [OF assms])
  case 1
  from 1(2) assms(2) have "\<exists>j. pending (quiet_announce n k r) j" by blast
  then show ?thesis using assms(1) 1(2-4) by (simp add: rshape_def)
next
  case 2
  have "\<forall>j. pending (quiet_announce n k r) j \<longrightarrow> j < n" using 2(1) assms(1) by (auto simp: rshape_def)
  with assms(1) show ?thesis unfolding rshape_def 2(2-4) bitmask_length by blast
qed

lemma quiet_advance_none:
  "\<not> (current_callbacks c = [] \<and> next_callbacks c \<noteq> []) \<Longrightarrow> quiet_advance n r c = Some (r, c)"
  by (auto simp: quiet_advance_def)

lemma quiet_advance_move:
  assumes "rshape n r" "unat (generation r) + 4 < 2 ^ 64" "current_callbacks c = []" "next_callbacks c \<noteq> []"
  shows "quiet_advance n r c =
    Some (if \<exists>j. pending r j then r\<lparr>highest_generation := generation r + 2\<rparr> else start_generation n r,
          c\<lparr>current_callbacks := next_callbacks c, next_callbacks := [], cpu_generation := generation r + 1\<rparr>)"
proof -
  have "highest_generation r \<le> generation r + 2" if "\<exists>j. pending r j"
    using that assms(1,2) unat_Suc [of "generation r" 2] by (auto simp: rshape_def word_le_nat_alt)
  then show ?thesis using assms(3,4)
    by (auto simp: quiet_advance_def generation_complete_iff Let_def add.commute)
qed

lemma rshape_advance:
  assumes "rshape n r" "unat (generation r) + 4 < 2 ^ 64" "0 < n" "quiet_advance n r c = Some (r', c')"
  shows "rshape n r'"
proof (cases "current_callbacks c = [] \<and> next_callbacks c \<noteq> []")
  case False
  then show ?thesis using assms quiet_advance_none by fastforce
next
  case True
  note e = quiet_advance_move [OF assms(1,2), of c] 
  show ?thesis
  proof (cases "\<exists>j. pending r j")
    case p: True
    then have r': "r' = r\<lparr>highest_generation := generation r + 2\<rparr>" using e True assms(4) by simp
    have "unat (generation r + 2) = unat (generation r) + 2"
      using unat_Suc [of "generation r" 2] assms(2) by simp
    with p assms(1) show ?thesis unfolding r' rshape_def by simp
  next
    case p: False
    then have r': "r' = start_generation n r" using e True assms(4) by simp
    have len: "length (bitmask r) = (n + 63) div 64" using assms(1) by (simp add: rshape_def)
    have "pending r' j \<longleftrightarrow> j < n" for j unfolding r' by (rule start_generation_pending [OF len])
    moreover have "generation r = 0" using assms(1) p by (simp add: rshape_def)
    ultimately show ?thesis using len assms(3) by (auto simp: rshape_def r')
  qed
qed

subsection \<open>Where a callback is\<close>

datatype place = PCalled | PCur nat | PNxt nat

fun rpos :: "rcu_sys \<Rightarrow> nat \<Rightarrow> place \<Rightarrow> bool" where
  "rpos s h PCalled \<longleftrightarrow> h \<in> heads (called s)"
| "rpos s h (PCur k) \<longleftrightarrow> h \<in> heads (current_callbacks (rcpus s k))"
| "rpos s h (PNxt k) \<longleftrightarrow> h \<in> heads (next_callbacks (rcpus s k))"

definition rloc :: "rcu_sys \<Rightarrow> bool" where
  "rloc s \<longleftrightarrow> (\<forall>h. h \<in> heads (pushed s) \<longleftrightarrow> (\<exists>p. rpos s h p))
     \<and> (\<forall>h p q. rpos s h p \<longrightarrow> rpos s h q \<longrightarrow> p = q)
     \<and> distinct (map fst (called s))
     \<and> (\<forall>k. distinct (map fst (current_callbacks (rcpus s k))) \<and> distinct (map fst (next_callbacks (rcpus s k))))"

lemma run_callbacks_fst [simp]: "map fst (run_callbacks cs) = map fst cs"
  by (induction cs) auto

lemma run_callbacks_set [simp]: "heads (run_callbacks cs) = heads cs"
  by (simp add: heads_def flip: set_map)

lemma rpos_push:
  "rexec n (RPush k h) s = Some s' \<Longrightarrow> rpos s' h' p \<longleftrightarrow> rpos s h' p \<or> (h' = fst h \<and> p = PNxt k)"
  by (cases p) (auto simp: push_def split: if_splits)

lemma rpos_announce: "rexec n (RAnnounce k) s = Some s' \<Longrightarrow> rpos s' h p \<longleftrightarrow> rpos s h p"
  by (cases p) auto

definition batch_runs :: "rcu_sys \<Rightarrow> nat \<Rightarrow> bool" where
  "batch_runs s k \<longleftrightarrow> current_callbacks (rcpus s k) \<noteq> []
     \<and> generation (rshared s) > cpu_generation (rcpus s k)"

lemma rexec_run:
  "rexec n (RRun k) s =
     Some (if batch_runs s k
           then s\<lparr>rcpus := (rcpus s)(k := (rcpus s k)\<lparr>current_callbacks := []\<rparr>), rpc := (rpc s)(k := Ran),
                  called := rev (run_callbacks (current_callbacks (rcpus s k))) @ called s\<rparr>
           else s\<lparr>rpc := (rpc s)(k := Ran)\<rparr>)"
  by (auto simp: quiet_run_def batch_runs_def)

lemma rpos_run:
  "rexec n (RRun k) s = Some s' \<Longrightarrow> rpos s' h p \<longleftrightarrow>
     (if batch_runs s k
      then (if p = PCalled then rpos s h PCalled \<or> rpos s h (PCur k) else rpos s h p \<and> p \<noteq> PCur k)
      else rpos s h p)"
  by (cases p) (auto simp: rexec_run simp del: rexec.simps split: if_splits)

definition batch_moves :: "rcu_sys \<Rightarrow> nat \<Rightarrow> bool" where
  "batch_moves s k \<longleftrightarrow> current_callbacks (rcpus s k) = [] \<and> next_callbacks (rcpus s k) \<noteq> []"

lemma rexec_advance:
  assumes "rshape n (rshared s)" "unat (generation (rshared s)) + 4 < 2 ^ 64"
  shows "rexec n (RAdvance k) s =
    Some (if batch_moves s k
          then s\<lparr>rshared := (if \<exists>j. pending (rshared s) j
                            then (rshared s)\<lparr>highest_generation := generation (rshared s) + 2\<rparr>
                            else start_generation n (rshared s)),
                 rcpus := (rcpus s)(k := \<lparr>current_callbacks = next_callbacks (rcpus s k), next_callbacks = [],
                              cpu_generation = generation (rshared s) + 1\<rparr>),
                 rpc := (rpc s)(k := Out),
                 answered := (\<lambda>h j. if rpos s h (PNxt k)
                                   then (\<exists>j. pending (rshared s) j) \<and> \<not> cpu_bit_set j (rshared s)
                                   else answered s h j)\<rparr>
          else s\<lparr>rpc := (rpc s)(k := Out)\<rparr>)"
proof (cases "batch_moves s k")
  case True
  then show ?thesis using quiet_advance_move [OF assms, of "rcpus s k"]
    by (cases "rcpus s k") (auto simp: batch_moves_def generation_complete_iff fun_eq_iff)
next
  case False
  then show ?thesis
    by (auto simp: quiet_advance_none batch_moves_def fun_eq_iff intro!: rcu_sys.equality)
qed

lemma rpos_advance:
  assumes "rshape n (rshared s)" "unat (generation (rshared s)) + 4 < 2 ^ 64" "rexec n (RAdvance k) s = Some s'"
  shows "rpos s' h p \<longleftrightarrow>
     (if batch_moves s k then (if p = PCur k then rpos s h (PNxt k) else rpos s h p \<and> p \<noteq> PNxt k)
      else rpos s h p)"
  using assms(3) unfolding rexec_advance [OF assms(1,2)] by (cases p) (auto split: if_splits)

lemma rloc_push:
  assumes "rloc s" "fst h \<notin> heads (pushed s)" "rexec n (RPush k h) s = Some s'"
  shows "rloc s'"
proof -
  have none: "\<not> rpos s (fst h) p" for p using assms(1,2) by (auto simp: rloc_def)
  have pu: "heads (pushed s') = insert (fst h) (heads (pushed s))" using assms(3) by auto
  have "distinct (map fst (called s'))
    \<and> (\<forall>k. distinct (map fst (current_callbacks (rcpus s' k))) \<and> distinct (map fst (next_callbacks (rcpus s' k))))"
    using assms none [of "PNxt k"] by (auto simp: rloc_def push_def heads_def)
  then show ?thesis
    using assms(1) none unfolding rloc_def pu rpos_push [OF assms(3)] by (metis insert_iff)
qed

lemma rloc_announce:
  assumes "rloc s" "rexec n (RAnnounce k) s = Some s'"
  shows "rloc s'"
  using assms(1) unfolding rloc_def rpos_announce [OF assms(2)] using assms(2) by auto

lemma place_move:
  assumes ex: "\<And>h. X h \<longleftrightarrow> (\<exists>p. R h p)" and uniq: "\<And>h p q. R h p \<Longrightarrow> R h q \<Longrightarrow> p = q"
    and m: "\<And>h p. R' h p \<longleftrightarrow> (if p = b then R h b \<or> R h a else R h p \<and> p \<noteq> a)"
  shows "(\<forall>h. X h \<longleftrightarrow> (\<exists>p. R' h p)) \<and> (\<forall>h p q. R' h p \<longrightarrow> R' h q \<longrightarrow> p = q)"
proof (intro conjI allI impI)
  fix h p q
  show "X h \<longleftrightarrow> (\<exists>p. R' h p)" unfolding ex m by metis
  show "p = q" if "R' h p" "R' h q" using that uniq unfolding m by (metis (full_types))
qed

lemma rloc_run:
  assumes "rloc s" "rexec n (RRun k) s = Some s'"
  shows "rloc s'"
proof (cases "batch_runs s k")
  case False
  then show ?thesis using assms(1) unfolding rloc_def rpos_run [OF assms(2)]
    using assms(2) by (auto simp: rexec_run simp del: rexec.simps)
next
  case True
  have "heads (current_callbacks (rcpus s k)) \<inter> heads (called s) = {}"
    using assms(1) unfolding rloc_def by (metis disjoint_iff place.distinct(1) rpos.simps(1,2))
  then have "distinct (map fst (called s'))"
    using assms True by (auto simp: rexec_run rloc_def heads_def rev_map [symmetric] simp del: rexec.simps)
  moreover have "\<forall>k. distinct (map fst (current_callbacks (rcpus s' k))) \<and> distinct (map fst (next_callbacks (rcpus s' k)))"
    "pushed s' = pushed s"
    using assms True by (auto simp: rexec_run rloc_def simp del: rexec.simps)
  moreover have "(\<forall>h. h \<in> heads (pushed s) \<longleftrightarrow> (\<exists>p. rpos s' h p)) \<and> (\<forall>h p q. rpos s' h p \<longrightarrow> rpos s' h q \<longrightarrow> p = q)"
  proof (rule place_move [of _ "rpos s" _ PCalled "PCur k"])
    fix h p q
    show "h \<in> heads (pushed s) \<longleftrightarrow> (\<exists>p. rpos s h p)" "rpos s h p \<Longrightarrow> rpos s h q \<Longrightarrow> p = q"
      using assms(1) unfolding rloc_def by blast+
    show "rpos s' h p \<longleftrightarrow> (if p = PCalled then rpos s h PCalled \<or> rpos s h (PCur k) else rpos s h p \<and> p \<noteq> PCur k)"
      using True by (simp add: rpos_run [OF assms(2)])
  qed
  ultimately show ?thesis unfolding rloc_def by metis
qed

lemma rloc_advance:
  assumes "rshape n (rshared s)" "unat (generation (rshared s)) + 4 < 2 ^ 64" "rexec n (RAdvance k) s = Some s'"
    "rloc s"
  shows "rloc s'"
proof -
  have "distinct (map fst (called s'))
    \<and> (\<forall>k. distinct (map fst (current_callbacks (rcpus s' k))) \<and> distinct (map fst (next_callbacks (rcpus s' k))))
    \<and> pushed s' = pushed s"
    using assms(3,4) unfolding rexec_advance [OF assms(1,2)] by (auto simp: rloc_def split: if_splits)
  moreover have "(\<forall>h. h \<in> heads (pushed s) \<longleftrightarrow> (\<exists>p. rpos s' h p)) \<and> (\<forall>h p q. rpos s' h p \<longrightarrow> rpos s' h q \<longrightarrow> p = q)"
  proof (cases "batch_moves s k")
    case True
    then have "\<not> rpos s h (PCur k)" for h by (simp add: batch_moves_def)
    note nc = this
    show ?thesis
    proof (rule place_move [of _ "rpos s" _ "PCur k" "PNxt k"])
      fix h p q
      show "h \<in> heads (pushed s) \<longleftrightarrow> (\<exists>p. rpos s h p)" "rpos s h p \<Longrightarrow> rpos s h q \<Longrightarrow> p = q"
        using assms(4) unfolding rloc_def by blast+
      show "rpos s' h p \<longleftrightarrow> (if p = PCur k then rpos s h (PCur k) \<or> rpos s h (PNxt k) else rpos s h p \<and> p \<noteq> PNxt k)"
        using True nc by (simp add: rpos_advance [OF assms(1-3)])
    qed
  next
    case False
    then show ?thesis using assms(4) unfolding rloc_def rpos_advance [OF assms(1-3)] by simp
  qed
  ultimately show ?thesis unfolding rloc_def by metis
qed

subsection \<open>Grace periods\<close>

definition rbatch :: "rcu_sys \<Rightarrow> bool" where
  "rbatch s \<longleftrightarrow> ((\<exists>j. pending (rshared s) j) \<or> (\<forall>k. current_callbacks (rcpus s k) = []))
     \<and> (\<forall>k. current_callbacks (rcpus s k) \<noteq> [] \<longrightarrow>
           unat (cpu_generation (rcpus s k)) \<le> unat (generation (rshared s)) + 1)"

text \<open>
  \<open>S s h j\<close> is what is required of CPU \<open>j\<close> before the callback \<open>h\<close> may run. It holds for every CPU once
  the callback has been called, and, for a batch that is waiting, for every CPU that no longer
  holds up the generation the batch waits for.
\<close>

definition grace :: "(rcu_sys \<Rightarrow> nat \<Rightarrow> nat \<Rightarrow> bool) \<Rightarrow> nat \<Rightarrow> rcu_sys \<Rightarrow> bool" where
  "grace S n s \<longleftrightarrow>
     (\<forall>h j. j < n \<longrightarrow> (rpos s h PCalled \<longrightarrow> S s h j)
       \<and> (\<forall>k. rpos s h (PCur k) \<longrightarrow>
             (pending (rshared s) j \<longrightarrow> generation (rshared s) > cpu_generation (rcpus s k)) \<longrightarrow> S s h j))"

lemma graceD:
  "grace S n s \<Longrightarrow> j < n \<Longrightarrow> rpos s h PCalled \<Longrightarrow> S s h j"
  "grace S n s \<Longrightarrow> j < n \<Longrightarrow> rpos s h (PCur k) \<Longrightarrow>
     (pending (rshared s) j \<Longrightarrow> generation (rshared s) > cpu_generation (rcpus s k)) \<Longrightarrow> S s h j"
  by (auto simp: grace_def simp del: rpos.simps)

lemma graceI:
  assumes "\<And>h j. j < n \<Longrightarrow> rpos s h PCalled \<Longrightarrow> S s h j"
    and "\<And>h j k. j < n \<Longrightarrow> rpos s h (PCur k) \<Longrightarrow>
      (pending (rshared s) j \<Longrightarrow> generation (rshared s) > cpu_generation (rcpus s k)) \<Longrightarrow> S s h j"
  shows "grace S n s"
  using assms unfolding grace_def by blast

lemma grace_push:
  assumes "grace S n s" "rloc s" "fst h \<notin> heads (pushed s)" "rexec n (RPush k h) s = Some s'"
    and S: "\<And>h' j. h' \<noteq> fst h \<Longrightarrow> S s h' j \<Longrightarrow> S s' h' j"
  shows "grace S n s'"
proof -
  have none: "\<not> rpos s (fst h) p" for p using assms(2,3) by (auto simp: rloc_def)
  have sh: "rshared s' = rshared s" "\<And>k. cpu_generation (rcpus s' k) = cpu_generation (rcpus s k)"
    using assms(4) by (auto simp: push_def)
  show ?thesis
  proof (rule graceI)
    fix h' j assume "j < n" "rpos s' h' PCalled"
    then show "S s' h' j" using rpos_push [OF assms(4)] none graceD(1) [OF assms(1)] S by (metis place.distinct(3))
  next
    fix h' j k'
    assume j: "j < n" and p: "rpos s' h' (PCur k')"
      and g: "pending (rshared s') j \<Longrightarrow> cpu_generation (rcpus s' k') < generation (rshared s')"
    have "rpos s h' (PCur k')" "h' \<noteq> fst h" using p rpos_push [OF assms(4)] none by (metis place.distinct(5))+
    then show "S s' h' j" using S graceD(2) [OF assms(1) j] g unfolding sh by blast
  qed
qed

lemma grace_announce:
  assumes "grace S n s" "rshape n (rshared s)" "k < n" "unat (generation (rshared s)) + 4 < 2 ^ 64"
    "rexec n (RAnnounce k) s = Some s'"
    and S: "\<And>h j. S s h j \<or> j = k \<Longrightarrow> S s' h j"
  shows "grace S n s'"
proof -
  have sh: "rshared s' = quiet_announce n k (rshared s)" "rcpus s' = rcpus s" using assms(5) by auto
  show ?thesis
  proof (rule graceI)
    fix h j assume "j < n" "rpos s' h PCalled"
    then show "S s' h j" using rpos_announce [OF assms(5)] graceD(1) [OF assms(1)] S by blast
  next
    fix h j k'
    assume j: "j < n" and p: "rpos s' h (PCur k')"
      and g: "pending (rshared s') j \<Longrightarrow> cpu_generation (rcpus s' k') < generation (rshared s')"
    have p': "rpos s h (PCur k')" using p rpos_announce [OF assms(5)] by blast
    show "S s' h j"
    proof (cases "j = k")
      case True then show ?thesis using S by blast
    next
      case False
      have "S s h j"
        using assms(2-4)
      proof (cases rule: quiet_announce_cases)
        case complete
        then show ?thesis using graceD(2) [OF assms(1) j p'] False by blast
      next
        case running
        then show ?thesis using graceD(2) [OF assms(1) j p'] False g unfolding sh by simp
      qed
      then show ?thesis using S by blast
    qed
  qed
qed

lemma grace_run:
  assumes "grace S n s" "rexec n (RRun k) s = Some s'"
    and S: "\<And>h j. S s h j \<Longrightarrow> S s' h j"
  shows "grace S n s'"
proof -
  have sh: "rshared s' = rshared s" "\<And>k. cpu_generation (rcpus s' k) = cpu_generation (rcpus s k)"
    using assms(2) by (auto simp: rexec_run simp del: rexec.simps)
  show ?thesis
  proof (rule graceI)
    fix h j assume j: "j < n" and "rpos s' h PCalled"
    then consider "rpos s h PCalled" | "batch_runs s k" "rpos s h (PCur k)"
      unfolding rpos_run [OF assms(2)] by (auto split: if_splits)
    then have "S s h j"
      by cases (use graceD [OF assms(1) j] in \<open>auto simp: batch_runs_def simp del: rpos.simps\<close>)
    then show "S s' h j" by (rule S)
  next
    fix h j k'
    assume j: "j < n" and p: "rpos s' h (PCur k')"
      and g: "pending (rshared s') j \<Longrightarrow> cpu_generation (rcpus s' k') < generation (rshared s')"
    have "rpos s h (PCur k')" using p unfolding rpos_run [OF assms(2)] by (auto split: if_splits)
    then show "S s' h j" using S graceD(2) [OF assms(1) j] g unfolding sh by blast
  qed
qed

lemma grace_advance:
  assumes "grace S n s" "rshape n (rshared s)" "unat (generation (rshared s)) + 4 < 2 ^ 64" "rbatch s" "rloc s"
    and ex: "rexec n (RAdvance k) s = Some s'"
    and S: "\<And>h j. \<not> rpos s h (PNxt k) \<or> \<not> batch_moves s k \<Longrightarrow> S s h j \<Longrightarrow> S s' h j"
    and moved: "\<And>h j. batch_moves s k \<Longrightarrow> rpos s h (PNxt k) \<Longrightarrow> \<exists>i. pending (rshared s) i \<Longrightarrow> j < n \<Longrightarrow>
                 \<not> pending (rshared s) j \<Longrightarrow> S s' h j"
  shows "grace S n s'"
proof (rule graceI)
  have uniq: "rpos s h p \<Longrightarrow> rpos s h q \<Longrightarrow> p = q" for h p q using assms(5) unfolding rloc_def by blast
  {
    fix h j assume j: "j < n" and "rpos s' h PCalled"
    then have "rpos s h PCalled" unfolding rpos_advance [OF assms(2,3) ex] by (auto split: if_splits)
    then show "S s' h j" using S uniq graceD(1) [OF assms(1) j] by (metis place.distinct(3))
  next
    fix h j k'
    assume j: "j < n" and p: "rpos s' h (PCur k')"
      and g: "pending (rshared s') j \<Longrightarrow> cpu_generation (rcpus s' k') < generation (rshared s')"
    show "S s' h j"
    proof (cases "batch_moves s k")
      case False
      then have "rpos s h (PCur k')" "rshared s' = rshared s" "rcpus s' = rcpus s"
        using p ex unfolding rpos_advance [OF assms(2,3) ex] unfolding rexec_advance [OF assms(2,3)] by auto
      then show ?thesis using S False graceD(2) [OF assms(1) j] g by simp
    next
      case True
      note s' = ex [unfolded rexec_advance [OF assms(2,3)], simplified True if_True option.inject, symmetric]
      show ?thesis
      proof (cases "\<exists>i. pending (rshared s) i")
        case run: True
        then have sh: "pending (rshared s') = pending (rshared s)" "generation (rshared s') = generation (rshared s)"
          by (simp_all add: s')
        show ?thesis
        proof (cases "k' = k")
          case True
          then have "rpos s h (PNxt k)" using p \<open>batch_moves s k\<close> unfolding rpos_advance [OF assms(2,3) ex] by simp
          moreover have "\<not> pending (rshared s) j"
          proof
            assume "pending (rshared s) j"
            then have "generation (rshared s) + 1 < generation (rshared s)" using g True unfolding sh by (simp add: s')
            then show False using unat_Suc [of "generation (rshared s)" 1] assms(3) by (simp add: word_less_nat_alt)
          qed
          ultimately show ?thesis using moved \<open>batch_moves s k\<close> run j by blast
        next
          case False
          then have "rpos s h (PCur k')" "cpu_generation (rcpus s' k') = cpu_generation (rcpus s k')"
            using p unfolding rpos_advance [OF assms(2,3) ex] by (auto simp: s' split: if_splits)
          then show ?thesis using S uniq graceD(2) [OF assms(1) j] g unfolding sh by (metis place.distinct(5))
        qed
      next
        case False
        then have e: "current_callbacks (rcpus s i) = []" for i using assms(4) by (simp add: rbatch_def)
        then have k': "k' = k" using p unfolding rpos_advance [OF assms(2,3) ex] by (auto split: if_splits)
        have "pending (rshared s') j"
          using False j assms(2) by (simp add: s' start_generation_pending rshape_def)
        then have "generation (rshared s) + 1 < generation (rshared s) + 1" using g k' False by (simp add: s')
        then show ?thesis by simp
      qed
    qed
  }
qed

lemma rbatch_announce:
  assumes "rbatch s" "rshape n (rshared s)" "k < n" "unat (generation (rshared s)) + 4 < 2 ^ 64"
    "rexec n (RAnnounce k) s = Some s'"
  shows "rbatch s'"
proof -
  have sh: "rshared s' = quiet_announce n k (rshared s)" "rcpus s' = rcpus s" using assms(5) by auto
  from assms(2-4) show ?thesis
  proof (cases rule: quiet_announce_cases)
    case complete
    have "\<exists>j. pending (rshared s') j" using complete(2) assms(3) sh by auto
    moreover have "unat (generation (rshared s')) = unat (generation (rshared s)) + 2" using complete(3) sh by simp
    ultimately show ?thesis using assms(1) by (fastforce simp: rbatch_def sh(2))
  next
    case running
    then show ?thesis using assms(1) unfolding rbatch_def sh by metis
  qed
qed

lemma rbatch_advance:
  assumes "rbatch s" "rshape n (rshared s)" "0 < n" "unat (generation (rshared s)) + 4 < 2 ^ 64"
    "rexec n (RAdvance k) s = Some s'"
  shows "rbatch s'"
proof (cases "batch_moves s k")
  case False
  then show ?thesis using assms(1,5) unfolding rexec_advance [OF assms(2,4)] by (auto simp: rbatch_def)
next
  case True
  note s' = assms(5) [unfolded rexec_advance [OF assms(2,4)], simplified True if_True option.inject, symmetric]
  have u: "unat (generation (rshared s) + 1) = unat (generation (rshared s)) + 1"
    using unat_Suc [of "generation (rshared s)" 1] assms(4) by simp
  show ?thesis
  proof (cases "\<exists>j. pending (rshared s) j")
    case True
    then have sh: "pending (rshared s') = pending (rshared s)" "generation (rshared s') = generation (rshared s)"
      by (simp_all add: s')
    then show ?thesis using assms(1) True u unfolding rbatch_def sh by (simp add: s')
  next
    case False
    then have "current_callbacks (rcpus s i) = []" for i using assms(1) by (simp add: rbatch_def)
    moreover have "pending (rshared s') 0" using False assms(2,3) by (simp add: s' start_generation_pending rshape_def)
    ultimately show ?thesis using False u unfolding rbatch_def by (auto simp: s')
  qed
qed

text \<open>The requirement the code meets for any number of CPUs, and the full one.\<close>

definition passed_or_answered :: "rcu_sys \<Rightarrow> nat \<Rightarrow> nat \<Rightarrow> bool" where
  "passed_or_answered s h j \<longleftrightarrow> passed s h j \<or> answered s h j"

definition rinv :: "nat \<Rightarrow> rcu_sys \<Rightarrow> bool" where
  "rinv n s \<longleftrightarrow> rshape n (rshared s) \<and> rloc s \<and> rbatch s \<and> grace passed_or_answered n s"

lemma rinv_init: "rinv n (rsys_init n)"
proof -
  have "\<not> pending (rcu_init n) k" for k by (simp add: pending_def rcu_init_def)
  moreover have "\<not> rpos (rsys_init n) h p" for h p by (cases p) (simp_all add: rsys_init_def)
  ultimately show ?thesis
    by (auto simp: rinv_def rshape_def rloc_def rbatch_def grace_def rsys_init_def rcu_init_def)
qed

lemma rinv_step:
  assumes "rinv n s" "renabled n s e"
  shows "\<exists>s'. rexec n e s = Some s' \<and> rinv n s'"
proof -
  have i: "rshape n (rshared s)" "rloc s" "rbatch s" "grace passed_or_answered n s"
    using assms(1) by (auto simp: rinv_def)
  show ?thesis
  proof (cases e)
    case (RPush k h)
    then obtain s' where s': "rexec n (RPush k h) s = Some s'" by simp
    have "rshape n (rshared s')" "rbatch s'" using i s' by (auto simp: rbatch_def push_def)
    moreover have "grace passed_or_answered n s'"
      by (rule grace_push [OF i(4,2) _ s']) (use RPush assms s' in \<open>auto simp: passed_or_answered_def\<close>)
    ultimately show ?thesis using rloc_push [OF i(2) _ s'] RPush assms s' by (simp add: rinv_def)
  next
    case (RAnnounce k)
    then have g: "k < n" "unat (generation (rshared s)) + 4 < 2 ^ 64" using assms by auto
    obtain s' where s': "rexec n (RAnnounce k) s = Some s'" by simp
    have "grace passed_or_answered n s'"
      by (rule grace_announce [OF i(4,1) g s']) (use s' in \<open>auto simp: passed_or_answered_def\<close>)
    moreover have "rshape n (rshared s')" using rshape_announce [OF i(1) g] s' by auto
    ultimately show ?thesis
      using rloc_announce [OF i(2) s'] rbatch_announce [OF i(3,1) g s'] RAnnounce s' unfolding rinv_def by blast
  next
    case (RRun k)
    obtain s' where s': "rexec n (RRun k) s = Some s'" by (simp add: rexec_run del: rexec.simps)
    have "grace passed_or_answered n s'"
      by (rule grace_run [OF i(4) s']) (use s' in \<open>auto simp: rexec_run passed_or_answered_def simp del: rexec.simps split: if_splits\<close>)
    moreover have "rshape n (rshared s')" "rbatch s'"
      using i s' by (cases "batch_runs s k"; auto simp: rexec_run rbatch_def simp del: rexec.simps)+
    ultimately show ?thesis using rloc_run [OF i(2) s'] RRun s' unfolding rinv_def by blast
  next
    case (RAdvance k)
    then have g: "k < n" "unat (generation (rshared s)) + 4 < 2 ^ 64" using assms by auto
    then have n: "0 < n" by simp
    obtain s' where s': "rexec n (RAdvance k) s = Some s'" using rexec_advance [OF i(1) g(2)] by blast
    have len: "length (bitmask (rshared s)) = (n + 63) div 64" using i(1) by (simp add: rshape_def)
    have bs: "cpu_bit_set j (rshared s) \<longleftrightarrow> pending (rshared s) j" if "j < n" for j
      by (rule cpu_bit_set_pending) (use cpu_word [OF that] len in simp)
    have "grace passed_or_answered n s'"
      by (rule grace_advance [OF i(4,1) g(2) i(3,2) s'])
        (use s' bs in \<open>auto simp: rexec_advance [OF i(1) g(2)] passed_or_answered_def simp del: rexec.simps rpos.simps split: if_splits\<close>)
    moreover have "rshape n (rshared s')"
      using rshape_advance [OF i(1) g(2) n] s' by (auto split: option.splits)
    ultimately show ?thesis
      using rloc_advance [OF i(1) g(2) s' i(2)] rbatch_advance [OF i(3,1) n g(2) s'] RAdvance s' unfolding rinv_def by blast
  qed
qed

lemma rreachable_inv: "rreachable n s \<Longrightarrow> rinv n s"
  by (induction rule: rreachable.induct) (use rinv_init rinv_step in fastforce)+

subsection \<open>Up to two CPUs\<close>

definition rnext :: "nat \<Rightarrow> rcu_sys \<Rightarrow> bool" where
  "rnext n s \<longleftrightarrow> (\<forall>k h j. rpc s k \<noteq> Out \<longrightarrow> rpos s h (PNxt k) \<longrightarrow> (\<exists>i. pending (rshared s) i) \<longrightarrow>
     j < n \<longrightarrow> \<not> pending (rshared s) j \<longrightarrow> passed s h j)"

definition rinv2 :: "nat \<Rightarrow> rcu_sys \<Rightarrow> bool" where
  "rinv2 n s \<longleftrightarrow> rnext n s \<and> grace passed n s"

lemma rnext_announce:
  assumes "rnext n s" "rshape n (rshared s)" "n \<le> 2" "k < n" "unat (generation (rshared s)) + 4 < 2 ^ 64"
    "rexec n (RAnnounce k) s = Some s'"
  shows "rnext n s'"
  unfolding rnext_def
proof (intro allI impI)
  fix k' h j
  assume pc: "rpc s' k' \<noteq> Out" and p: "rpos s' h (PNxt k')" and i: "\<exists>i. pending (rshared s') i"
    and j: "j < n" and np: "\<not> pending (rshared s') j"
  have sh: "rshared s' = quiet_announce n k (rshared s)" using assms(6) by auto
  show "passed s' h j"
  proof (cases "j = k")
    case True
    then show ?thesis using assms(6) by auto
  next
    case False
    from assms(2,4,5) show ?thesis
    proof (cases rule: quiet_announce_cases)
      case complete
      then show ?thesis using np j sh by simp
    next
      case running
      have "k' \<noteq> k"
      proof
        assume "k' = k"
        obtain i where "pending (rshared s') i" using i by blast
        then have "i \<noteq> k" "i \<noteq> j" "i < n" using running(1) np sh assms(2) by (auto simp: rshape_def)
        then show False using False assms(3,4) j by linarith
      qed
      then have "rpc s k' \<noteq> Out" using pc assms(6) by auto
      moreover have "rpos s h (PNxt k')" using p rpos_announce [OF assms(6)] by blast
      ultimately have "passed s h j"
        using assms(1) i j np False running(1,2) unfolding rnext_def sh by blast
      then show ?thesis using assms(6) by auto
    qed
  qed
qed

lemma rnext_advance:
  assumes "rnext n s" "rshape n (rshared s)" "unat (generation (rshared s)) + 4 < 2 ^ 64"
    and ex: "rexec n (RAdvance k) s = Some s'"
  shows "rnext n s'"
  unfolding rnext_def
proof (intro allI impI)
  fix k' h j
  assume pc: "rpc s' k' \<noteq> Out" and p: "rpos s' h (PNxt k')" and i: "\<exists>i. pending (rshared s') i"
    and j: "j < n" and np: "\<not> pending (rshared s') j"
  have k': "rpc s k' \<noteq> Out" "passed s' = passed s"
    using pc ex by (auto simp: rexec_advance [OF assms(2,3)] simp del: rexec.simps split: if_splits)
  have p': "rpos s h (PNxt k')" using p unfolding rpos_advance [OF assms(2,3) ex] by (simp split: if_splits)
  have "pending (rshared s') = pending (rshared s) \<or> (\<forall>j<n. pending (rshared s') j)"
  proof -
    have len: "length (bitmask (rshared s)) = (n + 63) div 64" using assms(2) by (simp add: rshape_def)
    have "rshared s' = rshared s \<or> rshared s' = start_generation n (rshared s)
        \<or> rshared s' = (rshared s)\<lparr>highest_generation := generation (rshared s) + 2\<rparr>"
      using ex unfolding rexec_advance [OF assms(2,3)]
      by (cases "batch_moves s k"; cases "Ex (pending (rshared s))") (auto simp del: rpos.simps)
    then show ?thesis using start_generation_pending [OF len] pending_gen by metis
  qed
  then show "passed s' h j" using np j i k' p' assms(1) unfolding rnext_def by metis
qed

lemma rinv2_step:
  assumes "rinv n s" "rinv2 n s" "n \<le> 2" "renabled n s e" "rexec n e s = Some s'"
  shows "rinv2 n s'"
proof -
  have i: "rshape n (rshared s)" "rloc s" "rbatch s" "rnext n s" "grace passed n s"
    using assms(1,2) by (auto simp: rinv_def rinv2_def)
  show ?thesis
  proof (cases e)
    case (RPush k h)
    then have s': "rexec n (RPush k h) s = Some s'" using assms(5) by simp
    have fresh: "fst h \<notin> heads (pushed s)" and out: "rpc s k = Out" using RPush assms(4) by auto
    have gr: "grace passed n s'" by (rule grace_push [OF i(5,2) fresh s']) (use s' in auto)
    have "rpc s k' \<noteq> Out \<Longrightarrow> rpos s' h' (PNxt k') \<Longrightarrow> rpos s h' (PNxt k') \<and> h' \<noteq> fst h" for k' h'
      using out fresh i(2) unfolding rpos_push [OF s'] rloc_def by blast
    moreover have "rpc s' = rpc s" "rshared s' = rshared s" "\<And>h' j. h' \<noteq> fst h \<Longrightarrow> passed s' h' j = passed s h' j"
      using s' by auto
    ultimately have "rnext n s'" using i(4) unfolding rnext_def by metis
    then show ?thesis using gr by (simp add: rinv2_def)
  next
    case (RAnnounce k)
    then have g: "k < n" "unat (generation (rshared s)) + 4 < 2 ^ 64" and s': "rexec n (RAnnounce k) s = Some s'"
      using assms(4,5) by auto
    have "grace passed n s'" by (rule grace_announce [OF i(5,1) g s']) (use s' in auto)
    then show ?thesis using rnext_announce [OF i(4,1) assms(3) g s'] by (simp add: rinv2_def)
  next
    case (RRun k)
    then have s': "rexec n (RRun k) s = Some s'" and pc: "rpc s k \<noteq> Out" using assms(4,5) by auto
    have e: "passed s' = passed s" "rshared s' = rshared s"
      using s' by (auto simp: rexec_run simp del: rexec.simps)
    have pc': "rpc s' k' \<noteq> Out \<Longrightarrow> rpc s k' \<noteq> Out" for k'
      using s' pc by (auto simp: rexec_run simp del: rexec.simps split: if_splits)
    have "grace passed n s'" by (rule grace_run [OF i(5) s']) (simp add: e)
    moreover have "rpos s' h (PNxt k') \<longleftrightarrow> rpos s h (PNxt k')" for h k' unfolding rpos_run [OF s'] by simp
    then have "rnext n s'" using i(4) pc' unfolding rnext_def e by blast
    ultimately show ?thesis by (simp add: rinv2_def)
  next
    case (RAdvance k)
    then have g: "k < n" "unat (generation (rshared s)) + 4 < 2 ^ 64" "rpc s k \<noteq> Out"
      and s': "rexec n (RAdvance k) s = Some s'" using assms(4,5) by auto
    have e: "passed s' = passed s"
      using s' by (auto simp: rexec_advance [OF i(1) g(2)] simp del: rexec.simps)
    have "grace passed n s'"
      by (rule grace_advance [OF i(5,1) g(2) i(3,2) s']) (use i(4) g(3) e in \<open>auto simp: rnext_def simp del: rpos.simps\<close>)
    then show ?thesis using rnext_advance [OF i(4,1) g(2) s'] by (simp add: rinv2_def)
  qed
qed

lemma rreachable_inv2: "rreachable n s \<Longrightarrow> n \<le> 2 \<Longrightarrow> rinv2 n s"
proof (induction rule: rreachable.induct)
  case rreach_init
  have "\<not> rpos (rsys_init n) h p" for h p by (cases p) (simp_all add: rsys_init_def)
  then show ?case by (simp add: rinv2_def rnext_def grace_def del: rpos.simps)
next
  case (rreach_step s e s')
  then show ?case using rinv2_step rreachable_inv by blast
qed

section \<open>Runs\<close>

fun rruns :: "nat \<Rightarrow> revent list \<Rightarrow> rcu_sys \<Rightarrow> rcu_sys option" where
  "rruns n [] s = Some s"
| "rruns n (e # es) s = (if renabled n s e then Option.bind (rexec n e s) (rruns n es) else None)"

lemma rruns_reachable: "rreachable n s \<Longrightarrow> rruns n es s = Some s' \<Longrightarrow> rreachable n s'"
proof (induction es arbitrary: s)
  case (Cons e es)
  then obtain s1 where "renabled n s e" "rexec n e s = Some s1" "rruns n es s1 = Some s'"
    by (auto split: if_splits bind_splits)
  with Cons show ?case by (meson rreach_step)
qed simp

lemmas rinit_reachable = rruns_reachable [OF rreach_init]

lemmas rrun_simps = rsys_init_def rcu_init_def push_def quiet_announce_def cpu_bit_set_def silence_cpu_def
  generation_complete_def start_generation_def start_word_def quiet_run_def quiet_advance_def heads_def Let_def

definition quiet_events :: "nat \<Rightarrow> revent list" where
  "quiet_events k = [RAnnounce k, RRun k, RAdvance k]"

definition grace_run2 :: "revent list" where
  "grace_run2 = RPush 0 (7, 1) # quiet_events 0 @ quiet_events 1 @ quiet_events 0"

definition early_run :: "revent list" where
  "early_run = RPush 2 (1, 0) # quiet_events 2 @ quiet_events 1 @ RPush 0 (7, 1) # quiet_events 0
     @ quiet_events 2 @ quiet_events 0"

lemma grace_run2_end: "\<exists>s. rruns 2 grace_run2 (rsys_init 2) = Some s \<and> 7 \<in> heads (called s)"
  by (simp add: grace_run2_def quiet_events_def rrun_simps)

lemma early_run_end: "\<exists>s. rruns 3 early_run (rsys_init 3) = Some s \<and> 7 \<in> heads (called s) \<and> \<not> passed s 7 1"
  by (simp add: early_run_def quiet_events_def rrun_simps)

section \<open>Properties\<close>

text \<open>
  C10. Every callback handed to \<open>push\<close> is called at most once and is never lost: in every state,
  a callback that was pushed is in exactly one place, among those that were called, or in the
  current or the next batch of one CPU, and only pushed callbacks are anywhere; and the
  assertion in \<open>quiet\<close> holds in every interleaving, so each step of every CPU is defined.
\<close>

theorem rcu_called_once:
  assumes "rreachable n s"
  shows "distinct (map fst (called s)) \<and> (h \<in> heads (pushed s) \<longleftrightarrow> (\<exists>!p. rpos s h p))
    \<and> (renabled n s e \<longrightarrow> rexec n e s \<noteq> None)"
  using rreachable_inv [OF assms] rinv_step [of n s e] unfolding rinv_def rloc_def by blast

theorem rcu_called_once_witness:
  "\<exists>s. rruns 2 grace_run2 (rsys_init 2) = Some s \<and> 7 \<in> heads (called s) \<and> distinct (map fst (called s))"
  using grace_run2_end rcu_called_once [OF rinit_reachable] by blast





text \<open>
  C13. With three CPUs it is not. CPU 1 answers the running generation; CPU 0 then pushes a
  callback and queues it; CPU 2 answers, which ends the generation and, because both \<open>quiet\<close> and
  \<open>start_generation\<close> increment the counter, moves it on by two; CPU 0 calls the callback although
  CPU 1 has not entered \<open>quiet\<close> since the push and may still be reading the object.
\<close>

theorem rcu_early_callback_three_cpus:
  "\<exists>s. rreachable 3 s \<and> 7 \<in> heads (called s) \<and> \<not> passed s 7 1"
  using early_run_end rinit_reachable by blast

end
