(* ===== verification/CString.thy ===== *)
theory CString
  imports Prelude
begin

text \<open>
  The string and memory functions of the C library, \<open>libs/lib/libc/src/generic/string.c\<close>. Memory is a
  function from addresses to bytes; an address is a natural number, so no object wraps around
  the end of the address space. A null pointer as a result is \<open>None\<close>. A loop that runs to a
  terminating zero is a partial function: \<open>None\<close> means that it does not return.
\<close>

section \<open>Definitions\<close>

type_synonym mem = "nat \<Rightarrow> u8"

partial_function (option) strlen_from :: "mem \<Rightarrow> nat \<Rightarrow> nat \<Rightarrow> nat option" where
  "strlen_from m str sz = (if m (str + sz) \<noteq> 0 then strlen_from m str (sz + 1) else Some sz)"

definition strlen :: "mem \<Rightarrow> nat \<Rightarrow> nat option" where
  "strlen m str = strlen_from m str 0"

partial_function (option) strcpy_loop :: "mem \<Rightarrow> nat \<Rightarrow> nat \<Rightarrow> mem option" where
  "strcpy_loop m p source =
     (if m source \<noteq> 0 then strcpy_loop (m(p := m source)) (p + 1) (source + 1)
      else Some (m(p := 0)))"

definition strcpy :: "mem \<Rightarrow> nat \<Rightarrow> nat \<Rightarrow> (mem \<times> nat) option" where
  "strcpy m destination source = map_option (\<lambda>m'. (m', destination)) (strcpy_loop m destination source)"

fun memset_loop :: "mem \<Rightarrow> nat \<Rightarrow> u8 \<Rightarrow> nat \<Rightarrow> mem" where
  "memset_loop m s c 0 = m"
| "memset_loop m s c (Suc n) = memset_loop (m(s := c)) (s + 1) c n"

text \<open>\<open>strncpy\<close>: copy while there is room and no terminator, then fill the rest with zeros.\<close>

fun strncpy_loop :: "mem \<Rightarrow> nat \<Rightarrow> nat \<Rightarrow> nat \<Rightarrow> mem" where
  "strncpy_loop m p source 0 = m"
| "strncpy_loop m p source (Suc num) =
     (if m source \<noteq> 0 then strncpy_loop (m(p := m source)) (p + 1) (source + 1) num
      else memset_loop m p 0 (Suc num))"

definition strncpy :: "mem \<Rightarrow> nat \<Rightarrow> nat \<Rightarrow> nat \<Rightarrow> mem \<times> nat" where
  "strncpy m destination source num = (strncpy_loop m destination source num, destination)"

definition stpncpy :: "mem \<Rightarrow> nat \<Rightarrow> nat \<Rightarrow> nat \<Rightarrow> mem \<times> nat" where
  "stpncpy m dst src sz = (strncpy_loop m dst src sz, dst)"

partial_function (option) strcmp :: "mem \<Rightarrow> nat \<Rightarrow> nat \<Rightarrow> int option" where
  "strcmp m s1 s2 =
     (if m s1 = m s2 \<and> m s1 \<noteq> 0 then strcmp m (s1 + 1) (s2 + 1)
      else Some (uint (m s1) - uint (m s2)))"

function strncmp_loop :: "mem \<Rightarrow> nat \<Rightarrow> nat \<Rightarrow> nat \<Rightarrow> nat \<Rightarrow> nat" where
  "strncmp_loop m s1 s2 sz i =
     (if i < sz \<and> m (s1 + i) = m (s2 + i) \<and> m (s1 + i) \<noteq> 0
      then strncmp_loop m s1 s2 sz (i + 1) else i)"
  by pat_completeness auto
termination by (relation "measure (\<lambda>(m, s1, s2, sz, i). sz - i)") auto

definition strncmp :: "mem \<Rightarrow> nat \<Rightarrow> nat \<Rightarrow> nat \<Rightarrow> int" where
  "strncmp m s1 s2 sz =
     (let i = strncmp_loop m s1 s2 sz 0 in
      if i = sz then 0 else uint (m (s1 + i)) - uint (m (s2 + i)))"

fun memcpy_loop :: "mem \<Rightarrow> nat \<Rightarrow> nat \<Rightarrow> nat \<Rightarrow> mem" where
  "memcpy_loop m dest src 0 = m"
| "memcpy_loop m dest src (Suc n) = memcpy_loop (m(dest := m src)) (dest + 1) (src + 1) n"

definition memcpy :: "mem \<Rightarrow> nat \<Rightarrow> nat \<Rightarrow> nat \<Rightarrow> mem \<times> nat" where
  "memcpy m dest src n = (memcpy_loop m dest src n, dest)"

definition memset :: "mem \<Rightarrow> nat \<Rightarrow> int \<Rightarrow> nat \<Rightarrow> mem \<times> nat" where
  "memset m s c n = (memset_loop m s (word_of_int c) n, s)"

function memcmp_loop :: "mem \<Rightarrow> nat \<Rightarrow> nat \<Rightarrow> nat \<Rightarrow> nat \<Rightarrow> nat" where
  "memcmp_loop m s1 s2 n k =
     (if k < n \<and> m (s1 + k) = m (s2 + k) then memcmp_loop m s1 s2 n (k + 1) else k)"
  by pat_completeness auto
termination by (relation "measure (\<lambda>(m, s1, s2, n, k). n - k)") auto

definition memcmp :: "mem \<Rightarrow> nat \<Rightarrow> nat \<Rightarrow> nat \<Rightarrow> int" where
  "memcmp m s1 s2 n =
     (let k = memcmp_loop m s1 s2 n 0 in
      if k = n then 0 else if m (s1 + k) < m (s2 + k) then -1 else 1)"

function memmove_up :: "mem \<Rightarrow> nat \<Rightarrow> nat \<Rightarrow> nat \<Rightarrow> nat \<Rightarrow> mem" where
  "memmove_up m d s n i =
     (if i < n then memmove_up (m(d + i := m (s + i))) d s n (i + 1) else m)"
  by pat_completeness auto
termination by (relation "measure (\<lambda>(m, d, s, n, i). n - i)") auto

fun memmove_down :: "mem \<Rightarrow> nat \<Rightarrow> nat \<Rightarrow> nat \<Rightarrow> mem" where
  "memmove_down m d s 0 = m"
| "memmove_down m d s (Suc i) = memmove_down (m(d + i := m (s + i))) d s i"

definition memmove :: "mem \<Rightarrow> nat \<Rightarrow> nat \<Rightarrow> nat \<Rightarrow> mem \<times> nat" where
  "memmove m dest src n =
     (if dest < src then memmove_up m dest src n 0
      else if dest > src then memmove_down m dest src n
      else m, dest)"

partial_function (option) strchr_loop :: "mem \<Rightarrow> nat \<Rightarrow> u8 \<Rightarrow> nat option option" where
  "strchr_loop m str ch =
     (if m str \<noteq> 0
      then (if m str = ch then Some (Some str) else strchr_loop m (str + 1) ch)
      else Some (if ch = 0 then Some str else None))"

definition strchr :: "mem \<Rightarrow> nat \<Rightarrow> int \<Rightarrow> nat option option" where
  "strchr m str c = strchr_loop m str (word_of_int c)"

partial_function (option) strrchr_loop :: "mem \<Rightarrow> nat \<Rightarrow> u8 \<Rightarrow> nat option \<Rightarrow> nat option option" where
  "strrchr_loop m str ch last_occurrence =
     (if m str \<noteq> 0
      then strrchr_loop m (str + 1) ch (if m str = ch then Some str else last_occurrence)
      else Some (if ch = 0 then Some str else last_occurrence))"

definition strrchr :: "mem \<Rightarrow> nat \<Rightarrow> int \<Rightarrow> nat option option" where
  "strrchr m str c = strrchr_loop m str (word_of_int c) None"

text \<open>The inner loop of \<open>strspn\<close>, \<open>strcspn\<close> and \<open>strpbrk\<close>: is the byte one of the set?\<close>

partial_function (option) in_set_loop :: "mem \<Rightarrow> u8 \<Rightarrow> nat \<Rightarrow> bool option" where
  "in_set_loop m b s = (if m s \<noteq> 0 then (if b = m s then Some True else in_set_loop m b (s + 1)) else Some False)"

partial_function (option) strspn_loop :: "mem \<Rightarrow> nat \<Rightarrow> nat \<Rightarrow> nat \<Rightarrow> nat option" where
  "strspn_loop m str1 str2 i =
     (if m (str1 + i) \<noteq> 0
      then Option.bind (in_set_loop m (m (str1 + i)) str2)
             (\<lambda>found. if found then Some i else strspn_loop m str1 str2 (i + 1))
      else Some i)"

definition strspn :: "mem \<Rightarrow> nat \<Rightarrow> nat \<Rightarrow> nat option" where
  "strspn m str1 str2 = strspn_loop m str1 str2 0"

partial_function (option) strcspn_loop :: "mem \<Rightarrow> nat \<Rightarrow> nat \<Rightarrow> nat \<Rightarrow> nat option" where
  "strcspn_loop m s1 s2 i =
     (if m (s1 + i) \<noteq> 0
      then Option.bind (in_set_loop m (m (s1 + i)) s2)
             (\<lambda>found. if found then Some i else strcspn_loop m s1 s2 (i + 1))
      else Some i)"

definition strcspn :: "mem \<Rightarrow> nat \<Rightarrow> nat \<Rightarrow> nat option" where
  "strcspn m s1 s2 = strcspn_loop m s1 s2 0"

partial_function (option) strpbrk :: "mem \<Rightarrow> nat \<Rightarrow> nat \<Rightarrow> nat option option" where
  "strpbrk m s1 charset =
     (if m s1 \<noteq> 0
      then Option.bind (in_set_loop m (m s1) charset)
             (\<lambda>found. if found then Some (Some s1) else strpbrk m (s1 + 1) charset)
      else Some None)"

text \<open>
  \<open>strtok_r\<close>: the context \<open>*saveptr\<close> is passed and returned. The result is the token, the new
  context and the memory.
\<close>

definition strtok_r :: "mem \<Rightarrow> nat option \<Rightarrow> nat \<Rightarrow> nat option \<Rightarrow> (nat option \<times> nat option \<times> mem) option" where
  "strtok_r m str delim saveptr =
     (case (case str of Some s \<Rightarrow> Some s | None \<Rightarrow> saveptr) of
        None \<Rightarrow> Some (None, None, m)
      | Some token_start \<Rightarrow>
          map_option (\<lambda>delim_pos. case delim_pos of
              Some p \<Rightarrow> (Some token_start, Some (p + 1), m(p := 0))
            | None \<Rightarrow> (Some token_start, None, m)) (strpbrk m token_start delim))"

definition strtok :: "mem \<Rightarrow> nat option \<Rightarrow> nat \<Rightarrow> nat option \<Rightarrow> (nat option \<times> nat option \<times> mem) option" where
  "strtok m str delim saveptr =
     (case (case str of Some s \<Rightarrow> Some s | None \<Rightarrow> saveptr) of
        None \<Rightarrow> Some (None, None, m)
      | Some p0 \<Rightarrow>
          do { k \<leftarrow> strspn m p0 delim;
               let token_start = p0 + k;
               if m token_start = 0 then Some (None, None, m)
               else map_option (\<lambda>delim_pos. case delim_pos of
                        Some p \<Rightarrow> (Some token_start, Some (p + 1), m(p := 0))
                      | None \<Rightarrow> (Some token_start, None, m)) (strpbrk m token_start delim) })"

text \<open>\<open>malloc\<close> is not part of this file: its result is an argument, \<open>None\<close> for a null pointer.\<close>

definition strdup :: "(nat \<Rightarrow> nat option) \<Rightarrow> mem \<Rightarrow> nat \<Rightarrow> (nat option \<times> mem) option" where
  "strdup malloc m str =
     map_option (\<lambda>l. case malloc (l + 1) of
         None \<Rightarrow> (None, m)
       | Some duplicate \<Rightarrow> (Some duplicate, fst (memcpy m duplicate str (l + 1)))) (strlen m str)"

definition strndup :: "(nat \<Rightarrow> nat option) \<Rightarrow> mem \<Rightarrow> nat \<Rightarrow> nat \<Rightarrow> (nat option \<times> mem) option" where
  "strndup malloc m str s =
     map_option (\<lambda>l0. let l = (if l0 > s then s else l0) in
       case malloc (l + 1) of
         None \<Rightarrow> (None, m)
       | Some duplicate \<Rightarrow>
           (Some duplicate, (fst (memcpy m duplicate str l))(duplicate + l := 0))) (strlen m str)"

function strnlen_loop :: "mem \<Rightarrow> nat \<Rightarrow> nat \<Rightarrow> nat \<Rightarrow> nat" where
  "strnlen_loop m str maxlen l =
     (if l < maxlen \<and> m (str + l) \<noteq> 0 then strnlen_loop m str maxlen (l + 1) else l)"
  by pat_completeness auto
termination by (relation "measure (\<lambda>(m, str, maxlen, l). maxlen - l)") auto

definition strnlen :: "mem \<Rightarrow> nat \<Rightarrow> nat \<Rightarrow> nat" where
  "strnlen m str maxlen = strnlen_loop m str maxlen 0"

fun memccpy_loop :: "mem \<Rightarrow> nat \<Rightarrow> nat \<Rightarrow> u8 \<Rightarrow> nat \<Rightarrow> nat option \<times> mem" where
  "memccpy_loop m d s c 0 = (None, m)"
| "memccpy_loop m d s c (Suc n) =
     (let m1 = m(d := m s) in
      if m1 s = c then (Some (d + 1), m1) else memccpy_loop m1 (d + 1) (s + 1) c n)"

definition memccpy :: "mem \<Rightarrow> nat \<Rightarrow> nat \<Rightarrow> int \<Rightarrow> nat \<Rightarrow> nat option \<times> mem" where
  "memccpy m dest src c n = memccpy_loop m dest src (word_of_int c) n"

fun memchr_loop :: "mem \<Rightarrow> nat \<Rightarrow> u8 \<Rightarrow> nat \<Rightarrow> nat option" where
  "memchr_loop m p c 0 = None"
| "memchr_loop m p c (Suc n) = (if m p = c then Some p else memchr_loop m (p + 1) c n)"

definition memchr :: "mem \<Rightarrow> nat \<Rightarrow> int \<Rightarrow> nat \<Rightarrow> nat option" where
  "memchr m s c n = memchr_loop m s (word_of_int c) n"

partial_function (option) strstr_match :: "mem \<Rightarrow> nat \<Rightarrow> nat \<Rightarrow> bool option" where
  "strstr_match m s1 c1 =
     (if m s1 \<noteq> 0 \<and> m c1 \<noteq> 0 \<and> m s1 = m c1 then strstr_match m (s1 + 1) (c1 + 1)
      else Some (m c1 = 0))"

partial_function (option) strstr_loop :: "mem \<Rightarrow> nat \<Rightarrow> nat \<Rightarrow> nat option option" where
  "strstr_loop m s c =
     (if m s \<noteq> 0
      then Option.bind (if m s = m c then strstr_match m s c else Some False)
             (\<lambda>found. if found then Some (Some s) else strstr_loop m (s + 1) c)
      else Some None)"

definition strstr :: "mem \<Rightarrow> nat \<Rightarrow> nat \<Rightarrow> nat option option" where
  "strstr m s cc = (if m cc = 0 then Some (Some s) else strstr_loop m s cc)"

section \<open>Error messages\<close>

text \<open>
  The table \<open>error_msgs\<close> by error number, the numbers being those of \<open>errno.h\<close>. A designated
  initialiser leaves the numbers it does not name null.
\<close>

definition error_msgs :: "(nat \<times> string) list" where
  "error_msgs =
   [(0, ''No error''), (4, ''Argument list too long''), (5, ''Permission denied''),
    (6, ''Address already in use''), (7, ''Cannot assign requested address''),
    (8, ''Address family not supported''), (9, ''Resource temporarily unavailable''),
    (10, ''Operation already in progress''), (11, ''Bad file descriptor''),
    (12, ''Bad message''), (13, ''Device or resource busy''), (14, ''Operation canceled''),
    (15, ''No child processes''), (16, ''Connection aborted''), (17, ''Connection refused''),
    (18, ''Connection reset''), (19, ''Resource deadlock would occur''),
    (20, ''Destination address required''),
    (21, ''Mathematics argument out of domain of function''), (22, ''Disk quota exceeded''),
    (23, ''File exists''), (24, ''Bad address''), (25, ''File too large''),
    (26, ''Host is unreachable''), (27, ''Identifier removed''),
    (28, ''Illegal byte sequence''), (29, ''Operation in progress''), (30, ''Interrupted''),
    (31, ''Invalid argument''), (32, ''Input/output error''),
    (33, ''Socket is already connected''), (34, ''Is a directory''),
    (35, ''Too many levels of symbolic links''), (36, ''Too many open files''),
    (37, ''Too many links''), (38, ''Message too large''), (39, ''Reserved''),
    (40, ''File name too long''), (41, ''Network is down''),
    (42, ''Connection aborted by network''), (43, ''Network unreachable''),
    (44, ''Too many files open in system''), (45, ''No buffer space available''),
    (47, ''No such device''), (48, ''No such file or directory''), (49, ''Exec format error''),
    (51, ''No locks available''), (52, ''Not enough memory''),
    (53, ''No message of the desired type''), (54, ''Protocol not available''),
    (55, ''No space left on device''), (58, ''Functionality not supported''),
    (59, ''Socket is not connected''), (60, ''Not a directory''), (61, ''Directory not empty''),
    (62, ''State not recoverable''), (63, ''Not a socket''), (64, ''Not supported''),
    (65, ''Inappropriate I/O control operation''), (66, ''No such device or address''),
    (68, ''Value too large for defined data type''), (69, ''Previous owner died''),
    (70, ''Operation not permitted''), (71, ''Broken pipe''), (72, ''Protocol error''),
    (73, ''Protocol not supported''), (74, ''Protocol wrong type for socket''),
    (75, ''Result out of range''), (76, ''Read-only file system''), (77, ''Invalid seek''),
    (78, ''No such process''), (79, ''Reserved''), (80, ''Connection timed out''),
    (81, ''Text file busy''), (82, ''Operation would block''), (83, ''Cross-device link'')]"

definition error_msgs_size :: int where "error_msgs_size = 84"

text \<open>The message, \<open>None\<close> for a null pointer, and whether \<open>errno\<close> is set to \<open>EINVAL\<close>.\<close>

definition strerror :: "int \<Rightarrow> string option \<times> errno option" where
  "strerror errnum =
     (if errnum < 0 \<or> errnum \<ge> error_msgs_size then (Some ''Unknown error'', Some EINVAL)
      else (map_of error_msgs (nat errnum), None))"

text \<open>
  \<open>msg_at\<close> is where the message of a number is in memory; reading from a null message is a
  fault, \<open>None\<close>.
\<close>

definition strerror_r :: "(nat \<Rightarrow> nat option) \<Rightarrow> mem \<Rightarrow> int \<Rightarrow> nat \<Rightarrow> nat \<Rightarrow> (errno option \<times> mem) option" where
  "strerror_r msg_at m errnum buf buflen =
     (if errnum < 0 \<or> errnum \<ge> error_msgs_size then Some (Some EINVAL, m)
      else if buflen = 0 then Some (None, m)
      else map_option (\<lambda>msg. (None, fst (strncpy m buf msg buflen))) (msg_at (nat errnum)))"

end
