(* ===== verification/CString_Props.thy ===== *)
theory CString_Props
  imports CString "HOL-Library.Sublist"
begin

text \<open>
  What the string functions compute. \<open>cstr m p bs\<close> says that the zero-terminated string at \<open>p\<close> is
  \<open>bs\<close>; \<open>bytes m p n\<close> is the block of \<open>n\<close> bytes at \<open>p\<close>, and \<open>put m p bs\<close> the memory with the block
  \<open>bs\<close> written at \<open>p\<close>. Every writing function is shown to be a \<open>put\<close>, so what it leaves alone is
  part of each statement.
\<close>

section \<open>Strings and blocks in memory\<close>

fun cstr :: "mem \<Rightarrow> nat \<Rightarrow> u8 list \<Rightarrow> bool" where
  "cstr m p [] \<longleftrightarrow> m p = 0"
| "cstr m p (b # bs) \<longleftrightarrow> b \<noteq> 0 \<and> m p = b \<and> cstr m (p + 1) bs"

definition bytes :: "mem \<Rightarrow> nat \<Rightarrow> nat \<Rightarrow> u8 list" where
  "bytes m p n = map m [p..<p + n]"

definition put :: "mem \<Rightarrow> nat \<Rightarrow> u8 list \<Rightarrow> mem" where
  "put m p bs = (\<lambda>a. if p \<le> a \<and> a < p + length bs then bs ! (a - p) else m a)"

text \<open>A memory holding given blocks, zero elsewhere, for the examples.\<close>

definition mem_of :: "(nat \<times> u8 list) list \<Rightarrow> mem" where
  "mem_of blocks = foldr (\<lambda>(p, bs) m. put m p bs) blocks (\<lambda>_. 0)"

definition text_mem :: mem where
  "text_mem = mem_of [(10, [97, 98, 97, 99, 0]), (20, [97, 99, 0]), (30, [97, 44, 98, 0]), (40, [44, 0])]"

declare strncmp_loop.simps [simp del] memcmp_loop.simps [simp del] memmove_up.simps [simp del]
  strnlen_loop.simps [simp del]

lemma put_Nil [simp]: "put m p [] = m"
  by (auto simp: put_def fun_eq_iff)

lemma put_Cons: "put m p (b # bs) = put (m(p := b)) (p + 1) bs"
  by (auto simp: put_def fun_eq_iff nth_Cons')

lemma put_snoc: "put m p (bs @ [b]) = (put m p bs)(p + length bs := b)"
  by (auto simp: put_def fun_eq_iff nth_append)

lemma put_outside: "a < p \<or> p + length bs \<le> a \<Longrightarrow> put m p bs a = m a"
  by (auto simp: put_def)

lemma put_inside: "i < length bs \<Longrightarrow> put m p bs (p + i) = bs ! i"
  by (simp add: put_def)

lemma bytes_0 [simp]: "bytes m p 0 = []"
  by (simp add: bytes_def)

lemma bytes_Suc: "bytes m p (Suc n) = m p # bytes m (p + 1) n"
  by (simp add: bytes_def upt_conv_Cons del: upt_Suc)

lemma length_bytes [simp]: "length (bytes m p n) = n"
  by (simp add: bytes_def)

lemma nth_bytes [simp]: "i < n \<Longrightarrow> bytes m p n ! i = m (p + i)"
  by (simp add: bytes_def)

lemma bytes_put: "n = length bs \<Longrightarrow> bytes (put m p bs) p n = bs"
  by (auto simp: list_eq_iff_nth_eq put_inside)

lemma cstr_nth:
  "cstr m p bs \<longleftrightarrow> (\<forall>i < length bs. m (p + i) = bs ! i \<and> bs ! i \<noteq> 0) \<and> m (p + length bs) = 0"
  by (induction bs arbitrary: p) (auto simp: All_less_Suc2)

lemma cstr_cong:
  "(\<And>i. i \<le> length bs \<Longrightarrow> m' (p + i) = m (p + i)) \<Longrightarrow> cstr m' p bs = cstr m p bs"
  by (auto simp: cstr_nth)

lemma cstr_put: "0 \<notin> set bs \<Longrightarrow> cstr (put m p (bs @ [0])) p bs"
  by (auto simp: cstr_nth put_def nth_append in_set_conv_nth)

lemma cstr_nonzero: "cstr m p bs \<Longrightarrow> 0 \<notin> set bs"
  by (induction bs arbitrary: p) auto

lemma cstr_drop: "cstr m p bs \<Longrightarrow> i \<le> length bs \<Longrightarrow> cstr m (p + i) (drop i bs)"
  by (auto simp: cstr_nth add.assoc)

lemma cstr_unique: "cstr m p bs \<Longrightarrow> cstr m p cs \<Longrightarrow> bs = cs"
proof (induction bs arbitrary: p cs)
  case Nil
  then show ?case by (cases cs) auto
next
  case (Cons b bs)
  then show ?case by (cases cs) auto
qed

section \<open>Length and comparison\<close>

lemma strlen_from_cstr: "cstr m (p + k) bs \<Longrightarrow> strlen_from m p k = Some (k + length bs)"
proof (induction bs arbitrary: k)
  case Nil
  then show ?case by (subst strlen_from.simps) simp
next
  case (Cons b bs)
  then have "strlen_from m p (k + 1) = Some (k + 1 + length bs)" by (intro Cons.IH) (simp add: add.assoc)
  then show ?case using Cons.prems by (subst strlen_from.simps) simp
qed

lemma strlen_cstr: "cstr m p bs \<Longrightarrow> strlen m p = Some (length bs)"
  using strlen_from_cstr [of m p 0 bs] by (simp add: strlen_def)

fun byte_order :: "u8 list \<Rightarrow> u8 list \<Rightarrow> int" where
  "byte_order [] [] = 0"
| "byte_order [] (b # bs) = - uint b"
| "byte_order (a # as) [] = uint a"
| "byte_order (a # as) (b # bs) = (if a = b then byte_order as bs else uint a - uint b)"

lemma strcmp_cstr: "cstr m p as \<Longrightarrow> cstr m q bs \<Longrightarrow> strcmp m p q = Some (byte_order as bs)"
proof (induction as bs arbitrary: p q rule: byte_order.induct)
  case (4 a as b bs)
  then show ?case by (subst strcmp.simps) auto
qed (subst strcmp.simps, auto)+

lemma byte_order_sign:
  "0 \<notin> set as \<Longrightarrow> 0 \<notin> set bs \<Longrightarrow>
     (byte_order as bs = 0 \<longleftrightarrow> as = bs) \<and> (byte_order as bs < 0 \<longleftrightarrow> ord_class.lexordp as bs)"
proof (induction as bs rule: byte_order.induct)
  case (2 b bs)
  then have "0 < uint b" by (simp add: word_gt_0 flip: word_less_def [of 0, simplified])
  then show ?case by simp
next
  case (3 a as)
  then have "0 < uint a" by (simp add: word_gt_0 flip: word_less_def [of 0, simplified])
  then show ?case by simp
next
  case (4 a as b bs)
  then show ?case by (auto simp: word_less_def word_uint_eq_iff)
qed simp

lemma strncmp_loop_cstr:
  "cstr m (p + i) as \<Longrightarrow> cstr m (q + i) bs \<Longrightarrow> i \<le> n \<Longrightarrow>
     (let r = strncmp_loop m p q n i in if r = n then 0 else uint (m (p + r)) - uint (m (q + r)))
     = byte_order (take (n - i) as) (take (n - i) bs)"
proof (induction as bs arbitrary: i rule: byte_order.induct)
  case 1
  then show ?case by (subst strncmp_loop.simps) auto
next
  case (2 b bs)
  then have "strncmp_loop m p q n i = i" by (subst strncmp_loop.simps) auto
  then show ?case using 2 by (cases "n - i") auto
next
  case (3 a as)
  then have "strncmp_loop m p q n i = i" by (subst strncmp_loop.simps) auto
  then show ?case using 3 by (cases "n - i") auto
next
  case (4 a as b bs)
  show ?case
  proof (cases "i < n \<and> a = b")
    case True
    then have "strncmp_loop m p q n i = strncmp_loop m p q n (i + 1)"
      using "4.prems" by (subst strncmp_loop.simps) simp
    moreover have "n - i = Suc (n - (i + 1))" using True by (simp add: Suc_diff_Suc)
    moreover have "cstr m (p + (i + 1)) as" "cstr m (q + (i + 1)) bs" "i + 1 \<le> n"
      using "4.prems" True by (simp_all add: add.assoc)
    ultimately show ?thesis using "4.IH" [of "i + 1"] True by simp
  next
    case False
    then have "strncmp_loop m p q n i = i" using "4.prems" by (subst strncmp_loop.simps) auto
    then show ?thesis using "4.prems" False by (cases "n - i") auto
  qed
qed

lemma strncmp_cstr:
  "cstr m p as \<Longrightarrow> cstr m q bs \<Longrightarrow> strncmp m p q n = byte_order (take n as) (take n bs)"
  using strncmp_loop_cstr [of m p 0 as q bs n] by (simp add: strncmp_def)

lemma memcmp_loop_spec:
  "k \<le> n \<Longrightarrow> k \<le> memcmp_loop m p q n k \<and> memcmp_loop m p q n k \<le> n
     \<and> (\<forall>i. k \<le> i \<longrightarrow> i < memcmp_loop m p q n k \<longrightarrow> m (p + i) = m (q + i))
     \<and> (memcmp_loop m p q n k < n \<longrightarrow> m (p + memcmp_loop m p q n k) \<noteq> m (q + memcmp_loop m p q n k))"
proof (induction "n - k" arbitrary: k)
  case 0
  then have "memcmp_loop m p q n k = k" by (subst memcmp_loop.simps) simp
  then show ?case using 0 by simp
next
  case (Suc l)
  show ?case
  proof (cases "m (p + k) = m (q + k)")
    case True
    have "k < n" using Suc.hyps(2) by simp
    then have e: "memcmp_loop m p q n k = memcmp_loop m p q n (k + 1)"
      using True by (subst memcmp_loop.simps) simp
    have IH: "k + 1 \<le> memcmp_loop m p q n (k + 1) \<and> memcmp_loop m p q n (k + 1) \<le> n
      \<and> (\<forall>i. k + 1 \<le> i \<longrightarrow> i < memcmp_loop m p q n (k + 1) \<longrightarrow> m (p + i) = m (q + i))
      \<and> (memcmp_loop m p q n (k + 1) < n \<longrightarrow> m (p + memcmp_loop m p q n (k + 1)) \<noteq> m (q + memcmp_loop m p q n (k + 1)))"
      using Suc \<open>k < n\<close> by (intro Suc.hyps(1)) auto
    moreover have "m (p + i) = m (q + i)" if "k \<le> i" "i < memcmp_loop m p q n (k + 1)" for i
      using that IH True by (cases "i = k") auto
    ultimately show ?thesis unfolding e by auto
  next
    case False
    then have "memcmp_loop m p q n k = k" by (subst memcmp_loop.simps) simp
    then show ?thesis using False Suc.prems by simp
  qed
qed

lemma lexordp_first_difference:
  fixes xs ys :: "u8 list"
  shows "r < length xs \<Longrightarrow> length xs = length ys \<Longrightarrow> \<forall>i < r. xs ! i = ys ! i \<Longrightarrow> xs ! r \<noteq> ys ! r \<Longrightarrow>
     ord_class.lexordp xs ys \<longleftrightarrow> xs ! r < ys ! r"
proof (induction xs ys arbitrary: r rule: list_induct2')
  case (4 x xs y ys)
  then show ?case by (cases r) (auto simp: All_less_Suc2)
qed simp_all

lemma memcmp_bytes:
  "(memcmp m p q n = 0 \<longleftrightarrow> bytes m p n = bytes m q n) \<and> (memcmp m p q n < 0 \<longleftrightarrow> ord_class.lexordp (bytes m p n) (bytes m q n))"
proof -
  let ?r = "memcmp_loop m p q n 0"
  note r = memcmp_loop_spec [of 0 n m p q]
  show ?thesis
  proof (cases "?r = n")
    case True
    then have "bytes m p n = bytes m q n" using r by (auto simp: list_eq_iff_nth_eq)
    then show ?thesis using True by (simp add: memcmp_def lexordp_irreflexive')
  next
    case False
    then have "?r < n" using r by simp
    then have d: "bytes m p n ! ?r \<noteq> bytes m q n ! ?r" "\<forall>i < ?r. bytes m p n ! i = bytes m q n ! i"
      using r by auto
    then have "bytes m p n \<noteq> bytes m q n" by metis
    with d show ?thesis using lexordp_first_difference [of ?r "bytes m p n" "bytes m q n"] \<open>?r < n\<close> False
      by (auto simp: memcmp_def Let_def)
  qed
qed

section \<open>Copying\<close>

lemma memset_loop_put: "memset_loop m s c n = put m s (replicate n c)"
  by (induction n arbitrary: m s) (simp_all add: put_Cons)

lemma bytes_upd: "a < p \<or> p + n \<le> a \<Longrightarrow> bytes (m(a := v)) p n = bytes m p n"
  by (auto simp: bytes_def)

lemma bytes_Suc_last: "bytes m p (Suc n) = bytes m p n @ [m (p + n)]"
  by (simp add: bytes_def)

lemma memcpy_loop_put: "d \<le> s \<or> s + n \<le> d \<Longrightarrow> memcpy_loop m d s n = put m d (bytes m s n)"
proof (induction n arbitrary: m d s)
  case (Suc n)
  then have "memcpy_loop (m(d := m s)) (d + 1) (s + 1) n = put (m(d := m s)) (d + 1) (bytes (m(d := m s)) (s + 1) n)"
    by (intro Suc.IH) auto
  moreover have "bytes (m(d := m s)) (s + 1) n = bytes m (s + 1) n"
    using Suc.prems by (intro bytes_upd) auto
  ultimately show ?case by (simp add: put_Cons bytes_Suc)
qed simp

lemma memmove_up_memcpy: "i \<le> n \<Longrightarrow> memmove_up m d s n i = memcpy_loop m (d + i) (s + i) (n - i)"
proof (induction "n - i" arbitrary: i m)
  case 0
  then show ?case by (simp add: memmove_up.simps)
next
  case (Suc k)
  then have "i < n" by simp
  then have "memmove_up m d s n i = memmove_up (m(d + i := m (s + i))) d s n (i + 1)"
    by (subst memmove_up.simps) simp
  also have "\<dots> = memcpy_loop (m(d + i := m (s + i))) (d + (i + 1)) (s + (i + 1)) (n - (i + 1))"
    using Suc by (intro Suc.hyps(1)) auto
  also have "\<dots> = memcpy_loop m (d + i) (s + i) (Suc (n - (i + 1)))" by simp
  finally show ?case using \<open>i < n\<close> by (simp add: Suc_diff_Suc)
qed

lemma put_upd_end: "put (m(p + length bs := v)) p bs = (put m p bs)(p + length bs := v)"
  by (auto simp: put_def fun_eq_iff)

lemma memmove_down_put: "s \<le> d \<Longrightarrow> memmove_down m d s n = put m d (bytes m s n)"
proof (induction n arbitrary: m)
  case (Suc n)
  have "memmove_down m d s (Suc n) = put (m(d + n := m (s + n))) d (bytes (m(d + n := m (s + n))) s n)"
    using Suc by simp
  also have "bytes (m(d + n := m (s + n))) s n = bytes m s n" using Suc.prems by (intro bytes_upd) auto
  also have "put (m(d + n := m (s + n))) d (bytes m s n) = (put m d (bytes m s n))(d + n := m (s + n))"
    using put_upd_end [of m d "bytes m s n"] by simp
  also have "\<dots> = put m d (bytes m s (Suc n))"
    unfolding bytes_Suc_last put_snoc by simp
  finally show ?case .
qed simp

lemma put_self: "put m p (bytes m p n) = m"
  by (auto simp: put_def fun_eq_iff)

lemma memmove_put: "memmove m d s n = (put m d (bytes m s n), d)"
  using memmove_up_memcpy [of 0 n m d s] memcpy_loop_put [of d s n m] memmove_down_put [of s d m n] put_self [of m d n]
  by (auto simp: memmove_def)

lemma cstr_upd: "d < p \<or> p + length bs < d \<Longrightarrow> cstr (m(d := v)) p bs = cstr m p bs"
  by (rule cstr_cong) auto

lemma strcpy_loop_put:
  "cstr m s bs \<Longrightarrow> d \<le> s \<or> s + length bs < d \<Longrightarrow> strcpy_loop m d s = Some (put m d (bs @ [0]))"
proof (induction bs arbitrary: m d s)
  case Nil
  then show ?case by (subst strcpy_loop.simps) (simp add: put_Cons)
next
  case (Cons b bs)
  have "cstr (m(d := b)) (s + 1) bs"
    using Cons.prems cstr_upd [of d "s + 1" bs m b] by auto
  then have "strcpy_loop (m(d := b)) (d + 1) (s + 1) = Some (put (m(d := b)) (d + 1) (bs @ [0]))"
    by (rule Cons.IH) (use Cons.prems(2) in auto)
  then show ?case using Cons.prems(1) by (subst strcpy_loop.simps) (simp add: put_Cons)
qed

lemma strncpy_loop_put:
  "cstr m s bs \<Longrightarrow> d \<le> s \<or> s + length bs < d \<Longrightarrow>
     strncpy_loop m d s n = put m d (take n bs @ replicate (n - length bs) 0)"
proof (induction n arbitrary: m d s bs)
  case (Suc n)
  show ?case
  proof (cases bs)
    case Nil
    then show ?thesis using Suc.prems by (simp add: memset_loop_put put_Cons)
  next
    case (Cons b bs')
    have "cstr (m(d := b)) (s + 1) bs'"
      using Suc.prems Cons cstr_upd [of d "s + 1" bs' m b] by auto
    then have "strncpy_loop (m(d := b)) (d + 1) (s + 1) n
        = put (m(d := b)) (d + 1) (take n bs' @ replicate (n - length bs') 0)"
      by (rule Suc.IH) (use Suc.prems(2) Cons in auto)
    then show ?thesis using Suc.prems(1) Cons by (auto simp: put_Cons)
  qed
qed simp

section \<open>Searching\<close>

fun index_of :: "u8 \<Rightarrow> u8 list \<Rightarrow> nat option" where
  "index_of x [] = None"
| "index_of x (y # ys) = (if y = x then Some 0 else map_option Suc (index_of x ys))"

fun last_index_of :: "u8 \<Rightarrow> u8 list \<Rightarrow> nat option" where
  "last_index_of x [] = None"
| "last_index_of x (y # ys) =
     (case last_index_of x ys of Some i \<Rightarrow> Some (Suc i) | None \<Rightarrow> if y = x then Some 0 else None)"

lemma index_of_Some:
  "index_of x ys = Some i \<longleftrightarrow> i < length ys \<and> ys ! i = x \<and> (\<forall>j < i. ys ! j \<noteq> x)"
proof (induction ys arbitrary: i)
  case (Cons y ys)
  show ?case
  proof (cases i)
    case 0
    then show ?thesis by auto
  next
    case (Suc k)
    then show ?thesis using Cons by (auto simp: All_less_Suc2)
  qed
qed simp

lemma index_of_None: "index_of x ys = None \<longleftrightarrow> x \<notin> set ys"
  by (induction ys) auto

lemma last_index_of_None: "last_index_of x ys = None \<longleftrightarrow> x \<notin> set ys"
  by (induction ys) (auto split: option.splits)

lemma all_between_Suc:
  "(\<forall>j. k < j \<longrightarrow> j < Suc n \<longrightarrow> P j) \<longleftrightarrow> (\<forall>j. k \<le> j \<longrightarrow> j < n \<longrightarrow> P (Suc j))"
proof safe
  fix j assume "\<forall>j. k \<le> j \<longrightarrow> j < n \<longrightarrow> P (Suc j)" "k < j" "j < Suc n"
  then show "P j" by (cases j) auto
qed auto

lemma last_index_of_Some:
  "last_index_of x ys = Some i \<longleftrightarrow> i < length ys \<and> ys ! i = x \<and> (\<forall>j. i < j \<longrightarrow> j < length ys \<longrightarrow> ys ! j \<noteq> x)"
proof (induction ys arbitrary: i)
  case (Cons y ys)
  show ?case
  proof (cases i)
    case 0
    have "(\<forall>j. 0 < j \<longrightarrow> j < Suc (length ys) \<longrightarrow> (y # ys) ! j \<noteq> x) \<longleftrightarrow> x \<notin> set ys"
      by (simp add: all_between_Suc in_set_conv_nth)
    then show ?thesis using 0 last_index_of_None [of x ys] by (auto split: option.split)
  next
    case (Suc k)
    have "(\<forall>j. Suc k < j \<longrightarrow> j < Suc (length ys) \<longrightarrow> (y # ys) ! j \<noteq> x)
        \<longleftrightarrow> (\<forall>j. k < j \<longrightarrow> j < length ys \<longrightarrow> ys ! j \<noteq> x)"
      by (simp add: all_between_Suc Suc_le_eq)
    moreover have "last_index_of x (y # ys) = Some (Suc k) \<longleftrightarrow> last_index_of x ys = Some k"
      by (simp split: option.split)
    ultimately show ?thesis unfolding Suc Cons.IH by simp
  qed
qed simp

lemma map_option_Suc [simp]: "map_option ((+) (Suc p)) x = map_option (\<lambda>i. Suc (p + i)) x"
  by (cases x) simp_all

lemma strchr_loop_cstr:
  "cstr m p bs \<Longrightarrow> strchr_loop m p ch = Some (map_option (\<lambda>i. p + i) (index_of ch (bs @ [0])))"
proof (induction bs arbitrary: p)
  case Nil
  then show ?case by (subst strchr_loop.simps) auto
next
  case (Cons b bs)
  then show ?case by (subst strchr_loop.simps) (auto simp: option.map_comp comp_def)
qed

lemma strrchr_loop_cstr:
  "cstr m p bs \<Longrightarrow> strrchr_loop m p ch l =
     Some (case last_index_of ch (bs @ [0]) of Some i \<Rightarrow> Some (p + i) | None \<Rightarrow> l)"
proof (induction bs arbitrary: p l)
  case Nil
  then show ?case by (subst strrchr_loop.simps) auto
next
  case (Cons b bs)
  then show ?case by (subst strrchr_loop.simps) (auto split: option.split)
qed

lemma memchr_loop_bytes: "memchr_loop m p c n = map_option (\<lambda>i. p + i) (index_of c (bytes m p n))"
  by (induction n arbitrary: p) (auto simp: bytes_Suc option.map_comp comp_def)

lemma in_set_loop_cstr: "cstr m s cs \<Longrightarrow> in_set_loop m b s = Some (b \<in> set cs)"
proof (induction cs arbitrary: s)
  case Nil
  then show ?case by (subst in_set_loop.simps) simp
next
  case (Cons c cs)
  then show ?case by (subst in_set_loop.simps) auto
qed

lemma strcspn_loop_cstr:
  "cstr m (p + k) bs \<Longrightarrow> cstr m q cs \<Longrightarrow>
     strcspn_loop m p q k = Some (k + length (takeWhile (\<lambda>b. b \<notin> set cs) bs))"
proof (induction bs arbitrary: k)
  case Nil
  then show ?case by (subst strcspn_loop.simps) simp
next
  case (Cons b bs)
  then have "strcspn_loop m p q (k + 1) = Some (k + 1 + length (takeWhile (\<lambda>b. b \<notin> set cs) bs))"
    by (intro Cons.IH) (simp_all add: add.assoc)
  then show ?case using Cons.prems by (subst strcspn_loop.simps) (simp add: in_set_loop_cstr)
qed

lemma strspn_loop_cstr:
  "cstr m (p + k) bs \<Longrightarrow> cstr m q cs \<Longrightarrow> strspn_loop m p q k = strcspn_loop m p q k"
proof (induction bs arbitrary: k)
  case Nil
  then show ?case by (subst strspn_loop.simps, subst strcspn_loop.simps) simp
next
  case (Cons b bs)
  then have "strspn_loop m p q (k + 1) = strcspn_loop m p q (k + 1)"
    by (intro Cons.IH) (simp_all add: add.assoc)
  then show ?case by (subst strspn_loop.simps, subst strcspn_loop.simps) (simp cong: if_cong)
qed

lemma strpbrk_cstr:
  "cstr m p bs \<Longrightarrow> cstr m q cs \<Longrightarrow> strpbrk m p q =
     Some (let k = length (takeWhile (\<lambda>b. b \<notin> set cs) bs) in if k < length bs then Some (p + k) else None)"
proof (induction bs arbitrary: p)
  case Nil
  then show ?case by (subst strpbrk.simps) simp
next
  case (Cons b bs)
  then show ?case by (subst strpbrk.simps) (auto simp: in_set_loop_cstr Let_def)
qed

fun find_sub :: "u8 list \<Rightarrow> u8 list \<Rightarrow> nat option" where
  "find_sub cc [] = (if cc = [] then Some 0 else None)"
| "find_sub cc (b # bs) = (if prefix cc (b # bs) then Some 0 else map_option Suc (find_sub cc bs))"

lemma find_sub_Some:
  "find_sub cc bs = Some i \<longleftrightarrow> i \<le> length bs \<and> prefix cc (drop i bs) \<and> (\<forall>j < i. \<not> prefix cc (drop j bs))"
proof (induction bs arbitrary: i)
  case (Cons b bs)
  then show ?case by (cases i) (auto simp: All_less_Suc2)
qed auto

lemma find_sub_None: "find_sub cc bs = None \<longleftrightarrow> \<not> sublist cc bs"
  by (induction bs) (auto simp: sublist_Cons_right)

lemma strstr_match_cstr:
  "cstr m p bs \<Longrightarrow> cstr m q cs \<Longrightarrow> strstr_match m p q = Some (prefix cs bs)"
proof (induction cs arbitrary: p q bs)
  case Nil
  then show ?case by (subst strstr_match.simps) auto
next
  case (Cons c cs)
  show ?case
  proof (cases bs)
    case Nil
    then show ?thesis using Cons.prems by (subst strstr_match.simps) auto
  next
    case (Cons b bs')
    then show ?thesis using Cons.prems Cons.IH [of "p + 1" bs' "q + 1"] by (subst strstr_match.simps) auto
  qed
qed

lemma strstr_loop_cstr:
  "cstr m p bs \<Longrightarrow> cstr m q (c # cs) \<Longrightarrow>
     strstr_loop m p q = Some (map_option (\<lambda>i. p + i) (find_sub (c # cs) bs))"
proof (induction bs arbitrary: p)
  case Nil
  then show ?case by (subst strstr_loop.simps) simp
next
  case (Cons b bs)
  have "(if m p = m q then strstr_match m p q else Some False) = Some (prefix (c # cs) (b # bs))"
    using strstr_match_cstr [OF Cons.prems] Cons.prems by auto
  moreover have "strstr_loop m (p + 1) q = Some (map_option (\<lambda>i. p + 1 + i) (find_sub (c # cs) bs))"
    by (rule Cons.IH) (use Cons.prems in simp_all)
  ultimately show ?case using Cons.prems by (subst strstr_loop.simps) (auto simp: option.map_comp comp_def)
qed

section \<open>Tokens and duplicates\<close>

abbreviation cut :: "u8 list \<Rightarrow> u8 list \<Rightarrow> nat" where
  "cut cs bs \<equiv> length (takeWhile (\<lambda>b. b \<notin> set cs) bs)"

lemma cut_first: "takeWhile (\<lambda>b. b \<notin> set cs) bs = take (cut cs bs) bs"
  by (rule takeWhile_eq_take)

lemma cstr_cut:
  assumes "cstr m p bs" "k \<le> length bs"
  shows "cstr (m(p + k := 0)) p (take k bs)" and "k < length bs \<Longrightarrow> cstr (m(p + k := 0)) (p + k + 1) (drop (k + 1) bs)"
proof -
  show "cstr (m(p + k := 0)) p (take k bs)" using assms by (auto simp: cstr_nth)
  assume "k < length bs"
  then have "cstr m (p + (k + 1)) (drop (k + 1) bs)" using assms by (intro cstr_drop) auto
  then show "cstr (m(p + k := 0)) (p + k + 1) (drop (k + 1) bs)"
    using cstr_upd [of "p + k" "p + k + 1"] by simp
qed

lemma strnlen_cstr: "cstr m p bs \<Longrightarrow> strnlen m p n = min n (length bs)"
proof -
  have "cstr m (p + k) bs \<Longrightarrow> k \<le> n \<Longrightarrow> strnlen_loop m p n k = min n (k + length bs)" for k bs
  proof (induction bs arbitrary: k)
    case Nil
    then show ?case by (subst strnlen_loop.simps) simp
  next
    case (Cons b bs)
    then show ?case using Cons.IH [of "k + 1"] by (subst strnlen_loop.simps) (auto simp: add.assoc)
  qed
  from this [of 0 bs] show "cstr m p bs \<Longrightarrow> ?thesis" by (simp add: strnlen_def)
qed

lemma memccpy_loop_bytes:
  "d \<le> s \<or> s + n \<le> d \<Longrightarrow> memccpy_loop m d s c n =
     (case index_of c (bytes m s n) of
        Some i \<Rightarrow> (Some (d + i + 1), put m d (bytes m s (i + 1)))
      | None \<Rightarrow> (None, put m d (bytes m s n)))"
proof (induction n arbitrary: m d s)
  case (Suc n)
  let ?m = "m(d := m s)"
  have b: "bytes ?m (s + 1) k = bytes m (s + 1) k" if "k \<le> n" for k
    using Suc.prems that by (intro bytes_upd) auto
  show ?case
  proof (cases "m s = c")
    case True
    then show ?thesis using Suc.prems by (simp add: Let_def bytes_Suc put_Cons)
  next
    case False
    have "memccpy_loop ?m (d + 1) (s + 1) c n =
     (case index_of c (bytes ?m (s + 1) n) of
        Some i \<Rightarrow> (Some (d + 1 + i + 1), put ?m (d + 1) (bytes ?m (s + 1) (i + 1)))
      | None \<Rightarrow> (None, put ?m (d + 1) (bytes ?m (s + 1) n)))"
      using Suc.prems by (intro Suc.IH) auto
    also have "\<dots> = (case index_of c (bytes m (s + 1) n) of
        Some i \<Rightarrow> (Some (d + 1 + i + 1), put m d (m s # bytes m (s + 1) (i + 1)))
      | None \<Rightarrow> (None, put m d (m s # bytes m (s + 1) n)))"
    proof (cases "index_of c (bytes m (s + 1) n)")
      case None
      then show ?thesis using b [of n] by (simp only: option.simps put_Cons)
    next
      case (Some i)
      then have "i + 1 \<le> n" by (simp add: index_of_Some)
      then show ?thesis using Some b [of n] b [of "i + 1"] by (simp only: option.simps put_Cons)
    qed
    finally show ?thesis using False
      by (auto simp: Let_def bytes_Suc [of m s] split: option.split)
  qed
qed simp

lemma text_mem_strings:
  "cstr text_mem 10 [97, 98, 97, 99]" "cstr text_mem 20 [97, 99]"
  "cstr text_mem 30 [97, 44, 98]" "cstr text_mem 40 [44]"
  by (simp_all add: text_mem_def mem_of_def put_def)

lemma error_msgs_keys:
  "map fst error_msgs = 0 # [4..<46] @ [47..<50] @ [51..<56] @ [58..<67] @ [68..<84]"
  by (simp add: error_msgs_def upt_rec_numeral)

lemma error_msgs_None:
  assumes "k < 84"
  shows "map_of error_msgs k = None \<longleftrightarrow> k \<in> {1, 2, 3, 46, 50, 56, 57, 67}"
proof -
  have "map_of error_msgs k = None \<longleftrightarrow> k \<notin> set (map fst error_msgs)" by (simp add: map_of_eq_None_iff)
  also have "\<dots> \<longleftrightarrow> k \<in> {1, 2, 3, 46, 50, 56, 57, 67}"
    using assms unfolding error_msgs_keys
    by (simp only: set_append set_upt list.set insert_iff Un_iff atLeastLessThan_iff empty_iff) presburger
  finally show ?thesis .
qed

section \<open>Properties\<close>

text \<open>
  C14. \<open>memmove\<close> is right for any overlap: afterwards the byte at every address of the destination
  is the byte the source had at that offset before, and no other byte has changed. \<open>memcpy\<close> does
  the same whenever the destination does not start inside the source.
\<close>

theorem memmove_any_overlap:
  "fst (memmove m d s n) a = (if d \<le> a \<and> a < d + n then m (s + (a - d)) else m a)
    \<and> (d \<le> s \<or> s + n \<le> d \<longrightarrow> memcpy m d s n = memmove m d s n)"
  by (auto simp: memmove_put memcpy_def memcpy_loop_put) (auto simp: put_def)

theorem memmove_any_overlap_witness:
  "bytes (fst (memmove (mem_of [(10, [1, 2, 3, 4])]) 12 10 4)) 10 6 = [1, 2, 1, 2, 3, 4]
    \<and> memcpy (mem_of [(10, [1, 2, 3, 4])]) 20 10 4 = memmove (mem_of [(10, [1, 2, 3, 4])]) 20 10 4"
  using memmove_any_overlap [of "mem_of [(10, [1, 2, 3, 4])]" 20 10 4 0]
    memmove_any_overlap [of "mem_of [(10, [1, 2, 3, 4])]" 12 10 4]
  by (simp add: bytes_def upt_rec mem_of_def put_def)

text \<open>
  C15. The comparison functions return, and decide the lexicographic order of unsigned bytes:
  \<open>strcmp\<close> of the two strings, \<open>strncmp\<close> of their first \<open>n\<close> bytes, \<open>memcmp\<close> of the two blocks of \<open>n\<close>
  bytes; zero means equal and negative means less.
\<close>

theorem comparison_order:
  assumes "cstr m p as" "cstr m q bs"
  shows "(\<exists>r. strcmp m p q = Some r \<and> (r = 0 \<longleftrightarrow> as = bs) \<and> (r < 0 \<longleftrightarrow> ord_class.lexordp as bs))
    \<and> (strncmp m p q n = 0 \<longleftrightarrow> take n as = take n bs)
    \<and> (strncmp m p q n < 0 \<longleftrightarrow> ord_class.lexordp (take n as) (take n bs))
    \<and> (memcmp m p q n = 0 \<longleftrightarrow> bytes m p n = bytes m q n)
    \<and> (memcmp m p q n < 0 \<longleftrightarrow> ord_class.lexordp (bytes m p n) (bytes m q n))"
proof (intro conjI)
  have z: "0 \<notin> set as" "0 \<notin> set bs" using assms cstr_nonzero by blast+
  then have zt: "0 \<notin> set (take n as)" "0 \<notin> set (take n bs)" by (auto dest: in_set_takeD)
  show "\<exists>r. strcmp m p q = Some r \<and> (r = 0 \<longleftrightarrow> as = bs) \<and> (r < 0 \<longleftrightarrow> ord_class.lexordp as bs)"
    using strcmp_cstr [OF assms] byte_order_sign [OF z] by simp
  show "strncmp m p q n = 0 \<longleftrightarrow> take n as = take n bs"
    "strncmp m p q n < 0 \<longleftrightarrow> ord_class.lexordp (take n as) (take n bs)"
    using strncmp_cstr [OF assms] byte_order_sign [OF zt] by simp_all
  show "memcmp m p q n = 0 \<longleftrightarrow> bytes m p n = bytes m q n"
    "memcmp m p q n < 0 \<longleftrightarrow> ord_class.lexordp (bytes m p n) (bytes m q n)"
    using memcmp_bytes by blast+
qed

theorem comparison_order_witness:
  "\<exists>r. strcmp text_mem 10 20 = Some r \<and> r < 0"
  using comparison_order [OF text_mem_strings(1,2)] by auto



text \<open>
  C17. The searches return and find the right place: \<open>strchr\<close> the first and \<open>strrchr\<close> the last
  occurrence of the character in the string with its terminator, \<open>memchr\<close> the first in the block,
  \<open>strstr\<close> the least offset at which the other string is a prefix of the rest; each returns a
  null pointer exactly when there is none.
\<close>

theorem searches:
  assumes "cstr m p bs" "cstr m q cs"
  shows "(\<exists>r. strchr m p c = Some r \<and> (r = None \<longleftrightarrow> word_of_int c \<notin> set (bs @ [0]))
      \<and> (\<forall>a. r = Some a \<longrightarrow> p \<le> a \<and> m a = word_of_int c \<and> (\<forall>x. p \<le> x \<longrightarrow> x < a \<longrightarrow> m x \<noteq> word_of_int c)))
    \<and> (\<exists>r. strrchr m p c = Some r \<and> (r = None \<longleftrightarrow> word_of_int c \<notin> set (bs @ [0]))
      \<and> (\<forall>a. r = Some a \<longrightarrow> m a = word_of_int c \<and> (\<forall>x. a < x \<longrightarrow> x \<le> p + length bs \<longrightarrow> m x \<noteq> word_of_int c)))
    \<and> (strstr m p q = Some (case find_sub cs bs of None \<Rightarrow> None | Some i \<Rightarrow> Some (p + i)))
    \<and> (memchr m p c n = (case index_of (word_of_int c) (bytes m p n) of None \<Rightarrow> None | Some i \<Rightarrow> Some (p + i)))"
proof (intro conjI)
  have nth: "(bs @ [0]) ! i = m (p + i)" if "i \<le> length bs" for i
    using assms(1) that by (auto simp: cstr_nth nth_append)
  show "\<exists>r. strchr m p c = Some r \<and> (r = None \<longleftrightarrow> word_of_int c \<notin> set (bs @ [0]))
      \<and> (\<forall>a. r = Some a \<longrightarrow> p \<le> a \<and> m a = word_of_int c \<and> (\<forall>x. p \<le> x \<longrightarrow> x < a \<longrightarrow> m x \<noteq> word_of_int c))"
  proof -
    have "m x \<noteq> word_of_int c" if f: "index_of (word_of_int c) (bs @ [0]) = Some i" "p \<le> x" "x < p + i" for i x
    proof -
      obtain j where j: "x = p + j" using f(2) le_Suc_ex by blast
      then have "j < i" "i \<le> length bs" using f by (auto simp: index_of_Some)
      then show ?thesis using f(1) nth [of j] j by (auto simp: index_of_Some)
    qed
    moreover have "m (p + i) = word_of_int c" if "index_of (word_of_int c) (bs @ [0]) = Some i" for i
      using that nth [of i] by (auto simp: index_of_Some)
    ultimately show ?thesis
      unfolding strchr_def strchr_loop_cstr [OF assms(1)] using index_of_None [of "word_of_int c" "bs @ [0]"] by auto
  qed
  show "\<exists>r. strrchr m p c = Some r \<and> (r = None \<longleftrightarrow> word_of_int c \<notin> set (bs @ [0]))
      \<and> (\<forall>a. r = Some a \<longrightarrow> m a = word_of_int c \<and> (\<forall>x. a < x \<longrightarrow> x \<le> p + length bs \<longrightarrow> m x \<noteq> word_of_int c))"
  proof -
    have "m x \<noteq> word_of_int c" if f: "last_index_of (word_of_int c) (bs @ [0]) = Some i" "p + i < x" "x \<le> p + length bs" for i x
    proof -
      obtain j where j: "x = p + j" using f(2) le_Suc_ex [of p x] by auto
      then have "i < j" "j \<le> length bs" using f by (auto simp: last_index_of_Some)
      then show ?thesis using f(1) nth [of j] j by (auto simp: last_index_of_Some)
    qed
    moreover have "m (p + i) = word_of_int c" if "last_index_of (word_of_int c) (bs @ [0]) = Some i" for i
      using that nth [of i] by (auto simp: last_index_of_Some)
    ultimately show ?thesis
      unfolding strrchr_def strrchr_loop_cstr [OF assms(1)]
      using last_index_of_None [of "word_of_int c" "bs @ [0]"] by (auto split: option.split)
  qed
  show "strstr m p q = Some (case find_sub cs bs of None \<Rightarrow> None | Some i \<Rightarrow> Some (p + i))"
  proof (cases cs)
    case Nil
    then show ?thesis using assms(2) by (cases bs) (auto simp: strstr_def)
  next
    case (Cons x xs)
    then show ?thesis using assms strstr_loop_cstr [of m p bs q x xs]
      by (auto simp: strstr_def split: option.split)
  qed
  show "memchr m p c n = (case index_of (word_of_int c) (bytes m p n) of None \<Rightarrow> None | Some i \<Rightarrow> Some (p + i))"
    by (auto simp: memchr_def memchr_loop_bytes split: option.split)
qed

theorem searches_witness:
  "strstr text_mem 10 20 = Some (Some 12)"
  using searches [OF text_mem_strings(1,2)] by simp

text \<open>
  C18. \<open>strtok_r\<close> cuts a string at its first delimiter: the token it returns is the part before it,
  and the saved context is the rest after it, or null when no delimiter is left; the delimiters
  themselves are kept when they do not overlap the string. A call with no string and no
  context returns null.
\<close>

theorem strtok_r_cuts:
  assumes "cstr m p bs" "cstr m q cs" "q + length cs < p \<or> p + length bs < q"
  shows "\<exists>m'. strtok_r m (Some p) q ctx =
       Some (Some p, if cut cs bs < length bs then Some (p + cut cs bs + 1) else None, m')
     \<and> strtok_r m None q (Some p) = strtok_r m (Some p) q ctx
     \<and> strtok_r m None q None = Some (None, None, m)
     \<and> cstr m' p (takeWhile (\<lambda>b. b \<notin> set cs) bs) \<and> cstr m' q cs
     \<and> (cut cs bs < length bs \<longrightarrow> cstr m' (p + cut cs bs + 1) (drop (cut cs bs + 1) bs))"
proof (cases "cut cs bs < length bs")
  case True
  then show ?thesis
    using strpbrk_cstr [OF assms(1,2)] cstr_cut [OF assms(1), of "cut cs bs"] cut_first [of cs bs]
      cstr_upd [of "p + cut cs bs" q cs m 0] assms(2,3)
    by (auto simp: strtok_r_def Let_def)
next
  case False
  then have "takeWhile (\<lambda>b. b \<notin> set cs) bs = bs"
    by (metis cut_first linorder_not_less take_all)
  then show ?thesis using False strpbrk_cstr [OF assms(1,2)] assms(1,2)
    by (auto simp: strtok_r_def Let_def simp del: takeWhile_eq_all_conv)
qed

theorem strtok_r_cuts_witness:
  "\<exists>m'. strtok_r text_mem (Some 30) 40 None = Some (Some 30, Some 32, m') \<and> cstr m' 30 [97] \<and> cstr m' 32 [98]"
  using strtok_r_cuts [OF text_mem_strings(3,4), of None] by auto

text \<open>
  C19. \<open>strspn\<close> computes what \<open>strcspn\<close> computes, the length of the prefix with no character of the
  set, where its name promises the prefix of characters of the set. As \<open>strtok\<close> uses it to skip
  leading delimiters, \<open>strtok\<close> skips up to the first delimiter instead and cuts there: every
  token it returns is the empty string, and on a string without delimiters it returns null.
\<close>

theorem strtok_only_empty_tokens:
  assumes "cstr m p bs" "cstr m q cs"
  shows "(strspn m p q = strcspn m p q)
    \<and> (strspn m p q = Some (cut cs bs))
    \<and> (\<exists>tok ctx' m'. strtok m (Some p) q ctx = Some (tok, ctx', m')
       \<and> (tok = None \<longleftrightarrow> cut cs bs = length bs) \<and> (\<forall>t. tok = Some t \<longrightarrow> cstr m' t []))"
proof (intro conjI)
  show e: "strspn m p q = strcspn m p q"
    using strspn_loop_cstr [of m p 0 bs q cs] assms by (simp add: strspn_def strcspn_def)
  then show k: "strspn m p q = Some (cut cs bs)"
    using strcspn_loop_cstr [of m p 0 bs q cs] assms by (simp add: strcspn_def)
  show "\<exists>tok ctx' m'. strtok m (Some p) q ctx = Some (tok, ctx', m')
       \<and> (tok = None \<longleftrightarrow> cut cs bs = length bs) \<and> (\<forall>t. tok = Some t \<longrightarrow> cstr m' t [])"
  proof (cases "cut cs bs < length bs")
    case True
    have c: "cstr m (p + cut cs bs) (drop (cut cs bs) bs)" by (rule cstr_drop [OF assms(1)]) (use True in simp)
    have d: "drop (cut cs bs) bs = bs ! cut cs bs # drop (cut cs bs + 1) bs" using True by (simp add: Cons_nth_drop_Suc)
    have "bs ! cut cs bs \<in> set cs" using nth_length_takeWhile [of "\<lambda>b. b \<notin> set cs" bs] True by simp
    then have "strpbrk m (p + cut cs bs) q = Some (Some (p + cut cs bs))"
      using strpbrk_cstr [OF c assms(2)] unfolding d by simp
    moreover have "m (p + cut cs bs) \<noteq> 0" using c unfolding d by simp
    ultimately show ?thesis using k True by (simp add: strtok_def Let_def)
  next
    case False
    then have "cut cs bs = length bs" using length_takeWhile_le [of "\<lambda>b. b \<notin> set cs" bs] by linarith
    moreover have "m (p + length bs) = 0" using assms(1) by (simp add: cstr_nth)
    ultimately show ?thesis using k by (simp add: strtok_def Let_def)
  qed
qed

theorem strtok_only_empty_tokens_witness:
  "\<exists>t ctx m'. strtok text_mem (Some 30) 40 None = Some (Some t, ctx, m') \<and> cstr m' t []"
proof -
  obtain tok ctx m' where t: "strtok text_mem (Some 30) 40 None = Some (tok, ctx, m')"
    "tok = None \<longleftrightarrow> cut [44] [97, 44, 98] = length [97, 44, 98 :: u8]" "\<forall>t. tok = Some t \<longrightarrow> cstr m' t []"
    using strtok_only_empty_tokens [OF text_mem_strings(3,4), of None] by (elim conjE exE)
  then obtain p where "tok = Some p" by (cases tok) simp_all
  with t(1,3) show ?thesis by blast
qed

text \<open>
  C20. \<open>strerror\<close> gives a message for every number it is asked about, except that it returns a null
  pointer for eight numbers inside its table that the table does not name, among them
  \<open>ENODATA\<close> (46), \<open>ENOSR\<close> (56), \<open>ENOSTR\<close> (57) and \<open>EOPNOTSUPP\<close> (67); \<open>errno\<close> is set exactly outside the table.
\<close>

theorem strerror_null:
  "(fst (strerror n) = None \<longleftrightarrow> n \<in> {1, 2, 3, 46, 50, 56, 57, 67})
    \<and> (snd (strerror n) = (if 0 \<le> n \<and> n < 84 then None else Some EINVAL))"
proof (cases "0 \<le> n \<and> n < 84")
  case True
  then have "map_of error_msgs (nat n) = None \<longleftrightarrow> nat n \<in> {1, 2, 3, 46, 50, 56, 57, 67}"
    by (intro error_msgs_None) linarith
  then show ?thesis using True by (simp add: strerror_def error_msgs_size_def nat_eq_iff)
next
  case False
  then show ?thesis by (auto simp: strerror_def error_msgs_size_def)
qed

end
