(* ===== verification/StrToInt.thy ===== *)
theory StrToInt
  imports Prelude
begin

text \<open>
  Character classes and number parsing of the C library: \<open>ctype.c\<close>, \<open>ctype.h/\<close>, \<open>wctype.h/\<close>,
  \<open>wchar.h/\<close>, \<open>stdlib.c\<close> and \<open>stdlib.h/\<close> under \<open>libs/lib/libc/src/generic\<close>.

  Text is a function from addresses to character codes: bytes read as \<open>unsigned char\<close> for the
  functions on \<open>char\<close>, code points for those on \<open>wchar_t\<close>. \<open>long\<close> and \<open>long long\<close> have 64 bits. The
  functions return the value, the value \<open>errno\<close> is set to, and what is stored through
  \<open>endptr\<close>; \<open>endptr\<close> itself is an address or null. A scan that does not return is \<open>None\<close>.
\<close>

section \<open>Character classes\<close>

definition isalnum :: "int \<Rightarrow> bool" where "isalnum c \<longleftrightarrow> c \<ge> 48 \<and> c \<le> 57"
definition isupper :: "int \<Rightarrow> bool" where "isupper c \<longleftrightarrow> c \<ge> 65 \<and> c \<le> 90"
definition islower :: "int \<Rightarrow> bool" where "islower c \<longleftrightarrow> c \<ge> 97 \<and> c \<le> 122"
definition isalpha :: "int \<Rightarrow> bool" where "isalpha c \<longleftrightarrow> isupper c \<or> islower c"
definition isdigit :: "int \<Rightarrow> bool" where "isdigit c \<longleftrightarrow> c \<ge> 48 \<and> c \<le> 57"
definition isgraph :: "int \<Rightarrow> bool" where "isgraph c \<longleftrightarrow> c \<ge> 33 \<and> c \<le> 126"

definition isspace :: "int \<Rightarrow> bool" where
  "isspace c \<longleftrightarrow> c = 32 \<or> c = 12 \<or> c = 10 \<or> c = 13 \<or> c = 9 \<or> c = 11"

definition tolower :: "int \<Rightarrow> int" where
  "tolower c = (if c \<ge> 65 \<and> c \<le> 90 then c + (97 - 65) else c)"

definition toupper :: "int \<Rightarrow> int" where
  "toupper c = (if c \<ge> 97 \<and> c \<le> 90 then c + (65 - 97) else c)"

definition isxdigit :: "int \<Rightarrow> bool" where
  "isxdigit c \<longleftrightarrow> isdigit c \<or> (tolower c \<ge> 97 \<and> tolower c \<le> 102)"

definition isblank :: "int \<Rightarrow> bool" where "isblank c \<longleftrightarrow> c = 32 \<or> c = 9"
definition isprint :: "int \<Rightarrow> bool" where "isprint c \<longleftrightarrow> c \<ge> 32 \<and> c \<le> 126"
definition ispunct :: "int \<Rightarrow> bool" where "ispunct c \<longleftrightarrow> isprint c \<and> \<not> isalnum c \<and> \<not> isspace c"
definition iscntrl :: "int \<Rightarrow> bool" where "iscntrl c \<longleftrightarrow> c mod 256 < 32 \<or> c = 127"

definition iswalpha :: "int \<Rightarrow> bool" where
  "iswalpha wc \<longleftrightarrow> (wc \<ge> 97 \<and> wc \<le> 122) \<or> (wc \<ge> 65 \<and> wc \<le> 90)"
definition iswdigit :: "int \<Rightarrow> bool" where "iswdigit wc \<longleftrightarrow> wc \<ge> 48 \<and> wc \<le> 57"
definition iswupper :: "int \<Rightarrow> bool" where "iswupper wc \<longleftrightarrow> wc \<ge> 65 \<and> wc \<le> 90"
definition towlower :: "int \<Rightarrow> int" where "towlower wc = (if iswupper wc then wc + 32 else wc)"
definition iswspace :: "int \<Rightarrow> bool" where "iswspace wc \<longleftrightarrow> wc = 32 \<or> (wc \<ge> 9 \<and> wc \<le> 13)"

section \<open>Signed numbers\<close>

type_synonym ctext = "nat \<Rightarrow> int"

partial_function (option) skip_while :: "(int \<Rightarrow> bool) \<Rightarrow> ctext \<Rightarrow> nat \<Rightarrow> nat option" where
  "skip_while P t str = (if P (t str) then skip_while P t (str + 1) else Some str)"

text \<open>
  The digits: hexadecimal digits whatever the base is, with the value of the digit computed by
  \<open>lower\<close>; the scan stops early when the value would exceed \<open>lim\<close>.
\<close>

definition digit_value :: "(int \<Rightarrow> int) \<Rightarrow> int \<Rightarrow> int" where
  "digit_value lower c = (if isdigit (c mod 256) then c - 48 else lower (c mod 256) - 97 + 10)"

partial_function (option) digits_loop ::
    "(int \<Rightarrow> int) \<Rightarrow> int \<Rightarrow> int \<Rightarrow> ctext \<Rightarrow> nat \<Rightarrow> int \<Rightarrow> (int \<times> bool \<times> nat) option" where
  "digits_loop lower lim base t str result =
     (if isxdigit (t str mod 256)
      then let digit = digit_value lower (t str) in
           if result > (lim - digit) div base then Some (result, True, str)
           else digits_loop lower lim base t (str + 1) (result * base + digit)
      else Some (result, False, str))"

definition choose_base :: "ctext \<Rightarrow> nat \<Rightarrow> int \<Rightarrow> int \<times> nat" where
  "choose_base t str base =
     (if base = 0
      then (if t str = 48 then (if t (str + 1) = 120 \<or> t (str + 1) = 88 then 16 else 8) else 10, str)
      else if base = 16
      then (base, if t str = 48 \<and> (t (str + 1) = 120 \<or> t (str + 1) = 88) then str + 2 else str)
      else (base, str))"

type_synonym parse_result = "int \<times> errno option \<times> nat option"

definition finish_parse ::
    "(int \<Rightarrow> bool) \<Rightarrow> ctext \<Rightarrow> nat option \<Rightarrow> int \<Rightarrow> int \<Rightarrow> int \<times> bool \<times> nat \<Rightarrow> parse_result option" where
  "finish_parse space t endptr sat sign = (\<lambda>(result, overflow, str).
     if endptr = Some str then Some (0, Some EINVAL, map_option (\<lambda>_. str) endptr)
     else if overflow then Some (sat, Some ERANGE, map_option (\<lambda>_. str) endptr)
     else map_option (\<lambda>str'.
            (sign * result, None, map_option (\<lambda>_. if t str' \<noteq> 0 then str' else str) endptr))
          (skip_while space t str))"

text \<open>The common text of \<open>strtol\<close>, \<open>strtoll\<close>, \<open>wcstol\<close> and \<open>wcstoll\<close>.\<close>

definition strto_signed ::
    "(int \<Rightarrow> bool) \<Rightarrow> (int \<Rightarrow> bool) \<Rightarrow> (int \<Rightarrow> int) \<Rightarrow> (int \<Rightarrow> bool) \<Rightarrow> int \<Rightarrow> int \<Rightarrow>
     ctext \<Rightarrow> nat \<Rightarrow> nat option \<Rightarrow> int \<Rightarrow> parse_result option" where
  "strto_signed space1 space2 lower bad_base lmin lmax t str endptr base =
     do { str1 \<leftarrow> skip_while space1 t str;
          let sign = (if t str1 = 45 then -1 else 1);
          let str2 = (if t str1 = 45 \<or> t str1 = 43 then str1 + 1 else str1);
          if bad_base base then Some (0, Some EINVAL, map_option (\<lambda>_. str2) endptr)
          else (let (base', str3) = choose_base t str2 base in
                do { r \<leftarrow> digits_loop lower lmax base' t str3 0;
                     finish_parse space2 t endptr (if sign = 1 then lmax else lmin) sign r }) }"

abbreviation LONG_MAX :: int where "LONG_MAX \<equiv> 2 ^ 63 - 1"
abbreviation LONG_MIN :: int where "LONG_MIN \<equiv> - (2 ^ 63)"
abbreviation ULONG_MAX :: int where "ULONG_MAX \<equiv> 2 ^ 64 - 1"

definition strtol :: "ctext \<Rightarrow> nat \<Rightarrow> nat option \<Rightarrow> int \<Rightarrow> parse_result option" where
  "strtol = strto_signed isspace isspace tolower (\<lambda>base. base < 2 \<or> base > 36) LONG_MIN LONG_MAX"

definition strtoll :: "ctext \<Rightarrow> nat \<Rightarrow> nat option \<Rightarrow> int \<Rightarrow> parse_result option" where
  "strtoll = strto_signed isspace isspace tolower (\<lambda>base. base \<noteq> 0 \<and> (base < 2 \<or> base > 36)) LONG_MIN LONG_MAX"

definition wcstol :: "ctext \<Rightarrow> nat \<Rightarrow> nat option \<Rightarrow> int \<Rightarrow> parse_result option" where
  "wcstol = strto_signed iswspace isspace towlower (\<lambda>base. base < 2 \<or> base > 36) LONG_MIN LONG_MAX"

definition wcstoll :: "ctext \<Rightarrow> nat \<Rightarrow> nat option \<Rightarrow> int \<Rightarrow> parse_result option" where
  "wcstoll = strto_signed iswspace isspace towlower (\<lambda>base. base < 2 \<or> base > 36) LONG_MIN LONG_MAX"

definition strtoull :: "ctext \<Rightarrow> nat \<Rightarrow> nat option \<Rightarrow> int \<Rightarrow> parse_result option" where
  "strtoull t str endptr base =
     do { str1 \<leftarrow> skip_while isspace t str;
          if base \<noteq> 0 \<and> (base < 2 \<or> base > 36)
          then Some (0, Some EINVAL, map_option (\<lambda>_. str1) endptr)
          else (let (base', str2) = choose_base t str1 base in
                do { r \<leftarrow> digits_loop tolower ULONG_MAX base' t str2 0;
                     finish_parse isspace t endptr ULONG_MAX 1 r }) }"

section \<open>Unsigned numbers\<close>

text \<open>
  \<open>strtoul\<close> and its wide relatives accumulate in a \<open>long\<close>. \<open>gt\<close> is the comparison of it with the
  cut-off: \<open>strtoul\<close> declares the cut-off unsigned, so the comparison is unsigned; \<open>wcstoul\<close> and
  \<open>wcstoull\<close> declare it signed.
\<close>

definition letter_value :: "(int \<Rightarrow> bool) \<Rightarrow> (int \<Rightarrow> bool) \<Rightarrow> (int \<Rightarrow> bool) \<Rightarrow> int \<Rightarrow> int option" where
  "letter_value dig alpha upper c =
     (if dig c then Some (c - 48)
      else if alpha c then (if upper c then Some (c - 65 + 10) else Some (c - 97 + 10))
      else None)"

partial_function (option) unsigned_loop ::
    "(u64 \<Rightarrow> u64 \<Rightarrow> bool) \<Rightarrow> (int \<Rightarrow> int option) \<Rightarrow> int \<Rightarrow> ctext \<Rightarrow> int \<Rightarrow> nat \<Rightarrow> int \<Rightarrow> u64 \<Rightarrow> (int \<times> u64 \<times> nat) option" where
  "unsigned_loop gt digit base t c s k result =
     (if c = 0 then Some (k, result, s)
      else case digit c of None \<Rightarrow> Some (k, result, s)
      | Some d \<Rightarrow>
          if d \<ge> base then Some (k, result, s)
          else let cutoff = - 1 div (of_int base :: u64); cutlim = - 1 mod (of_int base :: u64) in
               if k < 0 \<or> gt result cutoff \<or> (result = cutoff \<and> gt (of_int d) cutlim)
               then unsigned_loop gt digit base t (t s) (s + 1) (-1) result
               else unsigned_loop gt digit base t (t s) (s + 1) 1 (result * of_int base + of_int d))"

definition strto_unsigned ::
    "(int \<Rightarrow> bool) \<Rightarrow> (u64 \<Rightarrow> u64 \<Rightarrow> bool) \<Rightarrow> (int \<Rightarrow> int option) \<Rightarrow> errno option \<Rightarrow>
     ctext \<Rightarrow> nat \<Rightarrow> nat option \<Rightarrow> int \<Rightarrow> (u64 \<times> errno option \<times> nat option) option" where
  "strto_unsigned space gt digit range_errno t nptr endptr base =
     do { s0 \<leftarrow> skip_while space t nptr;
          let neg = (t s0 = 45);
          let s1 = (if t s0 = 45 \<or> t s0 = 43 then s0 + 1 else s0);
          let hex = ((base = 0 \<or> base = 16) \<and> t s1 = 48 \<and> (t (s1 + 1) = 88 \<or> t (s1 + 1) = 120));
          let s2 = (if hex then s1 + 2 else s1);
          let base1 = (if hex then 16 else base);
          let base2 = (if base1 = 0 then (if t s2 = 48 then 8 else 10) else base1);
          (k, result, s) \<leftarrow> unsigned_loop gt digit base2 t (t s2) (s2 + 1) 0 0;
          Some (if k = -1 then - 1 else if neg then - result else result,
                if k = -1 then range_errno else None,
                map_option (\<lambda>_. if k \<noteq> 0 then s - 1 else nptr) endptr) }"

definition strtoul :: "ctext \<Rightarrow> nat \<Rightarrow> nat option \<Rightarrow> int \<Rightarrow> (u64 \<times> errno option \<times> nat option) option" where
  "strtoul = strto_unsigned isspace (\<lambda>a b. b < a) (letter_value isdigit isalpha isupper) None"

definition wcstoul :: "ctext \<Rightarrow> nat \<Rightarrow> nat option \<Rightarrow> int \<Rightarrow> (u64 \<times> errno option \<times> nat option) option" where
  "wcstoul = strto_unsigned iswspace (\<lambda>a b. sint b < sint a) (letter_value iswdigit iswalpha iswupper) (Some ERANGE)"

definition wcstoull :: "ctext \<Rightarrow> nat \<Rightarrow> nat option \<Rightarrow> int \<Rightarrow> (u64 \<times> errno option \<times> nat option) option" where
  "wcstoull = strto_unsigned iswspace (\<lambda>a b. sint b < sint a) (letter_value iswdigit iswalpha iswupper) (Some ERANGE)"

section \<open>Wide strings\<close>

partial_function (option) wcslen_loop :: "ctext \<Rightarrow> nat \<Rightarrow> nat option" where
  "wcslen_loop t p = (if t p \<noteq> 0 then wcslen_loop t (p + 1) else Some p)"

definition wcslen :: "ctext \<Rightarrow> nat \<Rightarrow> nat option" where
  "wcslen t s = map_option (\<lambda>p. p - s) (wcslen_loop t s)"

fun wmemchr :: "ctext \<Rightarrow> nat \<Rightarrow> int \<Rightarrow> nat \<Rightarrow> nat option" where
  "wmemchr t s c 0 = None"
| "wmemchr t s c (Suc n) = (if t s = c then Some s else wmemchr t (s + 1) c n)"

fun wmemcmp :: "ctext \<Rightarrow> nat \<Rightarrow> nat \<Rightarrow> nat \<Rightarrow> int" where
  "wmemcmp t s1 s2 0 = 0"
| "wmemcmp t s1 s2 (Suc n) = (if t s1 \<noteq> t s2 then t s1 - t s2 else wmemcmp t (s1 + 1) (s2 + 1) n)"

end
