(* ===== verification/StrToInt_Props.thy ===== *)
theory StrToInt_Props
  imports StrToInt
begin

text \<open>What the number parsing functions of the C library return.\<close>

section \<open>Scanning\<close>

fun spells :: "ctext \<Rightarrow> nat \<Rightarrow> int list \<Rightarrow> bool" where
  "spells t p [] \<longleftrightarrow> True"
| "spells t p (c # cs) \<longleftrightarrow> t p = c \<and> spells t (p + 1) cs"

lemma spells_append: "spells t p (xs @ ys) \<longleftrightarrow> spells t p xs \<and> spells t (p + length xs) ys"
  by (induction xs arbitrary: p) simp_all

lemma spells_head: "spells t p cs \<Longrightarrow> cs \<noteq> [] \<Longrightarrow> t p = hd cs"
  by (cases cs) simp_all

lemma skip_while_spells:
  assumes "spells t p ws" "list_all P ws" "\<not> P (t (p + length ws))"
  shows "skip_while P t p = Some (p + length ws)"
  using assms
proof (induction ws arbitrary: p)
  case Nil
  then show ?case by (subst skip_while.simps) simp
next
  case (Cons c ws)
  then show ?case using Cons.IH[of "p + 1"] by (subst skip_while.simps) simp
qed

lemma iswspace_isspace: "iswspace = isspace"
  by (rule ext) (auto simp: iswspace_def isspace_def)

lemma towlower_tolower: "towlower = tolower"
  by (rule ext) (simp add: towlower_def tolower_def iswupper_def)

lemma iswdigit_isdigit: "iswdigit = isdigit"
  by (rule ext) (simp add: iswdigit_def isdigit_def)

lemma iswalpha_isalpha: "iswalpha = isalpha"
  by (rule ext) (auto simp: iswalpha_def isalpha_def isupper_def islower_def)

lemma iswupper_isupper: "iswupper = isupper"
  by (rule ext) (simp add: iswupper_def isupper_def)

lemmas wide_classes = iswspace_isspace towlower_tolower iswdigit_isdigit iswalpha_isalpha iswupper_isupper

lemma isxdigit_range: "isxdigit c \<Longrightarrow> 48 \<le> c \<and> c \<le> 102"
  by (auto simp: isxdigit_def isdigit_def tolower_def split: if_splits)

lemma isxdigit_byte: "isxdigit c \<Longrightarrow> c mod 256 = c"
  using isxdigit_range[of c] by simp

lemma digit_value_xdigit:
  assumes "isxdigit c"
  shows "0 \<le> digit_value tolower c" "digit_value tolower c \<le> 15"
  using assms isxdigit_byte[OF assms]
  by (auto simp: digit_value_def isxdigit_def isdigit_def tolower_def split: if_splits)

definition horner :: "int \<Rightarrow> int \<Rightarrow> int list \<Rightarrow> int" where
  "horner base = foldl (\<lambda>r d. r * base + d)"

lemma horner_simps [simp]:
  "horner base r [] = r" "horner base r (d # ds) = horner base (r * base + d) ds"
  by (simp_all add: horner_def)

lemma horner_ge: "0 \<le> r \<Longrightarrow> 1 \<le> base \<Longrightarrow> list_all (\<lambda>d. 0 \<le> d) ds \<Longrightarrow> r \<le> horner base r ds"
proof (induction ds arbitrary: r)
  case (Cons d ds)
  have "r * 1 \<le> r * base" using Cons.prems by (intro mult_left_mono) auto
  then show ?case using Cons.prems Cons.IH[of "r * base + d"] by simp
qed simp

lemma le_div_int: "0 < (b :: int) \<Longrightarrow> r \<le> a div b \<longleftrightarrow> r * b \<le> a"
proof
  assume b: "0 < b" and "r \<le> a div b"
  then have "r * b \<le> (a div b) * b" by (intro mult_right_mono) auto
  also have "\<dots> \<le> a" using b pos_mod_sign[of b a] div_mult_mod_eq[of a b] by linarith
  finally show "r * b \<le> a" .
next
  assume b: "0 < b" and "r * b \<le> a"
  then show "r \<le> a div b" using zdiv_mono1[of "r * b" a b] by simp
qed

lemma over_limit: "0 < (base :: int) \<Longrightarrow> (lim - d) div base < r \<longleftrightarrow> lim < r * base + d"
  using le_div_int[of base r "lim - d"] by auto

lemma digits_loop_spells:
  assumes "spells t p ds" "list_all isxdigit ds" "\<not> isxdigit (t (p + length ds) mod 256)"
    and "2 \<le> base" "0 \<le> r" "r \<le> lim"
  shows "if horner base r (map (digit_value tolower) ds) \<le> lim
         then digits_loop tolower lim base t p r =
              Some (horner base r (map (digit_value tolower) ds), False, p + length ds)
         else \<exists>r' i. digits_loop tolower lim base t p r = Some (r', True, p + i) \<and> i < length ds"
  using assms
proof (induction ds arbitrary: p r)
  case Nil
  then show ?case by (subst digits_loop.simps) simp
next
  case (Cons c ds)
  define d where "d = digit_value tolower c"
  have c: "t p = c" "isxdigit c" "c mod 256 = c" using Cons.prems isxdigit_byte[of c] by auto
  have d: "0 \<le> d" using digit_value_xdigit(1)[OF c(2)] by (simp add: d_def)
  have step: "digits_loop tolower lim base t p r =
      (if lim < r * base + d then Some (r, True, p) else digits_loop tolower lim base t (p + 1) (r * base + d))"
    using c Cons.prems(4) by (subst digits_loop.simps) (simp add: d_def[symmetric] over_limit)
  have pos: "0 \<le> r * base + d" using Cons.prems d by simp
  have dvs: "list_all (\<lambda>d. 0 \<le> d) (map (digit_value tolower) ds)"
    using Cons.prems(2) digit_value_xdigit(1) by (auto simp: list_all_iff)
  show ?case
  proof (cases "lim < r * base + d")
    case True
    then have "lim < horner base (r * base + d) (map (digit_value tolower) ds)"
      using horner_ge[OF pos _ dvs, of base] Cons.prems(4) by simp
    then show ?thesis using True step by (auto simp: d_def[symmetric] intro!: exI[of _ 0])
  next
    case False
    note IH = Cons.IH[of "p + 1" "r * base + d"]
    show ?thesis
    proof (cases "horner base (r * base + d) (map (digit_value tolower) ds) \<le> lim")
      case True
      then show ?thesis using IH Cons.prems pos False step by (simp add: d_def[symmetric])
    next
      case big: False
      then obtain r' i where "digits_loop tolower lim base t (p + 1) (r * base + d) = Some (r', True, p + 1 + i)"
        and "i < length ds"
        using IH Cons.prems pos False by auto
      then show ?thesis using big False step by (auto simp: d_def[symmetric] intro!: exI[of _ "Suc i"])
    qed
  qed
qed

section \<open>The signed functions\<close>

text \<open>
  A number in the text: white space, an optional sign, an optional \<open>0x\<close> when the base is 16,
  digits, and white space again; neither the digits nor the trailing white space go on.
\<close>

definition number_text ::
    "int \<Rightarrow> ctext \<Rightarrow> nat \<Rightarrow> int list \<Rightarrow> int list \<Rightarrow> int list \<Rightarrow> int list \<Rightarrow> int list \<Rightarrow> bool" where
  "number_text base t str ws sg pre ds ws2 \<longleftrightarrow>
     spells t str (ws @ sg @ pre @ ds @ ws2) \<and>
     list_all isspace ws \<and> sg \<in> {[], [43], [45]} \<and>
     (pre = [] \<or> base = 16 \<and> pre \<in> {[48, 120], [48, 88]}) \<and>
     ds \<noteq> [] \<and> list_all isxdigit ds \<and> list_all isspace ws2 \<and>
     \<not> isspace (t (str + length (ws @ sg @ pre @ ds @ ws2))) \<and>
     \<not> isxdigit (t (str + length (ws @ sg @ pre @ ds)) mod 256) \<and>
     (pre = [] \<longrightarrow> base = 16 \<longrightarrow> t (str + length (ws @ sg) + 1) \<notin> {120, 88})"

lemma number_text_head:
  assumes "number_text base t str ws sg pre ds ws2"
  shows "isxdigit (t (str + length (ws @ sg)))"
proof -
  have "spells t (str + length (ws @ sg)) (pre @ ds)" and ne: "pre @ ds \<noteq> []" and ds: "list_all isxdigit ds"
    using assms by (simp_all add: number_text_def spells_append add.assoc)
  then have "t (str + length (ws @ sg)) = hd (pre @ ds)" by (intro spells_head)
  moreover have "pre = [] \<or> hd (pre @ ds) = 48" using assms unfolding number_text_def by force
  moreover have "isxdigit 48" by (simp add: isxdigit_def isdigit_def)
  moreover have "isxdigit (hd ds)" if "pre = []" using ds ne that by (cases ds) simp_all
  ultimately show ?thesis by auto
qed

lemma xdigit_not_special: "isxdigit c \<Longrightarrow> \<not> isspace c \<and> c \<noteq> 45 \<and> c \<noteq> 43"
  using isxdigit_range[of c] by (auto simp: isspace_def)

lemma number_text_sign:
  assumes "number_text base t str ws sg pre ds ws2"
  shows "skip_while isspace t str = Some (str + length ws)"
    and "t (str + length ws) = 45 \<longleftrightarrow> sg = [45]"
    and "(if t (str + length ws) = 45 \<or> t (str + length ws) = 43
          then str + length ws + 1 else str + length ws) = str + length (ws @ sg)"
proof -
  have sp: "spells t str ws" "spells t (str + length ws) sg" "list_all isspace ws"
    and sg: "sg = [] \<or> sg = [43] \<or> sg = [45]"
    using assms by (auto simp: number_text_def spells_append)
  have hd: "isxdigit (t (str + length ws + length sg))"
    using number_text_head[OF assms] by (simp add: add.assoc)
  have "\<not> isspace (t (str + length ws))"
    using sg sp(2) hd xdigit_not_special[OF hd] by (auto simp: isspace_def)
  then show "skip_while isspace t str = Some (str + length ws)"
    using sp by (intro skip_while_spells)
  show "t (str + length ws) = 45 \<longleftrightarrow> sg = [45]"
    using sg sp(2) xdigit_not_special[OF hd] by auto
  show "(if t (str + length ws) = 45 \<or> t (str + length ws) = 43
          then str + length ws + 1 else str + length ws) = str + length (ws @ sg)"
    using sg sp(2) xdigit_not_special[OF hd] by auto
qed

lemma number_text_base:
  assumes "number_text base t str ws sg pre ds ws2" "base \<noteq> 0"
  shows "choose_base t (str + length (ws @ sg)) base = (base, str + length (ws @ sg @ pre))"
  using assms by (auto simp: number_text_def choose_base_def spells_append add.assoc)

lemma strto_signed_value:
  fixes base lmin lmax
  assumes n: "number_text base t str ws sg pre ds ws2" and base: "2 \<le> base" "base \<le> 36"
    and ok: "\<not> bad base" and lim: "0 \<le> lmax" "lmin = - lmax - 1"
    and far: "\<forall>a. endptr = Some a \<longrightarrow> a > str + length (ws @ sg @ pre @ ds)"
  defines "v \<equiv> horner base 0 (map (digit_value tolower) ds)"
  defines "s \<equiv> (if sg = [45] then -1 else 1 :: int)"
  shows "\<exists>e. strto_signed isspace isspace tolower bad lmin lmax t str endptr base =
             Some (max lmin (min lmax (s * v)), if v \<le> lmax then None else Some ERANGE, map_option (\<lambda>_. e) endptr) \<and>
             (v \<le> lmax \<longrightarrow>
                (let q = str + length (ws @ sg @ pre @ ds) in e = (if t (q + length ws2) = 0 then q else q + length ws2))) \<and>
             (v > lmax \<longrightarrow> e < str + length (ws @ sg @ pre @ ds))"
proof -
  define q where "q = str + length (ws @ sg @ pre)"
  have sp: "spells t q ds" "spells t (q + length ds) ws2"
    "list_all isxdigit ds" "\<not> isxdigit (t (q + length ds) mod 256)"
    "list_all isspace ws2" "\<not> isspace (t (q + length ds + length ws2))"
    using n by (auto simp: number_text_def spells_append q_def add.assoc)
  have run: "strto_signed isspace isspace tolower bad lmin lmax t str endptr base =
      do { r \<leftarrow> digits_loop tolower lmax base t q 0;
           finish_parse isspace t endptr (if s = 1 then lmax else lmin) s r }"
    using number_text_base[OF n] base ok number_text_sign(3)[OF n, unfolded number_text_sign(2)[OF n]]
    by (simp add: strto_signed_def number_text_sign(1,2)[OF n] q_def s_def Let_def split del: if_split)
  have dvs: "list_all (\<lambda>d. 0 \<le> d) (map (digit_value tolower) ds)"
    using sp(3) digit_value_xdigit(1) by (auto simp: list_all_iff)
  have v0: "0 \<le> v" using horner_ge[OF _ _ dvs, of 0 base] base by (simp add: v_def)
  note loop = digits_loop_spells[OF sp(1,3,4) base(1) order_refl lim(1), folded v_def]
  have s1: "s = 1 \<or> s = -1" by (simp add: s_def)
  show ?thesis
  proof (cases "v \<le> lmax")
    case True
    then have "digits_loop tolower lmax base t q 0 = Some (v, False, q + length ds)" using loop by simp
    moreover have "endptr \<noteq> Some (q + length ds)" using far by (auto simp: q_def add.assoc)
    moreover have "skip_while isspace t (q + length ds) = Some (q + length ds + length ws2)"
      using sp by (intro skip_while_spells)
    moreover have "max lmin (min lmax (s * v)) = s * v" using s1 True v0 lim by auto
    ultimately show ?thesis
      using True run
      by (intro exI[of _ "if t (q + length ds + length ws2) = 0 then q + length ds else q + length ds + length ws2"])
        (simp add: finish_parse_def q_def add.assoc Let_def)
  next
    case False
    then obtain r' i where "digits_loop tolower lmax base t q 0 = Some (r', True, q + i)" "i < length ds"
      using loop by auto
    moreover have "endptr \<noteq> Some (q + i)" using far calculation by (auto simp: q_def add.assoc)
    moreover have "max lmin (min lmax (s * v)) = (if s = 1 then lmax else lmin)" using s1 False v0 lim by auto
    ultimately show ?thesis
      using False run by (intro exI[of _ "q + i"]) (simp add: finish_parse_def q_def)
  qed
qed

section \<open>The unsigned functions\<close>

definition u64_gt :: "u64 \<Rightarrow> u64 \<Rightarrow> bool" where
  "u64_gt a b \<longleftrightarrow> b < a"

lemma uint_small: "0 \<le> d \<Longrightarrow> d \<le> ULONG_MAX \<Longrightarrow> uint (of_int d :: u64) = d"
  by (simp add: uint_word_of_int_eq take_bit_int_eq_self)

lemma cutoff_value:
  assumes "2 \<le> base" "base \<le> 36"
  shows "uint (- 1 div (of_int base :: u64)) = ULONG_MAX div base"
    and "uint (- 1 mod (of_int base :: u64)) = ULONG_MAX mod base"
  using assms uint_small[of base] by (simp_all add: uint_div uint_mod uint_word_ariths(4) mask_eq_exp_minus_1)

lemma cutoff_exact:
  fixes lim :: int
  assumes "0 < base" "0 \<le> d" "d < base"
  shows "lim div base < r \<or> (r = lim div base \<and> lim mod base < d) \<longleftrightarrow> lim < r * base + d"
proof -
  define q e where "q = lim div base" and "e = lim mod base"
  have m: "lim = q * base + e" "0 \<le> e" "e < base"
    using assms by (simp_all add: q_def e_def)
  consider "r + 1 \<le> q" | "r = q" | "q + 1 \<le> r" by linarith
  then have "q < r \<or> (r = q \<and> e < d) \<longleftrightarrow> lim < r * base + d"
  proof cases
    case 1
    then have "(r + 1) * base \<le> q * base" using assms by (intro mult_right_mono) auto
    then show ?thesis using 1 m assms by (simp add: distrib_right)
  next
    case 2
    then show ?thesis using m by simp
  next
    case 3
    then have "(q + 1) * base \<le> r * base" using assms by (intro mult_right_mono) auto
    then show ?thesis using 3 m assms by (simp add: distrib_right)
  qed
  then show ?thesis by (simp add: q_def e_def)
qed

lemma overflow_test:
  assumes "2 \<le> base" "base \<le> 36" "0 \<le> d" "d < base"
  shows "u64_gt r (- 1 div of_int base) \<or> (r = - 1 div of_int base \<and> u64_gt (of_int d) (- 1 mod of_int base))
     \<longleftrightarrow> ULONG_MAX < uint r * base + d"
proof -
  have d: "uint (of_int d :: u64) = d" using assms by (intro uint_small) auto
  show ?thesis
    using cutoff_exact[of base d ULONG_MAX "uint r"] assms
    unfolding u64_gt_def word_less_def word_uint_eq_iff cutoff_value[OF assms(1,2)] d by simp
qed

definition stops :: "(int \<Rightarrow> int option) \<Rightarrow> int \<Rightarrow> int \<Rightarrow> bool" where
  "stops dg base c \<longleftrightarrow> c = 0 \<or> (\<forall>d. dg c = Some d \<longrightarrow> base \<le> d)"

definition is_digit_of :: "(int \<Rightarrow> int option) \<Rightarrow> int \<Rightarrow> int \<Rightarrow> bool" where
  "is_digit_of dg base c \<longleftrightarrow> c \<noteq> 0 \<and> (\<exists>d. dg c = Some d \<and> 0 \<le> d \<and> d < base)"

lemma unsigned_loop_stop: "stops dg base c \<Longrightarrow> unsigned_loop gt dg base t c s k r = Some (k, r, s)"
  by (subst unsigned_loop.simps) (auto simp: stops_def split: option.split)

lemma unsigned_loop_overflowed:
  assumes "spells t p ds" "list_all (is_digit_of dg base) ds" "stops dg base (t (p + length ds))"
  shows "unsigned_loop gt dg base t (t p) (p + 1) (-1) r = Some (-1, r, p + length ds + 1)"
  using assms
proof (induction ds arbitrary: p)
  case Nil
  then show ?case by (simp add: unsigned_loop_stop)
next
  case (Cons c ds)
  then obtain d where "t p = c" "c \<noteq> 0" "dg c = Some d" "d < base" by (auto simp: is_digit_of_def)
  then show ?case using Cons.IH[of "p + 1"] Cons.prems
    by (subst unsigned_loop.simps) (simp add: Let_def)
qed

lemma unsigned_loop_spells:
  assumes "spells t p ds" "list_all (is_digit_of dg base) ds" "stops dg base (t (p + length ds))"
    and base: "2 \<le> base" "base \<le> 36" and "k = 0 \<or> k = 1"
  shows "if horner base (uint r) (map (\<lambda>c. the (dg c)) ds) \<le> ULONG_MAX
         then unsigned_loop u64_gt dg base t (t p) (p + 1) k r =
              Some (if ds = [] then k else 1, of_int (horner base (uint r) (map (\<lambda>c. the (dg c)) ds)), p + length ds + 1)
         else \<exists>r'. unsigned_loop u64_gt dg base t (t p) (p + 1) k r = Some (-1, r', p + length ds + 1)"
  using assms(1-3,6)
proof (induction ds arbitrary: p k r)
  case Nil
  then show ?case using uint_lt2p[of r] by (simp add: unsigned_loop_stop)
next
  case (Cons c ds)
  then obtain d where d: "t p = c" "c \<noteq> 0" "dg c = Some d" "0 \<le> d" "d < base" by (auto simp: is_digit_of_def)
  have ds: "spells t (p + 1) ds" "list_all (is_digit_of dg base) ds" "stops dg base (t (p + 1 + length ds))"
    using Cons.prems by simp_all
  define r1 where "r1 = uint r * base + d"
  have pos: "0 \<le> r1" using d base by (simp add: r1_def)
  have dvs: "list_all (\<lambda>d. 0 \<le> d) (map (\<lambda>c. the (dg c)) ds)" using ds(2) by (auto simp: list_all_iff is_digit_of_def)
  show ?case
  proof (cases "ULONG_MAX < r1")
    case True
    then have "ULONG_MAX < horner base r1 (map (\<lambda>c. the (dg c)) ds)"
      using horner_ge[OF pos _ dvs, of base] base by simp
    moreover have "unsigned_loop u64_gt dg base t (t p) (p + 1) k r =
        unsigned_loop u64_gt dg base t (t (p + 1)) (p + 1 + 1) (- 1) r"
      using d overflow_test[OF base d(4,5), of r] True by (subst unsigned_loop.simps) (simp add: Let_def r1_def)
    ultimately show ?thesis
      using unsigned_loop_overflowed[OF ds, of u64_gt r] d(3) by (simp add: r1_def)
  next
    case False
    have "uint (r * of_int base + of_int d :: u64) = r1"
    proof -
      have "r * of_int base + of_int d = (of_int r1 :: u64)" by (simp add: r1_def)
      then show ?thesis using uint_small[of r1] pos False by simp
    qed
    moreover have "unsigned_loop u64_gt dg base t (t p) (p + 1) k r =
        unsigned_loop u64_gt dg base t (t (p + 1)) (p + 1 + 1) 1 (r * of_int base + of_int d)"
      using d overflow_test[OF base d(4,5), of r] False Cons.prems(4)
      by (subst unsigned_loop.simps) (auto simp: Let_def r1_def)
    ultimately show ?thesis
      using Cons.IH[OF ds, of 1 "r * of_int base + of_int d"] d(3)
      by (simp add: r1_def[symmetric] split: if_splits)
  qed
qed

text \<open>
  The number the unsigned functions see: the base \<open>b\<close> that is used follows from the base that is
  given, the prefix \<open>pre\<close> and the first digit.
\<close>

abbreviation letter :: "int \<Rightarrow> int option" where
  "letter \<equiv> letter_value isdigit isalpha isupper"

definition unsigned_text ::
    "int \<Rightarrow> int \<Rightarrow> ctext \<Rightarrow> nat \<Rightarrow> int list \<Rightarrow> int list \<Rightarrow> int list \<Rightarrow> int list \<Rightarrow> bool" where
  "unsigned_text base b t str ws sg pre ds \<longleftrightarrow>
     spells t str (ws @ sg @ pre @ ds) \<and>
     list_all isspace ws \<and> sg \<in> {[], [43], [45]} \<and>
     (if (base = 0 \<or> base = 16) \<and> t (str + length (ws @ sg)) = 48 \<and> t (str + length (ws @ sg) + 1) \<in> {88, 120}
      then pre \<in> {[48, 120], [48, 88]} \<and> b = 16
      else pre = [] \<and> b = (if base = 0 then if hd ds = 48 then 8 else 10 else base)) \<and>
     ds \<noteq> [] \<and> list_all (is_digit_of letter b) ds \<and>
     stops letter b (t (str + length (ws @ sg @ pre @ ds)))"

lemma letter_not_special: "is_digit_of letter b c \<Longrightarrow> \<not> isspace c \<and> c \<noteq> 45 \<and> c \<noteq> 43"
  by (auto simp: is_digit_of_def letter_value_def isdigit_def isalpha_def isupper_def islower_def isspace_def
      split: if_splits)

lemma unsigned_text_head:
  assumes "unsigned_text base b t str ws sg pre ds"
  shows "\<not> isspace (t (str + length (ws @ sg)))" "t (str + length (ws @ sg)) \<noteq> 45" "t (str + length (ws @ sg)) \<noteq> 43"
proof -
  have sp: "spells t (str + length (ws @ sg)) (pre @ ds)" and ne: "pre @ ds \<noteq> []" and ds: "list_all (is_digit_of letter b) ds"
    using assms by (simp_all add: unsigned_text_def spells_append add.assoc)
  have "t (str + length (ws @ sg)) = hd (pre @ ds)" using sp ne by (rule spells_head)
  moreover have "pre = [] \<or> hd (pre @ ds) = 48"
    using assms unfolding unsigned_text_def by (metis append_Cons insert_iff list.sel(1) singletonD)
  moreover have "is_digit_of letter b (hd ds)" if "pre = []" using ds ne that by (cases ds) simp_all
  ultimately show "\<not> isspace (t (str + length (ws @ sg)))" "t (str + length (ws @ sg)) \<noteq> 45" "t (str + length (ws @ sg)) \<noteq> 43"
    using letter_not_special[of b "hd ds"] by (auto simp: isspace_def)
qed

lemma unsigned_text_sign:
  assumes "unsigned_text base b t str ws sg pre ds"
  shows "skip_while isspace t str = Some (str + length ws)"
    and "t (str + length ws) = 45 \<longleftrightarrow> sg = [45]"
    and "(if sg = [45] \<or> t (str + length ws) = 43
          then str + length ws + 1 else str + length ws) = str + length (ws @ sg)"
proof -
  have sp: "spells t str ws" "spells t (str + length ws) sg" "list_all isspace ws"
    and sg: "sg = [] \<or> sg = [43] \<or> sg = [45]"
    using assms by (auto simp: unsigned_text_def spells_append)
  note hd = unsigned_text_head[OF assms]
  have "\<not> isspace (t (str + length ws))" using sg sp(2) hd(1) by (auto simp: isspace_def)
  then show "skip_while isspace t str = Some (str + length ws)"
    using sp by (intro skip_while_spells)
  show "t (str + length ws) = 45 \<longleftrightarrow> sg = [45]" using sg sp(2) hd by auto
  show "(if sg = [45] \<or> t (str + length ws) = 43
          then str + length ws + 1 else str + length ws) = str + length (ws @ sg)"
    using sg sp(2) hd by auto
qed

lemma unsigned_run:
  assumes "unsigned_text base b t str ws sg pre ds" "b \<noteq> 0"
  shows "strtoul t str endptr base =
     do { (k, result, s) \<leftarrow> unsigned_loop u64_gt letter b t (t (str + length (ws @ sg @ pre))) (str + length (ws @ sg @ pre) + 1) 0 0;
          Some (if k = -1 then - 1 else if sg = [45] then - result else result,
                None, map_option (\<lambda>_. if k \<noteq> 0 then s - 1 else str) endptr) }"
proof -
  define q where "q = str + length (ws @ sg)"
  define hex where "hex \<longleftrightarrow> (base = 0 \<or> base = 16) \<and> t q = 48 \<and> (t (q + 1) = 88 \<or> t (q + 1) = 120)"
  have gt: "(\<lambda>a b. b < a) = u64_gt" by (simp add: fun_eq_iff u64_gt_def)
  have q: "(if sg = [45] \<or> t (str + length ws) = 43 then str + length ws + 1 else str + length ws) = q"
    using unsigned_text_sign(3)[OF assms(1)] by (simp add: q_def)
  have "spells t q (pre @ ds)" "ds \<noteq> []"
    using assms(1) by (simp_all add: unsigned_text_def spells_append q_def add.assoc)
  then have hd: "t q = hd (pre @ ds)" by (intro spells_head) auto
  have pre: "if hex then length pre = 2 \<and> b = 16
             else pre = [] \<and> b = (if base = 0 then if hd ds = 48 then 8 else 10 else base)"
    using assms(1) by (auto simp: unsigned_text_def hex_def q_def)
  have base: "(if hex then q + 2 else q) = q + length pre"
    "(if (if hex then 16 else base) = 0 then (if t (q + length pre) = 48 then 8 else 10) else (if hex then 16 else base)) = b"
    using pre hd by (auto split: if_splits)
  have len: "q + length pre = str + length (ws @ sg @ pre)" by (simp add: q_def add.assoc)
  show ?thesis
    unfolding strtoul_def strto_unsigned_def gt unsigned_text_sign(1)[OF assms(1)] Let_def Option.bind_lunit
      unsigned_text_sign(2)[OF assms(1)] q hex_def[symmetric] base
    unfolding len by simp
qed

section \<open>Properties\<close>

text \<open>
  C21: On a number within its text, \<open>strtol\<close>, \<open>strtoll\<close>, \<open>wcstol\<close> and \<open>wcstoll\<close> return its value, read
  in the given base, clamped to the range of a 64-bit \<open>long\<close>. They set \<open>errno\<close> to \<open>ERANGE\<close> exactly when
  the magnitude is above \<open>LONG_MAX\<close>, and otherwise leave it alone. The end that is stored is behind
  the digits when the text ends after the trailing white space and behind that white space
  otherwise; after an overflow it is among the digits.
\<close>

theorem signed_number_value:
  assumes "f \<in> {strtol, strtoll, wcstol, wcstoll}"
    and "number_text base t str ws sg pre ds ws2" and "2 \<le> base" "base \<le> 36"
    and "\<forall>a. endptr = Some a \<longrightarrow> a > str + length (ws @ sg @ pre @ ds)"
    and "v = horner base 0 (map (digit_value tolower) ds)"
    and "q = str + length (ws @ sg @ pre @ ds)"
  shows "\<exists>e. f t str endptr base =
             Some (max LONG_MIN (min LONG_MAX (if sg = [45] then - v else v)),
                   if v \<le> LONG_MAX then None else Some ERANGE, map_option (\<lambda>_. e) endptr) \<and>
             (v \<le> LONG_MAX \<longrightarrow> e = (if t (q + length ws2) = 0 then q else q + length ws2)) \<and>
             (v > LONG_MAX \<longrightarrow> e < q)"
proof -
  obtain bad where f: "f = strto_signed isspace isspace tolower bad LONG_MIN LONG_MAX" and "\<not> bad base"
    using assms(1,3,4)
    by (force simp: strtol_def strtoll_def wcstol_def wcstoll_def wide_classes)
  then show ?thesis
    using strto_signed_value[OF assms(2-4) _ _ _ assms(5), of bad LONG_MAX LONG_MIN] assms(6,7)
    by (simp add: Let_def split: if_splits)
qed

definition digits_mem :: "int list \<Rightarrow> ctext" where
  "digits_mem cs a = (if a < length cs then cs ! a else 0)"

theorem signed_number_value_witness:
  "\<exists>e. strtol (digits_mem [32, 45, 52, 50, 32, 120]) 0 (Some 100) 10 = Some (- 42, None, Some e) \<and> e = 5"
  using signed_number_value[of strtol 10 "digits_mem [32, 45, 52, 50, 32, 120]" 0 "[32]" "[45]" "[]" "[52, 50]" "[32]" "Some 100" 42 4]
  by (simp add: number_text_def digits_mem_def isspace_def isxdigit_def isdigit_def tolower_def digit_value_def)

text \<open>
  C22: On a number within its text \<open>strtoul\<close> finds the base, and returns the value of the digits below
  that base, negated modulo \<open>2 ^ 64\<close> after a minus sign; a value above \<open>ULONG_MAX\<close> gives \<open>ULONG_MAX\<close>. The
  end that is stored is behind the last digit, also after an overflow.
\<close>

theorem strtoul_value:
  assumes "unsigned_text base b t str ws sg pre ds" and "2 \<le> b" "b \<le> 36"
    and "v = horner b 0 (map (\<lambda>c. the (letter c)) ds)"
  shows "strtoul t str endptr base =
    Some (if v \<le> ULONG_MAX then of_int (if sg = [45] then - v else v) else - 1, None,
          map_option (\<lambda>_. str + length (ws @ sg @ pre @ ds)) endptr)"
proof -
  define q where "q = str + length (ws @ sg @ pre)"
  have "spells t q ds" "list_all (is_digit_of letter b) ds" "stops letter b (t (q + length ds))" and ne: "ds \<noteq> []"
    using assms(1) by (simp_all add: unsigned_text_def spells_append q_def add.assoc)
  note loop = unsigned_loop_spells[OF this(1-3) assms(2,3), of 0 0]
  have q: "q + length ds = str + length (ws @ sg @ pre @ ds)" by (simp add: q_def add.assoc)
  have run: "strtoul t str endptr base =
     do { (k, result, s) \<leftarrow> unsigned_loop u64_gt letter b t (t q) (q + 1) 0 0;
          Some (if k = -1 then - 1 else if sg = [45] then - result else result,
                None, map_option (\<lambda>_. if k \<noteq> 0 then s - 1 else str) endptr) }"
    unfolding q_def using assms(2) by (intro unsigned_run[OF assms(1)]) simp
  show ?thesis
  proof (cases "v \<le> ULONG_MAX")
    case True
    then have "unsigned_loop u64_gt letter b t (t q) (q + 1) 0 0 = Some (1, of_int v, q + length ds + 1)"
      using loop ne assms(4) by simp
    then show ?thesis using True unfolding run q[symmetric] by simp
  next
    case False
    then obtain r where "unsigned_loop u64_gt letter b t (t q) (q + 1) 0 0 = Some (-1, r, q + length ds + 1)"
      using loop assms(4) by auto
    then show ?thesis using False unfolding run q[symmetric] by simp
  qed
qed

theorem strtoul_value_witness:
  "strtoul (digits_mem [45, 48, 120, 49, 97, 103]) 0 (Some 100) 0 = Some (- 26, None, Some 5)"
  using strtoul_value[of 0 16 "digits_mem [45, 48, 120, 49, 97, 103]" 0 "[]" "[45]" "[48, 120]" "[49, 97]" 26 "Some 100"]
  by (simp add: unsigned_text_def digits_mem_def is_digit_of_def stops_def letter_value_def isdigit_def isalpha_def
      isupper_def islower_def)


text \<open>The base is not found by the prefix: base 0 is refused, or the prefix ends the number.\<close>

lemma strtol_base_zero:
  assumes "skip_while isspace t str = Some p"
  shows "\<exists>e. strtol t str endptr 0 = Some (0, Some EINVAL, map_option (\<lambda>_. e) endptr)"
  using assms by (auto simp: strtol_def strto_signed_def Let_def)

lemma strtoull_hex_prefix:
  "strtoull (digits_mem [48, 120, 49, 48]) 0 (Some 100) 0 = Some (0, None, Some 1)"
  by (simp add: strtoull_def skip_while.simps digits_loop.simps choose_base_def finish_parse_def digits_mem_def
      digit_value_def isdigit_def isspace_def isxdigit_def tolower_def)

lemma strtol_digits_above_base:
  "strtol (digits_mem [49, 97]) 0 None 10 = Some (20, None, None)"
  "strtol (digits_mem [122]) 0 (Some 100) 36 = Some (0, None, Some 0)"
  by (simp_all add: strtol_def strto_signed_def skip_while.simps digits_loop.simps choose_base_def finish_parse_def
      digits_mem_def digit_value_def isdigit_def isspace_def isxdigit_def tolower_def)

lemma toupper_keeps: "toupper c = c"
  by (simp add: toupper_def)

end
