(* ===== verification/Pmm.thy ===== *)
theory Pmm
  imports IntrusiveList
begin

text \<open>
  The physical memory manager of the kernel: \<open>memory/pmm.hh\<close> and \<open>memory/pmm.cc\<close>. Every page has a
  page structure. The structures of a range of memory are an array; a pointer to one is its
  number. A free run of pages carries its size in its first and its last page and is linked, by
  its first page, into the list of its order of magnitude. \<open>None\<close> is a failed assertion.
\<close>

section \<open>Pages and regions\<close>

datatype PageType = Free | PendingFree | Allocated | AllocatedPending | Reserved

text \<open>
  The members of the union of a page structure. Reading another member than the one that was
  written is a failure. The links of \<open>FreeRegionHead\<close> are in the list store.
\<close>

datatype page_union =
    FreeRegionHead (fr_size: nat)
  | PendingAllocHead (pa_next: "nat option") (pa_phys_addr: nat) (pa_size_pages: nat)
  | RCUState (pages_to_free: nat)
  | MemObjectHead (ll_refcount: nat)

record page =
  p_type :: PageType
  p_no_page :: bool
  p_anonymous :: bool
  p_union :: page_union

datatype region_name = RegionIsa | RegionBelow4gb | RegionAbove4gb

record page_array =
  start_addr :: nat
  a_size :: nat
  parent_region :: region_name
  a_pages :: nat

record pmm =
  pg :: "nat \<Rightarrow> page"
  arrays :: "page_array list"
  links :: lstore

definition PAGE_SIZE :: nat where "PAGE_SIZE = 4096"
definition page_lists :: nat where "page_lists = 30 - 12"

definition a_end :: "page_array \<Rightarrow> nat" where "a_end a = a_pages a + a_size a"
definition end_phys :: "page_array \<Rightarrow> nat" where "end_phys a = start_addr a + a_size a * PAGE_SIZE"

fun region_start :: "region_name \<Rightarrow> nat" where
  "region_start RegionIsa = 0"
| "region_start RegionBelow4gb = 0x100000"
| "region_start RegionAbove4gb = 0x100000000"

fun region_size_bytes :: "region_name \<Rightarrow> nat" where
  "region_size_bytes RegionIsa = 0x100000"
| "region_size_bytes RegionBelow4gb = 0x100000000 - 0x100000"
| "region_size_bytes RegionAbove4gb = 2 ^ 64 - 0x100000000"

definition region_get :: "nat \<Rightarrow> region_name" where
  "region_get addr =
     (if addr < region_start RegionIsa + region_size_bytes RegionIsa then RegionIsa
      else if addr < 0x100000000 then RegionBelow4gb
      else RegionAbove4gb)"

text \<open>The list of an order in a region, as a list head of the store.\<close>

fun free_pages_list :: "region_name \<Rightarrow> nat \<Rightarrow> nat" where
  "free_pages_list RegionIsa i = 3 * i"
| "free_pages_list RegionBelow4gb i = 3 * i + 1"
| "free_pages_list RegionAbove4gb i = 3 * i + 2"

fun klog2 :: "nat \<Rightarrow> nat" where
  "klog2 n = (if n < 2 then 0 else klog2 (n div 2) + 1)"

declare klog2.simps [simp del]

definition upd_page :: "nat \<Rightarrow> (page \<Rightarrow> page) \<Rightarrow> pmm \<Rightarrow> pmm" where
  "upd_page p f s = s\<lparr>pg := (pg s)(p := f (pg s p))\<rparr>"

definition upd_links :: "(lstore \<Rightarrow> lstore) \<Rightarrow> pmm \<Rightarrow> pmm" where
  "upd_links f s = s\<lparr>links := f (links s)\<rparr>"

text \<open>A write of a whole member of the union also overwrites the links that share its memory.\<close>

definition put_union :: "nat \<Rightarrow> page_union \<Rightarrow> pmm \<Rightarrow> pmm" where
  "put_union p u s =
     upd_links (\<lambda>h. h(El p := \<lparr>nxt = El p, prv = El p\<rparr>)) (upd_page p (\<lambda>q. q\<lparr>p_union := u\<rparr>) s)"

definition get_size :: "nat \<Rightarrow> pmm \<Rightarrow> nat option" where
  "get_size p s = (case p_union (pg s p) of FreeRegionHead n \<Rightarrow> Some n | _ \<Rightarrow> None)"

definition set_size :: "nat \<Rightarrow> nat \<Rightarrow> pmm \<Rightarrow> pmm" where
  "set_size p n s = upd_page p (\<lambda>q. q\<lparr>p_union := FreeRegionHead n\<rparr>) s"

definition set_type :: "nat \<Rightarrow> PageType \<Rightarrow> pmm \<Rightarrow> pmm" where
  "set_type p t s = upd_page p (\<lambda>q. q\<lparr>p_type := t\<rparr>) s"

section \<open>Page arrays\<close>

text \<open>
  \<open>memory_regions\<close> orders the arrays by the address of their page structures; the lookup gives the
  last one that does not start after \<open>p\<close>, and \<open>next\<close> the one that follows.
\<close>

definition get_smaller_or_equal :: "nat \<Rightarrow> page_array list \<Rightarrow> page_array option" where
  "get_smaller_or_equal p as =
     fold (\<lambda>a best. if a_pages a \<le> p \<and> (case best of None \<Rightarrow> True | Some b \<Rightarrow> a_pages b < a_pages a)
                    then Some a else best) as None"

definition array_next :: "page_array \<Rightarrow> page_array list \<Rightarrow> page_array option" where
  "array_next x as =
     fold (\<lambda>a best. if a_pages x < a_pages a \<and> (case best of None \<Rightarrow> True | Some b \<Rightarrow> a_pages a < a_pages b)
                    then Some a else best) as None"

definition array_find :: "nat \<Rightarrow> pmm \<Rightarrow> page_array option" where
  "array_find p s =
     do { it \<leftarrow> (case get_smaller_or_equal p (arrays s) of
                   None \<Rightarrow> find (\<lambda>i. a_pages i \<le> p \<and> p < a_end i) (arrays s)
                 | Some a \<Rightarrow> Some a);
          kassert (p \<ge> a_pages it \<and> p < a_pages it + a_size it);
          Some it }"

definition get_phys_addr :: "nat \<Rightarrow> pmm \<Rightarrow> nat option" where
  "get_phys_addr p s =
     do { kassert (\<not> p_no_page (pg s p));
          it \<leftarrow> get_smaller_or_equal p (arrays s);
          kassert (p \<ge> a_pages it \<and> p < a_pages it + a_size it);
          Some ((p - a_pages it) * PAGE_SIZE + start_addr it) }"

text \<open>The binary search over the array of descriptors, on indices.\<close>

function lower_or_equal_loop :: "('a \<Rightarrow> bool) \<Rightarrow> 'a list \<Rightarrow> nat \<Rightarrow> nat \<Rightarrow> nat \<Rightarrow> nat" where
  "lower_or_equal_loop beyond xs left right result =
     (if left < right
      then (let mid = left + (right - left) div 2 in
            if beyond (xs ! mid) then lower_or_equal_loop beyond xs left mid result
            else lower_or_equal_loop beyond xs (mid + 1) right mid)
      else result)"
  by pat_completeness auto

termination
  by (relation "measure (\<lambda>(_, _, left, right, _). right - left)") auto

declare lower_or_equal_loop.simps [simp del]

definition lower_or_equal :: "('a \<Rightarrow> bool) \<Rightarrow> 'a list \<Rightarrow> nat" where
  "lower_or_equal beyond xs = lower_or_equal_loop beyond xs 0 (length xs) 0"

definition find_page :: "nat \<Rightarrow> pmm \<Rightarrow> nat option" where
  "find_page addr s =
     (if arrays s = [] then None
      else let i = lower_or_equal (\<lambda>b. addr < start_addr b) (arrays s);
               it = arrays s ! (if i = length (arrays s) then i - 1 else i) in
           if start_addr it \<le> addr \<and> addr < start_addr it + a_size it * PAGE_SIZE
           then Some (a_pages it + (addr - start_addr it) div PAGE_SIZE)
           else None)"

section \<open>Allocation\<close>

text \<open>The body of the loop for a list that is not empty: \<open>p\<close> is its first page.\<close>

definition take_pages :: "region_name \<Rightarrow> nat \<Rightarrow> nat \<Rightarrow> nat \<Rightarrow> pmm \<Rightarrow> (nat \<times> pmm) option" where
  "take_pages r i count p s =
     do { size \<leftarrow> get_size p s;
          (q, s1) \<leftarrow>
            (if size > count
             then (let n = size - count;
                       t = p + n - 1;
                       s1 = set_type t Free (set_size t n (set_size p n s)) in
                   if n < 2 ^ i
                   then do { let s2 = upd_links (cl_remove p) s1;
                             kassert (klog2 n < i);
                             Some (p + n, upd_links (cl_push_front (free_pages_list r (klog2 n)) p) s2) }
                   else Some (p + n, s1))
             else Some (p, upd_links (cl_remove p) s));
          let s2 = upd_page q (\<lambda>x. x\<lparr>p_no_page := False, p_anonymous := False\<rparr>) (set_type q AllocatedPending s1);
          addr \<leftarrow> get_phys_addr q s2;
          Some (q, set_type (q + count - 1) AllocatedPending (put_union q (PendingAllocHead None addr count) s2)) }"

fun alloc_scan :: "region_name \<Rightarrow> nat \<Rightarrow> nat list \<Rightarrow> pmm \<Rightarrow> (nat option \<times> pmm) option" where
  "alloc_scan r count [] s = Some (None, s)"
| "alloc_scan r count (i # is) s =
     (if \<not> cl_empty (free_pages_list r i) (links s)
      then do { p \<leftarrow> cl_front (free_pages_list r i) (links s);
                (q, s') \<leftarrow> take_pages r i count p s;
                Some (Some q, s') }
      else alloc_scan r count is s)"

definition alloc_order :: "nat \<Rightarrow> nat" where
  "alloc_order count = (if 2 ^ klog2 count < count then klog2 count + 1 else klog2 count)"

definition alloc_pages_from :: "region_name \<Rightarrow> nat \<Rightarrow> pmm \<Rightarrow> (nat option \<times> pmm) option" where
  "alloc_pages_from r count s =
     do { kassert (count > 0);
          if arrays s = [] then Some (None, s)
          else if count > 2 ^ page_lists then Some (None, s)
          else alloc_scan r count [alloc_order count..<page_lists] s }"

datatype AllocPolicy = Normal | Below4GB | ISA

definition alloc_pages :: "nat \<Rightarrow> AllocPolicy \<Rightarrow> pmm \<Rightarrow> (nat option \<times> pmm) option" where
  "alloc_pages count policy s =
     (case policy of
        Normal \<Rightarrow>
          do { (ptr, s1) \<leftarrow> alloc_pages_from RegionAbove4gb count s;
               (case ptr of None \<Rightarrow> alloc_pages_from RegionBelow4gb count s1 | Some p \<Rightarrow> Some (Some p, s1)) }
      | Below4GB \<Rightarrow> alloc_pages_from RegionBelow4gb count s
      | ISA \<Rightarrow> alloc_pages_from RegionIsa count s)"

section \<open>Freeing\<close>

text \<open>
  One round of the loop of \<open>free_page\<close>. \<open>free_request\<close> reads what is to be freed, \<open>free_carry\<close> hands the part
  beyond the array to the array that follows, \<open>free_insert\<close> is the part under the lock.
\<close>

definition free_request :: "nat \<Rightarrow> pmm \<Rightarrow> (nat \<times> nat option) option" where
  "free_request p s =
     (case (p_type (pg s p), p_union (pg s p)) of
        (AllocatedPending, PendingAllocHead nx _ n) \<Rightarrow> Some (n, nx)
      | (PendingFree, RCUState n) \<Rightarrow> Some (n, None)
      | _ \<Rightarrow> None)"

definition free_carry :: "nat \<Rightarrow> page_array \<Rightarrow> nat \<Rightarrow> nat option \<Rightarrow> pmm \<Rightarrow> (nat option \<times> pmm) option" where
  "free_carry p region num next s =
     (if a_end region - p < num
      then do { next_region \<leftarrow> array_next region (arrays s);
                kassert (end_phys region = start_addr next_region);
                let max_pages = a_end region - p;
                kassert (max_pages > 0);
                kassert (num > max_pages);
                let next_size = num - max_pages;
                let n = a_pages next_region;
                let s1 = upd_page n (\<lambda>_. pg s p) s;
                u \<leftarrow> (case p_union (pg s p) of
                        PendingAllocHead nx addr _ \<Rightarrow> Some (PendingAllocHead nx addr next_size)
                      | RCUState _ \<Rightarrow> Some (RCUState next_size)
                      | _ \<Rightarrow> None);
                Some (Some n, put_union n u s1) }
      else Some (next, s))"

definition list_order :: "nat \<Rightarrow> nat" where
  "list_order n = (if klog2 n \<ge> page_lists then page_lists - 1 else klog2 n)"

definition coalesce_before :: "nat \<Rightarrow> nat \<Rightarrow> pmm \<Rightarrow> (nat \<times> nat option \<times> pmm) option" where
  "coalesce_before p num s =
     (if p_type (pg s (p - 1)) = Free
      then do { size \<leftarrow> get_size (p - 1) s;
                let p' = p - size;
                kassert (p_type (pg s p') = Free);
                size' \<leftarrow> get_size p' s;
                kassert (size' = size);
                Some (p', Some size, set_size p' (size + num) s) }
      else Some (p, None, s))"

definition coalesce_after :: "nat \<Rightarrow> pmm \<Rightarrow> pmm option" where
  "coalesce_after p s =
     do { size \<leftarrow> get_size p s;
          let a = p + size;
          if p_type (pg s a) = Free
          then do { let s1 = upd_links (cl_remove a) s;
                    after \<leftarrow> get_size a s1;
                    let aa = a + after - 1;
                    kassert (p_type (pg s1 aa) = Free);
                    after' \<leftarrow> get_size aa s1;
                    kassert (after' = after);
                    Some (set_size p (size + after) s1) }
          else Some s }"

definition list_free :: "region_name \<Rightarrow> nat \<Rightarrow> nat option \<Rightarrow> pmm \<Rightarrow> pmm option" where
  "list_free r p old s =
     do { size \<leftarrow> get_size p s;
          (case old of
             None \<Rightarrow> Some (upd_links (cl_push_front (free_pages_list r (list_order size)) p) s)
           | Some old_size \<Rightarrow>
               (let old_order = list_order old_size;
                    new_order = list_order size in
                if old_order \<noteq> page_lists - 1 \<and> old_order < new_order
                then Some (upd_links (cl_push_front (free_pages_list r new_order) p) (upd_links (cl_remove p) s))
                else Some s)) }"

definition free_insert :: "region_name \<Rightarrow> nat \<Rightarrow> nat \<Rightarrow> pmm \<Rightarrow> pmm option" where
  "free_insert r p num s =
     do { let s1 = upd_page p (\<lambda>x. x\<lparr>p_no_page := False, p_anonymous := False\<rparr>)
                     (put_union p (FreeRegionHead num) (set_type p Free s));
          (p', old, s2) \<leftarrow> coalesce_before p num s1;
          s3 \<leftarrow> coalesce_after p' s2;
          s4 \<leftarrow> list_free r p' old s3;
          size \<leftarrow> get_size p' s4;
          let e = p' + size - 1;
          Some (set_size e size (set_type e Free s4)) }"

definition free_one :: "nat \<Rightarrow> pmm \<Rightarrow> (nat option \<times> pmm) option" where
  "free_one p s =
     do { region \<leftarrow> array_find p s;
          (num, next) \<leftarrow> free_request p s;
          (next', s1) \<leftarrow> free_carry p region num next s;
          s2 \<leftarrow> free_insert (parent_region region) p num s1;
          Some (next', s2) }"

partial_function (option) free_page :: "nat option \<Rightarrow> pmm \<Rightarrow> pmm option" where
  "free_page p s =
     (case p of None \<Rightarrow> Some s
      | Some q \<Rightarrow> do { (next, s') \<leftarrow> free_one q s; free_page next s' })"

section \<open>Memory for the kernel\<close>

text \<open>The pages become \<open>Allocated\<close> one by one; \<open>p[i].l\<close> overwrites the union.\<close>

definition use_page :: "nat \<Rightarrow> pmm \<Rightarrow> pmm" where
  "use_page p s =
     put_union p (MemObjectHead 1)
      (upd_page p (\<lambda>x. x\<lparr>p_type := Allocated, p_no_page := False, p_anonymous := False\<rparr>) s)"

definition use_pages :: "nat \<Rightarrow> nat \<Rightarrow> pmm \<Rightarrow> pmm" where
  "use_pages p n s = fold (\<lambda>i. use_page (p + i)) [0..<n] s"

text \<open>
  \<open>get_memory_for_kernel\<close> once the manager is initialised; \<open>None\<close> as the address stands for \<open>-1\<close>.
\<close>

definition get_memory_for_kernel :: "nat \<Rightarrow> AllocPolicy \<Rightarrow> pmm \<Rightarrow> (nat option \<times> pmm) option" where
  "get_memory_for_kernel n policy s =
     do { kassert (n > 0);
          (ptr, s1) \<leftarrow> alloc_pages n policy s;
          (case ptr of None \<Rightarrow> Some (None, s1)
           | Some p \<Rightarrow> do { let s2 = use_pages p n s1;
                             addr \<leftarrow> get_phys_addr p s2;
                             Some (Some addr, s2) }) }"

text \<open>\<open>free_memory_for_kernel\<close>: the pages wait for the grace period with their number; the callback frees them.\<close>

definition mark_pending_free :: "nat \<Rightarrow> nat \<Rightarrow> pmm \<Rightarrow> pmm" where
  "mark_pending_free p n s = put_union p (RCUState n) (set_type p PendingFree s)"

definition free_memory_for_kernel :: "nat \<Rightarrow> nat \<Rightarrow> pmm \<Rightarrow> (nat \<times> pmm) option" where
  "free_memory_for_kernel addr n s =
     do { p \<leftarrow> find_page addr s;
          Some (p, mark_pending_free p n s) }"

definition rcu_callback :: "nat \<Rightarrow> pmm \<Rightarrow> pmm option" where
  "rcu_callback p s = free_page (Some p) s"

section \<open>New arrays\<close>

text \<open>\<open>add_page_array\<close>; \<open>room\<close> tells whether there is room for another descriptor.\<close>

definition add_page_array :: "bool \<Rightarrow> nat \<Rightarrow> nat \<Rightarrow> nat \<Rightarrow> pmm \<Rightarrow> (bool \<times> pmm) option" where
  "add_page_array room start sz pages s =
     do { let r = region_get start;
          kassert (start \<ge> region_start r);
          kassert (start - region_start r < region_size_bytes r);
          let bytes = sz * PAGE_SIZE;
          kassert (region_size_bytes r \<ge> bytes);
          kassert (region_size_bytes r - bytes \<ge> start - region_start r);
          if \<not> room then Some (False, s)
          else Some (True, s\<lparr>arrays := arrays s @ [\<lparr>start_addr = start, a_size = sz, parent_region = r, a_pages = pages\<rparr>]\<rparr>) }"

end
