(* ===== verification/Pmm_Inv.thy ===== *)
theory Pmm_Inv
  imports Pmm
begin

text \<open>
  The invariant of the physical memory manager: the pages it manages are divided into blocks,
  free ones and allocated ones, and the tags in the page structures and the lists describe
  exactly the free ones.
\<close>

section \<open>Reading the updated state\<close>

named_theorems pmm_simps

lemma set_type_simps [pmm_simps]:
  "p_type (pg (set_type p t s) x) = (if x = p then t else p_type (pg s x))"
  "p_union (pg (set_type p t s) x) = p_union (pg s x)"
  "p_no_page (pg (set_type p t s) x) = p_no_page (pg s x)"
  "arrays (set_type p t s) = arrays s" "links (set_type p t s) = links s"
  "x \<noteq> p \<Longrightarrow> pg (set_type p t s) x = pg s x"
  by (simp_all add: set_type_def upd_page_def)

lemma set_size_simps [pmm_simps]:
  "p_type (pg (set_size p n s) x) = p_type (pg s x)"
  "p_union (pg (set_size p n s) x) = (if x = p then FreeRegionHead n else p_union (pg s x))"
  "p_no_page (pg (set_size p n s) x) = p_no_page (pg s x)"
  "arrays (set_size p n s) = arrays s" "links (set_size p n s) = links s"
  "x \<noteq> p \<Longrightarrow> pg (set_size p n s) x = pg s x"
  by (simp_all add: set_size_def upd_page_def)

lemma put_union_simps [pmm_simps]:
  "p_type (pg (put_union p u s) x) = p_type (pg s x)"
  "p_union (pg (put_union p u s) x) = (if x = p then u else p_union (pg s x))"
  "p_no_page (pg (put_union p u s) x) = p_no_page (pg s x)"
  "arrays (put_union p u s) = arrays s"
  "links (put_union p u s) = (links s)(El p := \<lparr>nxt = El p, prv = El p\<rparr>)"
  "x \<noteq> p \<Longrightarrow> pg (put_union p u s) x = pg s x"
  by (simp_all add: put_union_def upd_page_def upd_links_def)

lemma upd_links_simps [pmm_simps]:
  "pg (upd_links f s) = pg s" "arrays (upd_links f s) = arrays s" "links (upd_links f s) = f (links s)"
  by (simp_all add: upd_links_def)

lemma upd_page_simps [pmm_simps]:
  "pg (upd_page p f s) x = (if x = p then f (pg s p) else pg s x)"
  "arrays (upd_page p f s) = arrays s" "links (upd_page p f s) = links s"
  by (simp_all add: upd_page_def)

lemma get_size_simps [pmm_simps]:
  "get_size p (upd_links f s) = get_size p s"
  "get_size p (set_type q t s) = get_size p s"
  "get_size p (set_size q n s) = (if p = q then Some n else get_size p s)"
  "get_size p (put_union q (FreeRegionHead n) s) = (if p = q then Some n else get_size p s)"
  by (simp_all add: get_size_def pmm_simps)

lemma get_sizeI: "p_union (pg s p) = FreeRegionHead n \<Longrightarrow> get_size p s = Some n"
  by (simp add: get_size_def)

section \<open>Orders\<close>

lemma klog2_bounds: "0 < n \<Longrightarrow> 2 ^ klog2 n \<le> n \<and> n < 2 ^ (klog2 n + 1)"
proof (induction n rule: klog2.induct)
  case (1 n)
  show ?case
  proof (cases "n < 2")
    case True
    then show ?thesis using 1 by (simp add: klog2.simps[of n])
  next
    case False
    then have IH: "2 ^ klog2 (n div 2) \<le> n div 2" "n div 2 < 2 ^ (klog2 (n div 2) + 1)" using 1 by auto
    have k: "klog2 n = klog2 (n div 2) + 1" using False by (simp add: klog2.simps[of n])
    have "2 * 2 ^ klog2 (n div 2) \<le> n" using IH(1) by linarith
    moreover have "n < 2 * 2 ^ (klog2 (n div 2) + 1)" using IH(2) by linarith
    ultimately show ?thesis unfolding k by simp
  qed
qed

lemma klog2_unique:
  assumes "2 ^ k \<le> n" "n < 2 ^ (k + 1)"
  shows "klog2 n = k"
proof -
  have n: "0 < n" using assms(1) by (metis gr0I le_zero_eq power_not_zero zero_neq_numeral)
  have "(2 :: nat) ^ k < 2 ^ (klog2 n + 1)" "(2 :: nat) ^ klog2 n < 2 ^ (k + 1)"
    using klog2_bounds[OF n] assms by linarith+
  then have "k < klog2 n + 1" "klog2 n < k + 1" by (meson one_less_numeral_iff power_less_imp_less_exp semiring_norm(76))+
  then show ?thesis by linarith
qed

lemma klog2_less: "0 < n \<Longrightarrow> n < 2 ^ i \<Longrightarrow> klog2 n < i"
  using klog2_bounds[of n] by (meson le_less_trans one_less_numeral_iff power_less_imp_less_exp semiring_norm(76))

lemma klog2_mono: "0 < m \<Longrightarrow> m \<le> n \<Longrightarrow> klog2 m \<le> klog2 n"
proof (rule ccontr)
  assume m: "0 < m" "m \<le> n" and "\<not> klog2 m \<le> klog2 n"
  then have "(2 :: nat) ^ (klog2 n + 1) \<le> 2 ^ klog2 m" by (intro power_increasing) auto
  then show False using klog2_bounds[of m] klog2_bounds[of n] m by linarith
qed

lemma alloc_order_ge: "0 < c \<Longrightarrow> c \<le> 2 ^ alloc_order c"
  using klog2_bounds[of c] by (auto simp: alloc_order_def)

lemma page_lists_value [simp]: "page_lists = 18" by (simp add: page_lists_def)

lemma list_order_le: "list_order n \<le> 17" by (simp add: list_order_def)

lemma list_order_ge: "0 < n \<Longrightarrow> 2 ^ list_order n \<le> n"
proof -
  assume n: "0 < n"
  have "2 ^ list_order n \<le> (2 :: nat) ^ klog2 n" by (rule power_increasing) (auto simp: list_order_def)
  then show ?thesis using klog2_bounds[OF n] by linarith
qed

lemma list_order_mono: "0 < m \<Longrightarrow> m \<le> n \<Longrightarrow> list_order m \<le> list_order n"
  using klog2_mono[of m n] by (auto simp: list_order_def)

lemma list_order_small: "0 < n \<Longrightarrow> n < 2 ^ i \<Longrightarrow> i \<le> 17 \<Longrightarrow> list_order n = klog2 n"
  using klog2_less[of n i] by (auto simp: list_order_def)

lemma list_order_keeps:
  assumes "list_order n = i" "0 < n" "m \<le> n" "2 ^ i \<le> m"
  shows "list_order m = i"
proof -
  have m: "0 < m" using assms(4) by (metis gr0I le_zero_eq power_not_zero zero_neq_numeral)
  have "list_order m \<le> i" using list_order_mono[OF m assms(3)] assms(1) by simp
  moreover have "i \<le> klog2 m" using klog2_mono[OF _ assms(4)] klog2_unique[of i "2 ^ i"] by simp
  moreover have "i \<le> 17" using assms(1) list_order_le by blast
  ultimately show ?thesis by (auto simp: list_order_def split: if_splits)
qed

lemma free_pages_list_inj [simp]: "free_pages_list r i = free_pages_list r' i' \<longleftrightarrow> r = r' \<and> i = i'"
  by (cases r; cases r'; simp; arith)

section \<open>Arrays\<close>

definition arrays_ok :: "page_array list \<Rightarrow> bool" where
  "arrays_ok as \<longleftrightarrow> (\<forall>a\<in>set as. \<forall>b\<in>set as. a \<noteq> b \<longrightarrow> a_end a < a_pages b \<or> a_end b < a_pages a)"

definition in_array :: "pmm \<Rightarrow> nat \<Rightarrow> nat \<Rightarrow> page_array \<Rightarrow> bool" where
  "in_array s b n a \<longleftrightarrow> a \<in> set (arrays s) \<and> a_pages a \<le> b \<and> b + n \<le> a_end a"

definition reg :: "pmm \<Rightarrow> nat \<Rightarrow> region_name" where
  "reg s b = parent_region (the (get_smaller_or_equal b (arrays s)))"

lemma in_array_cong: "arrays s' = arrays s \<Longrightarrow> in_array s' = in_array s"
  by (simp add: in_array_def fun_eq_iff)

lemma reg_cong: "arrays s' = arrays s \<Longrightarrow> reg s' = reg s"
  by (simp add: reg_def fun_eq_iff)

lemma get_smaller_or_equal_max:
  "case get_smaller_or_equal p xs of
     None \<Rightarrow> \<forall>a\<in>set xs. p < a_pages a
   | Some b \<Rightarrow> b \<in> set xs \<and> a_pages b \<le> p \<and> (\<forall>a\<in>set xs. a_pages a \<le> p \<longrightarrow> a_pages a \<le> a_pages b)"
proof (induction xs rule: rev_induct)
  case Nil
  then show ?case by (simp add: get_smaller_or_equal_def)
next
  case (snoc x xs)
  then show ?case
    by (cases "get_smaller_or_equal p xs") (auto simp: get_smaller_or_equal_def)
qed

lemma get_smaller_or_equal_in:
  assumes ok: "arrays_ok (arrays s)" and a: "in_array s b n a" "0 < n"
  shows "get_smaller_or_equal b (arrays s) = Some a"
proof -
  obtain x where x: "get_smaller_or_equal b (arrays s) = Some x"
    using get_smaller_or_equal_max[where p = b and xs = "arrays s"] a by (cases "get_smaller_or_equal b (arrays s)") (auto simp: in_array_def)
  have m: "x \<in> set (arrays s)" "a_pages x \<le> b" "a_pages a \<le> a_pages x"
    using get_smaller_or_equal_max[where p = b and xs = "arrays s"] a unfolding x by (auto simp: in_array_def)
  have "x = a"
  proof (rule ccontr)
    assume "x \<noteq> a"
    then have "a_end x < a_pages a \<or> a_end a < a_pages x"
      using ok m(1) a(1) unfolding arrays_ok_def in_array_def by blast
    then show False using m a by (auto simp: in_array_def a_end_def)
  qed
  then show ?thesis using x by simp
qed

lemma array_find_in:
  assumes "arrays_ok (arrays s)" "in_array s b n a" "0 < n"
  shows "array_find b s = Some a"
  using get_smaller_or_equal_in[OF assms] assms(2,3) by (simp add: array_find_def in_array_def a_end_def)

lemma get_phys_addr_in:
  assumes "arrays_ok (arrays s)" "in_array s b n a" "0 < n" "\<not> p_no_page (pg s b)"
  shows "get_phys_addr b s = Some ((b - a_pages a) * PAGE_SIZE + start_addr a)"
  using get_smaller_or_equal_in[OF assms(1-3)] assms(2-4) by (simp add: get_phys_addr_def in_array_def a_end_def)

lemma reg_in: "arrays_ok (arrays s) \<Longrightarrow> in_array s b n a \<Longrightarrow> 0 < n \<Longrightarrow> reg s b = parent_region a"
  using get_smaller_or_equal_in[of s b n a] by (simp add: reg_def)

lemma same_array:
  assumes "arrays_ok (arrays s)" "in_array s b n a" "in_array s (b + n) m a'" "0 < n" "0 < m"
  shows "a' = a"
proof (rule ccontr)
  assume "a' \<noteq> a"
  then have "a_end a < a_pages a' \<or> a_end a' < a_pages a"
    using assms(1-3) unfolding arrays_ok_def in_array_def by blast
  then show False using assms(2-5) by (auto simp: in_array_def)
qed

section \<open>Blocks\<close>

text \<open>A block: the number of its pages and whether it is free, by its first page.\<close>

type_synonym blocks = "nat \<Rightarrow> (nat \<times> bool) option"

definition tagged :: "pmm \<Rightarrow> nat \<Rightarrow> nat \<Rightarrow> bool \<Rightarrow> bool" where
  "tagged s b n f \<longleftrightarrow>
     (if f then p_type (pg s b) = Free \<and> p_union (pg s b) = FreeRegionHead n \<and>
                p_type (pg s (b + n - 1)) = Free \<and> p_union (pg s (b + n - 1)) = FreeRegionHead n
      else p_type (pg s b) \<noteq> Free \<and> p_type (pg s (b + n - 1)) \<noteq> Free)"

text \<open>Free pages next to a block belong to a free block, and two free blocks never touch.\<close>

definition bounded :: "pmm \<Rightarrow> blocks \<Rightarrow> nat \<Rightarrow> nat \<Rightarrow> bool \<Rightarrow> bool" where
  "bounded s blk b n f \<longleftrightarrow>
     (p_type (pg s (b - 1)) = Free \<longrightarrow> (\<exists>c m. blk c = Some (m, True) \<and> c + m = b)) \<and>
     (p_type (pg s (b + n)) = Free \<longrightarrow> (\<exists>m. blk (b + n) = Some (m, True))) \<and>
     (f \<longrightarrow> (\<forall>m. blk (b + n) \<noteq> Some (m, True)))"

definition disjoint_blocks :: "blocks \<Rightarrow> bool" where
  "disjoint_blocks blk \<longleftrightarrow> (\<forall>b n f c m g. blk b = Some (n, f) \<longrightarrow> blk c = Some (m, g) \<longrightarrow> b < c \<longrightarrow> b + n \<le> c)"

definition listed :: "pmm \<Rightarrow> blocks \<Rightarrow> (nat \<Rightarrow> nat list) \<Rightarrow> bool" where
  "listed s blk L \<longleftrightarrow> cl_rep (links s) L \<and>
     (\<forall>q b. b \<in> set (L q) \<longleftrightarrow> (\<exists>n. blk b = Some (n, True) \<and> q = free_pages_list (reg s b) (list_order n)))"

definition pmm_inv :: "pmm \<Rightarrow> blocks \<Rightarrow> bool" where
  "pmm_inv s blk \<longleftrightarrow>
     arrays_ok (arrays s) \<and> disjoint_blocks blk \<and>
     (\<forall>b n f. blk b = Some (n, f) \<longrightarrow>
        0 < b \<and> 0 < n \<and> (\<exists>a. in_array s b n a) \<and> tagged s b n f \<and> bounded s blk b n f) \<and>
     (\<exists>L. listed s blk L)"

lemma pmm_invD:
  assumes "pmm_inv s blk"
  shows "arrays_ok (arrays s)" "disjoint_blocks blk"
    "blk b = Some (n, f) \<Longrightarrow> 0 < b" "blk b = Some (n, f) \<Longrightarrow> 0 < n"
    "blk b = Some (n, f) \<Longrightarrow> \<exists>a. in_array s b n a"
    "blk b = Some (n, f) \<Longrightarrow> tagged s b n f" "blk b = Some (n, f) \<Longrightarrow> bounded s blk b n f"
  using assms unfolding pmm_inv_def by blast+

lemma disjoint_blocksD:
  "disjoint_blocks blk \<Longrightarrow> blk b = Some (n, f) \<Longrightarrow> blk c = Some (m, g) \<Longrightarrow> b < c \<Longrightarrow> b + n \<le> c"
  unfolding disjoint_blocks_def by blast

section \<open>The lists by their members\<close>

definition members :: "lstore \<Rightarrow> (nat \<Rightarrow> nat \<Rightarrow> bool) \<Rightarrow> bool" where
  "members h M \<longleftrightarrow> (\<exists>L. cl_rep h L \<and> (\<forall>q b. b \<in> set (L q) \<longleftrightarrow> M q b))"

lemma members_remove:
  assumes "members h M" "M q b"
  shows "members (cl_remove b h) (\<lambda>q x. x \<noteq> b \<and> M q x)"
proof -
  obtain L where L: "cl_rep h L" "\<And>q b. b \<in> set (L q) \<longleftrightarrow> M q b" using assms(1) unfolding members_def by blast
  have "cl_rep (cl_remove b h) (L(q := remove1 b (L q)))" by (rule cl_rep_remove[OF L(1)]) (simp add: L(2) assms(2))
  moreover have "x \<in> set ((L(q := remove1 b (L q))) q') \<longleftrightarrow> x \<noteq> b \<and> M q' x" for q' x
  proof -
    have "M q' b \<Longrightarrow> q' = q" using cl_repD(5)[OF L(1), of b q q'] assms(2) by (simp add: L(2))
    then show ?thesis using cl_repD(1)[OF L(1), of q] by (auto simp: L(2))
  qed
  ultimately show ?thesis unfolding members_def by blast
qed

lemma members_push:
  assumes "members h M" "\<And>q. \<not> M q b"
  shows "members (cl_push_front q b h) (\<lambda>q' x. if x = b then q' = q else M q' x)"
proof -
  obtain L where L: "cl_rep h L" "\<And>q b. b \<in> set (L q) \<longleftrightarrow> M q b" using assms(1) unfolding members_def by blast
  have "cl_rep (cl_push_front q b h) (L(q := b # L q))" by (rule cl_rep_push_front[OF L(1)]) (simp add: L(2) assms(2))
  moreover have "x \<in> set ((L(q := b # L q)) q') \<longleftrightarrow> (if x = b then q' = q else M q' x)" for q' x
    using assms(2) by (simp add: L(2))
  ultimately show ?thesis unfolding members_def by blast
qed

lemma members_skip:
  assumes "members h M" "\<And>q. \<not> M q b"
  shows "members (h(El b := x)) M"
proof -
  obtain L where L: "cl_rep h L" "\<And>q b. b \<in> set (L q) \<longleftrightarrow> M q b" using assms(1) unfolding members_def by blast
  have "enx (h(El b := x)) e = enx h e" "epv (h(El b := x)) e = epv h e" if "e \<in> set (L q)" for e q
  proof -
    have "e \<noteq> b" using that assms(2) L(2) by blast
    then show "enx (h(El b := x)) e = enx h e" "epv (h(El b := x)) e = epv h e" by (simp_all add: enx_def epv_def del: elem_links)
  qed
  then have "chain El (enx (h(El b := x))) (epv (h(El b := x))) (Hd q) (L q) (Hd q)" for q
    using cl_repD(4)[OF L(1), of q] chain_cong[of "L q" "enx (h(El b := x))" "enx h" "epv (h(El b := x))" "epv h"]
    by blast
  then have "cl_rep (h(El b := x)) L" using L(1) by (simp add: cl_rep_def cl_rep1_def)
  then show ?thesis using L(2) unfolding members_def by blast
qed

lemma members_front:
  assumes "members h M"
  shows "if cl_empty q h then (\<forall>b. \<not> M q b) else \<exists>b. cl_front q h = Some b \<and> M q b"
proof -
  obtain L where L: "cl_rep h L" "\<And>q b. b \<in> set (L q) \<longleftrightarrow> M q b" using assms(1) unfolding members_def by blast
  show ?thesis using cl_rep_empty[OF L(1), of q] cl_rep_front[OF L(1), of q] L(2)[symmetric]
    by (cases "L q") auto
qed

definition free_in :: "pmm \<Rightarrow> blocks \<Rightarrow> nat \<Rightarrow> nat \<Rightarrow> bool" where
  "free_in s blk q b \<longleftrightarrow> (\<exists>n. blk b = Some (n, True) \<and> q = free_pages_list (reg s b) (list_order n))"

lemma pmm_inv_members: "pmm_inv s blk \<Longrightarrow> members (links s) (free_in s blk)"
  unfolding pmm_inv_def listed_def members_def free_in_def by blast

lemma members_cong: "members h M \<Longrightarrow> (\<And>q b. M q b \<longleftrightarrow> M' q b) \<Longrightarrow> members h M'"
  unfolding members_def by metis

section \<open>Changing a range of pages\<close>

text \<open>
  The operations change the pages of a range \<open>lo..<hi\<close> that is a union of blocks, and divide it
  anew. What has to be shown is about the new blocks of the range and its two ends.
\<close>

definition whole :: "blocks \<Rightarrow> nat \<Rightarrow> nat \<Rightarrow> bool" where
  "whole blk lo hi \<longleftrightarrow>
     (\<forall>b n f. blk b = Some (n, f) \<longrightarrow> b + n \<le> lo \<or> hi \<le> b \<or> (lo \<le> b \<and> b + n \<le> hi))"

definition divide :: "blocks \<Rightarrow> nat \<Rightarrow> nat \<Rightarrow> blocks \<Rightarrow> blocks" where
  "divide blk lo hi new b = (if lo \<le> b \<and> b < hi then new b else blk b)"

lemma divide_simps [simp]:
  "lo \<le> b \<Longrightarrow> b < hi \<Longrightarrow> divide blk lo hi new b = new b"
  "b < lo \<Longrightarrow> divide blk lo hi new b = blk b"
  "hi \<le> b \<Longrightarrow> divide blk lo hi new b = blk b"
  by (simp_all add: divide_def)

lemma wholeD:
  "whole blk lo hi \<Longrightarrow> blk b = Some (n, f) \<Longrightarrow> b + n \<le> lo \<or> hi \<le> b \<or> (lo \<le> b \<and> b + n \<le> hi)"
  unfolding whole_def by blast

lemma disjoint_divide:
  assumes "disjoint_blocks blk" "whole blk lo hi" "whole new lo hi" "disjoint_blocks new"
    and pos: "\<And>b n f. blk b = Some (n, f) \<Longrightarrow> 0 < n" "\<And>b n f. new b = Some (n, f) \<Longrightarrow> 0 < n"
  shows "disjoint_blocks (divide blk lo hi new)"
  unfolding disjoint_blocks_def
proof (intro allI impI)
  fix b n f c m g
  assume b: "divide blk lo hi new b = Some (n, f)" and c: "divide blk lo hi new c = Some (m, g)" and "b < c"
  show "b + n \<le> c"
  proof (cases "lo \<le> b \<and> b < hi"; cases "lo \<le> c \<and> c < hi")
    assume "lo \<le> b \<and> b < hi" "lo \<le> c \<and> c < hi"
    then show ?thesis using b c \<open>b < c\<close> assms(4) by (auto intro: disjoint_blocksD)
  next
    assume o: "lo \<le> b \<and> b < hi" "\<not> (lo \<le> c \<and> c < hi)"
    then have "b + n \<le> lo \<or> hi \<le> b \<or> (lo \<le> b \<and> b + n \<le> hi)" using b by (intro wholeD[OF assms(3)]) simp
    then show ?thesis using o \<open>b < c\<close> pos(2)[of b n f] b by auto
  next
    assume o: "\<not> (lo \<le> b \<and> b < hi)" "lo \<le> c \<and> c < hi"
    then have "blk b = Some (n, f)" using b by (auto simp: divide_def)
    then have "b + n \<le> lo \<or> hi \<le> b \<or> (lo \<le> b \<and> b + n \<le> hi)" by (rule wholeD[OF assms(2)])
    then show ?thesis using o \<open>b < c\<close> by auto
  next
    assume "\<not> (lo \<le> b \<and> b < hi)" "\<not> (lo \<le> c \<and> c < hi)"
    then show ?thesis using b c \<open>b < c\<close> assms(1) by (auto simp: divide_def intro: disjoint_blocksD)
  qed
qed

lemma pmm_inv_divide:
  assumes inv: "pmm_inv s blk" and range: "lo < hi" "whole blk lo hi"
    and arr: "arrays s' = arrays s"
    and frame: "\<And>x. x < lo \<or> hi \<le> x \<Longrightarrow> pg s' x = pg s x"
    and new: "\<And>b n f. new b = Some (n, f) \<Longrightarrow> lo \<le> b \<and> b + n \<le> hi \<and> 0 < n \<and> 0 < b \<and>
        (\<exists>a. in_array s b n a) \<and> tagged s' b n f \<and> bounded s' (divide blk lo hi new) b n f"
    and dis: "disjoint_blocks new"
    and left: "p_type (pg s' lo) = Free \<longleftrightarrow> (\<exists>m. new lo = Some (m, True))"
    and left_free: "\<And>b n. blk b = Some (n, True) \<Longrightarrow> b + n = lo \<Longrightarrow> p_type (pg s' lo) \<noteq> Free"
    and right: "p_type (pg s' (hi - 1)) = Free \<longrightarrow> (\<exists>b n. new b = Some (n, True) \<and> b + n = hi)"
    and lists: "members (links s') (free_in s (divide blk lo hi new))"
  shows "pmm_inv s' (divide blk lo hi new)"
proof -
  let ?blk = "divide blk lo hi new"
  note D = pmm_invD[OF inv]
  have whole_new: "whole new lo hi" using new unfolding whole_def by blast
  have "disjoint_blocks ?blk"
    using D(4) new by (intro disjoint_divide[OF D(2) range(2) whole_new dis]) blast+
  moreover have "\<exists>L. listed s' ?blk L"
    using lists unfolding listed_def members_def free_in_def reg_cong[OF arr] .
  moreover have "0 < b \<and> 0 < n \<and> (\<exists>a. in_array s' b n a) \<and> tagged s' b n f \<and> bounded s' ?blk b n f"
    if blk: "?blk b = Some (n, f)" for b n f
  proof (cases "lo \<le> b \<and> b < hi")
    case True
    then show ?thesis using blk new[of b n f] by (simp add: in_array_cong[OF arr])
  next
    case False
    then have old: "blk b = Some (n, f)" using blk by (auto simp: divide_def split: if_splits)
    note o = D(3-7)[OF old]
    have out: "b + n \<le> lo \<or> hi \<le> b" using wholeD[OF range(2) old] False o(2) by auto
    have "pg s' b = pg s b" "pg s' (b + n - 1) = pg s (b + n - 1)" using out o(2) by (auto intro: frame)
    then have "tagged s' b n f" using o(4) unfolding tagged_def by (cases f) simp_all
    moreover have "bounded s' ?blk b n f"
      unfolding bounded_def
    proof (intro conjI impI allI)
      assume e: "p_type (pg s' (b - 1)) = Free"
      show "\<exists>c m. ?blk c = Some (m, True) \<and> c + m = b"
      proof (cases "b = hi")
        case True
        then obtain c m where c: "new c = Some (m, True)" "c + m = hi" using right e by auto
        then show ?thesis using True new[OF c(1)] by (intro exI[of _ c] exI[of _ m]) simp
      next
        case b: False
        then have "pg s' (b - 1) = pg s (b - 1)" using out o(1,2) by (intro frame) auto
        then obtain c m where c: "blk c = Some (m, True)" "c + m = b" using o(5) e by (auto simp: bounded_def)
        have "\<not> (lo \<le> c \<and> c < hi)" using c wholeD[OF range(2) c(1)] out b False D(4)[OF c(1)] by auto
        then show ?thesis using c by (intro exI[of _ c] exI[of _ m]) (auto simp: divide_def)
      qed
    next
      assume e: "p_type (pg s' (b + n)) = Free"
      show "\<exists>m. ?blk (b + n) = Some (m, True)"
      proof (cases "b + n = lo")
        case True
        then show ?thesis using left e range(1) by auto
      next
        case b: False
        then have x: "b + n < lo \<or> hi \<le> b + n" using out by auto
        then have "p_type (pg s (b + n)) = Free" using e frame[of "b + n"] by simp
        then show ?thesis using o(5) x by (auto simp: bounded_def divide_def)
      qed
    next
      fix m assume f: f
      show "?blk (b + n) \<noteq> Some (m, True)"
      proof (cases "b + n = lo")
        case True
        then show ?thesis using left left_free[of b n] old f range(1) by auto
      next
        case b: False
        then have x: "b + n < lo \<or> hi \<le> b + n" using out by auto
        then show ?thesis using o(5) f by (auto simp: bounded_def divide_def)
      qed
    qed
    ultimately show ?thesis using o(1-3) by (simp add: in_array_cong[OF arr])
  qed
  ultimately show ?thesis using D(1) arr unfolding pmm_inv_def by auto
qed

section \<open>Allocation\<close>

lemma whole_block: "disjoint_blocks blk \<Longrightarrow> blk b = Some (n, f) \<Longrightarrow> whole blk b (b + n)"
  unfolding whole_def by (metis disjoint_blocksD linorder_neqE_nat order_refl option.inject prod.inject)

text \<open>What \<open>take_pages\<close> leaves behind in the place of a free block of \<open>n\<close> pages.\<close>

definition cut :: "nat \<Rightarrow> nat \<Rightarrow> nat \<Rightarrow> blocks" where
  "cut b n count x =
     (if x = b + n - count then Some (count, False)
      else if x = b \<and> count < n then Some (n - count, True) else None)"

lemma cut_cases:
  "cut b n count x = Some (m, f) \<Longrightarrow> 
     (x = b + n - count \<and> m = count \<and> \<not> f) \<or> (x = b \<and> count < n \<and> m = n - count \<and> f)"
  by (auto simp: cut_def split: if_splits)

lemma cut_disjoint: "0 < count \<Longrightarrow> count \<le> n \<Longrightarrow> disjoint_blocks (cut b n count)"
  unfolding disjoint_blocks_def by (auto dest!: cut_cases)

lemma inner_not_block:
  "disjoint_blocks blk \<Longrightarrow> blk b = Some (n, f) \<Longrightarrow> b < x \<Longrightarrow> x < b + n \<Longrightarrow> blk x = None"
  using disjoint_blocksD[of blk b n f x] by (cases "blk x") auto

definition hand_out :: "nat \<Rightarrow> nat \<Rightarrow> nat \<Rightarrow> pmm \<Rightarrow> pmm" where
  "hand_out q count addr s =
     set_type (q + count - 1) AllocatedPending (put_union q (PendingAllocHead None addr count)
       (upd_page q (\<lambda>x. x\<lparr>p_no_page := False, p_anonymous := False\<rparr>) (set_type q AllocatedPending s)))"

lemma hand_out_simps:
  "x \<noteq> q \<Longrightarrow> x \<noteq> q + count - 1 \<Longrightarrow> pg (hand_out q count addr s) x = pg s x"
  "p_type (pg (hand_out q count addr s) x) = (if x = q \<or> x = q + count - 1 then AllocatedPending else p_type (pg s x))"
  "p_union (pg (hand_out q count addr s) x) = (if x = q then PendingAllocHead None addr count else p_union (pg s x))"
  "arrays (hand_out q count addr s) = arrays s"
  "links (hand_out q count addr s) = (links s)(El q := \<lparr>nxt = El q, prv = El q\<rparr>)"
  by (simp_all add: hand_out_def pmm_simps)

lemma hand_out_inv:
  assumes inv: "pmm_inv s blk" and blk: "blk b = Some (n, True)" and count: "0 < count" "count \<le> n"
    and arr: "arrays s1 = arrays s"
    and frame: "\<And>x. x < b \<or> b + n - count \<le> x \<Longrightarrow> pg s1 x = pg s x"
    and rest: "count < n \<Longrightarrow> tagged s1 b (n - count) True"
    and lists: "members (links s1) (free_in s (divide blk b (b + n) (cut b n count)))"
  shows "pmm_inv (hand_out (b + n - count) count addr s1) (divide blk b (b + n) (cut b n count))"
proof -
  let ?q = "b + n - count" and ?blk = "divide blk b (b + n) (cut b n count)"
  let ?s = "hand_out ?q count addr s1"
  note D = pmm_invD[OF inv] and h = hand_out_simps
  have n: "0 < b" "0 < n" and bnd: "bounded s blk b n True" using D(3-7)[OF blk] by auto
  obtain a where a: "in_array s b n a" using D(5)[OF blk] by blast
  have last: "?q + count - 1 = b + n - 1" using count by simp
  have cutq: "cut b n count ?q = Some (count, False)" by (simp add: cut_def)
  have free_q: "free_in s ?blk q' x \<Longrightarrow> x \<noteq> ?q" for q' x
    using count n by (auto simp: free_in_def cutq)
  have types: "p_type (pg ?s x) = (if x = ?q \<or> x = b + n - 1 then AllocatedPending else p_type (pg s1 x))" for x
    unfolding h(2) last ..
  have fr: "x \<noteq> ?q \<Longrightarrow> x \<noteq> b + n - 1 \<Longrightarrow> pg ?s x = pg s1 x" for x
    using h(1)[of x ?q count addr s1] unfolding last .
  have before: "\<exists>c m. ?blk c = Some (m, True) \<and> c + m = b" if e: "p_type (pg s (b - 1)) = Free"
  proof -
    obtain c m where c: "blk c = Some (m, True)" "c + m = b" using bnd e unfolding bounded_def by blast
    then show ?thesis using D(4)[OF c(1)] by (intro exI[of _ c] exI[of _ m]) simp
  qed
  show ?thesis
  proof (rule pmm_inv_divide[OF inv])
    show "b < b + n" using n by simp
    show "whole blk b (b + n)" by (rule whole_block[OF D(2) blk])
    show "arrays ?s = arrays s" by (simp add: h arr)
    show "pg ?s x = pg s x" if "x < b \<or> b + n \<le> x" for x
      using that count n by (subst fr) (auto simp: frame)
    show "disjoint_blocks (cut b n count)" using count by (rule cut_disjoint)
    show "p_type (pg ?s b) = Free \<longleftrightarrow> (\<exists>m. cut b n count b = Some (m, True))"
      using rest count n unfolding types by (auto simp: cut_def tagged_def)
    show "p_type (pg ?s b) \<noteq> Free" if "blk b' = Some (n', True)" "b' + n' = b" for b' n'
      using D(7)[OF that(1)] that blk by (simp add: bounded_def)
    show "p_type (pg ?s (b + n - 1)) = Free \<longrightarrow> (\<exists>b' n'. cut b n count b' = Some (n', True) \<and> b' + n' = b + n)"
      by (simp add: types)
    show "members (links ?s) (free_in s ?blk)"
      unfolding h using lists free_q by (intro members_skip) blast+
    fix b' m f assume c: "cut b n count b' = Some (m, f)"
    show "b \<le> b' \<and> b' + m \<le> b + n \<and> 0 < m \<and> 0 < b' \<and> (\<exists>a. in_array s b' m a) \<and> tagged ?s b' m f \<and> bounded ?s ?blk b' m f"
      using cut_cases[OF c]
    proof (elim disjE conjE)
      assume b': "b' = ?q" "m = count" "\<not> f"
      have "b + n \<noteq> ?q" "b + n \<noteq> b + n - 1" using n count by auto
      then have "p_type (pg ?s (b + n)) = p_type (pg s (b + n))" unfolding types by (simp add: frame)
      moreover have "\<exists>c m. ?blk c = Some (m, True) \<and> c + m = ?q" if e: "p_type (pg ?s (?q - 1)) = Free"
      proof (cases "count < n")
        case True
        then have "cut b n count b = Some (n - count, True)" by (simp add: cut_def)
        then show ?thesis using True n by (intro exI[of _ b] exI[of _ "n - count"]) simp
      next
        case False
        then have q: "?q = b" using count by simp
        have "b - 1 \<noteq> b" "b - 1 \<noteq> b + n - 1" using n by auto
        then have "p_type (pg s (b - 1)) = Free" using e n types[of "b - 1"] unfolding q by (simp add: frame)
        then show ?thesis using before unfolding q by blast
      qed
      ultimately have "bounded ?s ?blk ?q count False"
        using bnd count n by (auto simp: bounded_def)
      then show ?thesis using b' a n count by (auto simp: in_array_def tagged_def types)
    next
      assume b': "b' = b" "count < n" "m = n - count" f
      have "b - 1 \<noteq> ?q" "b - 1 \<noteq> b + n - 1" using n b' by auto
      then have "p_type (pg ?s (b - 1)) = p_type (pg s (b - 1))" using n unfolding types by (simp add: frame)
      then have "bounded ?s ?blk b (n - count) True"
        using before cutq count n b'(2) unfolding bounded_def by (simp add: types)
      moreover have "tagged ?s b (n - count) True" using rest[OF b'(2)] b'(2) count n by (auto simp: tagged_def types h(3))
      ultimately show ?thesis using b' a n count by (auto simp: in_array_def)
    qed
  qed
qed

lemma take_pages_spec:
  assumes inv: "pmm_inv s blk" and blk: "blk b = Some (n, True)" and count: "0 < count" "count \<le> n"
  shows "\<exists>s' addr. take_pages (reg s b) (list_order n) count b s = Some (b + n - count, s') \<and>
           arrays s' = arrays s \<and> pmm_inv s' (divide blk b (b + n) (cut b n count)) \<and>
           p_type (pg s' (b + n - count)) = AllocatedPending \<and>
           p_union (pg s' (b + n - count)) = PendingAllocHead None addr count"
proof -
  let ?q = "b + n - count" and ?blk = "divide blk b (b + n) (cut b n count)" and ?i = "list_order n" and ?r = "reg s b"
  define m where "m = n - count"
  note D = pmm_invD[OF inv]
  have n: "0 < b" "0 < n" and tag: "tagged s b n True" using D(3-7)[OF blk] by auto
  obtain a where a: "in_array s b n a" using D(5)[OF blk] by blast
  have sz: "get_size b s = Some n" using tag by (simp add: tagged_def get_sizeI)
  define s0 where "s0 = set_type (b + m - 1) Free (set_size (b + m - 1) m (set_size b m s))"
  define s1 where "s1 =
     (if count < n
      then if m < 2 ^ ?i then upd_links (cl_push_front (free_pages_list ?r (klog2 m)) b) (upd_links (cl_remove b) s0)
           else s0
      else upd_links (cl_remove b) s)"
  have small: "klog2 m < ?i" "list_order m = klog2 m" if "count < n" "m < 2 ^ ?i"
    using that klog2_less[of m ?i] list_order_small[of m ?i] list_order_le[of n] by (simp_all add: m_def)
  have M: "members (links s) (free_in s blk)" using inv by (rule pmm_inv_members)
  have Mb: "free_in s blk (free_pages_list ?r ?i) b" using blk by (simp add: free_in_def)
  have R: "members (cl_remove b (links s)) (\<lambda>q x. x \<noteq> b \<and> free_in s blk q x)" by (rule members_remove[OF M Mb])
  have new: "free_in s ?blk q x \<longleftrightarrow> (if x = b then count < n \<and> q = free_pages_list ?r (list_order m) else free_in s blk q x)" for q x
  proof (cases "b \<le> x \<and> x < b + n")
    case True
    then have "x \<noteq> b \<Longrightarrow> blk x = None" using inner_not_block[OF D(2) blk, of x] by simp
    then show ?thesis using True count n by (auto simp: free_in_def cut_def m_def)
  next
    case False
    then show ?thesis using n by (auto simp: free_in_def)
  qed
  have "members (links s1) (free_in s ?blk)"
  proof (cases "count < n \<and> \<not> m < 2 ^ ?i")
    case True
    then have "list_order m = ?i" using n list_order_keeps[OF refl, of n m] m_def by simp
    moreover have "free_in s blk q b \<longleftrightarrow> q = free_pages_list ?r ?i" for q using blk by (simp add: free_in_def)
    ultimately have same: "free_in s blk q x \<longleftrightarrow> free_in s ?blk q x" for q x using True by (simp add: new)
    have l: "links s1 = links s" using True by (simp add: s1_def s0_def pmm_simps)
    show ?thesis unfolding l by (rule members_cong[OF M same])
  next
    case False
    show ?thesis
    proof (cases "count < n")
      case True
      then have l: "links s1 = cl_push_front (free_pages_list ?r (klog2 m)) b (cl_remove b (links s))"
        using False by (simp add: s1_def s0_def pmm_simps)
      have o: "list_order m = klog2 m" using True False small by blast
      have "members (links s1) (\<lambda>q x. if x = b then q = free_pages_list ?r (klog2 m) else x \<noteq> b \<and> free_in s blk q x)"
        unfolding l by (rule members_push[OF R]) simp
      then show ?thesis by (rule members_cong) (simp add: new o True)
    next
      case big: False
      then have "links s1 = cl_remove b (links s)" by (simp add: s1_def pmm_simps)
      then have "members (links s1) (\<lambda>q x. x \<noteq> b \<and> free_in s blk q x)" using R by simp
      then show ?thesis by (rule members_cong) (simp add: new big)
    qed
  qed
  moreover have "arrays s1 = arrays s" by (simp add: s1_def s0_def pmm_simps)
  moreover have "pg s1 x = pg s x" if "x < b \<or> ?q \<le> x" for x
    using that n count by (auto simp: s1_def s0_def pmm_simps m_def)
  moreover have "tagged s1 b (n - count) True" if "count < n"
    using that tag n by (auto simp: tagged_def s1_def s0_def pmm_simps m_def)
  ultimately have inv': "pmm_inv (hand_out ?q count addr s1) ?blk" for addr
    by (intro hand_out_inv[OF inv blk count])
  define s2 where "s2 = upd_page ?q (\<lambda>x. x\<lparr>p_no_page := False, p_anonymous := False\<rparr>) (set_type ?q AllocatedPending s1)"
  have "in_array s2 ?q count a" "arrays s2 = arrays s" "\<not> p_no_page (pg s2 ?q)"
    using a count by (auto simp: s2_def s1_def s0_def pmm_simps in_array_def)
  then obtain addr where "get_phys_addr ?q s2 = Some addr"
    using get_phys_addr_in[of s2 ?q count a] D(1) count by auto
  then have "take_pages ?r ?i count b s = Some (?q, hand_out ?q count addr s1)"
    using sz count small by (auto simp: take_pages_def s2_def s1_def s0_def m_def hand_out_def Let_def)
  then show ?thesis
    using inv'[of addr] \<open>arrays s1 = arrays s\<close> by (auto simp: hand_out_simps)
qed

text \<open>An allocation of \<open>count\<close> pages from \<open>q\<close> on: the end of a free block of the region.\<close>

definition taken :: "region_name \<Rightarrow> nat \<Rightarrow> pmm \<Rightarrow> blocks \<Rightarrow> nat \<Rightarrow> pmm \<Rightarrow> blocks \<Rightarrow> bool" where
  "taken r count s blk q s' blk' \<longleftrightarrow>
     (\<exists>b n addr. blk b = Some (n, True) \<and> reg s b = r \<and> count \<le> n \<and> q = b + n - count \<and>
        blk' = divide blk b (b + n) (cut b n count) \<and> arrays s' = arrays s \<and> pmm_inv s' blk' \<and>
        p_type (pg s' q) = AllocatedPending \<and> p_union (pg s' q) = PendingAllocHead None addr count)"

definition no_block :: "pmm \<Rightarrow> blocks \<Rightarrow> region_name \<Rightarrow> nat set \<Rightarrow> bool" where
  "no_block s blk r I \<longleftrightarrow> (\<forall>b n. blk b = Some (n, True) \<longrightarrow> reg s b = r \<longrightarrow> list_order n \<notin> I)"

lemma alloc_scan_spec:
  assumes inv: "pmm_inv s blk" and count: "0 < count" "\<forall>i\<in>set is. count \<le> 2 ^ i"
  shows "(alloc_scan r count is s = Some (None, s) \<and> no_block s blk r (set is)) \<or>
         (\<exists>q s' blk'. alloc_scan r count is s = Some (Some q, s') \<and> taken r count s blk q s' blk')"
  using count(2)
proof (induction "is")
  case Nil
  then show ?case by (simp add: no_block_def)
next
  case (Cons i "is")
  note M = members_front[OF pmm_inv_members[OF inv], of "free_pages_list r i"]
  show ?case
  proof (cases "cl_empty (free_pages_list r i) (links s)")
    case True
    have "no_block s blk r (set is) \<Longrightarrow> no_block s blk r (set (i # is))"
      using M True by (auto simp: no_block_def free_in_def)
    then show ?thesis using True Cons by auto
  next
    case False
    then obtain b n where b: "cl_front (free_pages_list r i) (links s) = Some b"
      "blk b = Some (n, True)" "reg s b = r" "list_order n = i"
      using M by (auto simp: free_in_def)
    have "count \<le> n" using Cons.prems list_order_ge[of n] pmm_invD(4)[OF inv b(2)] b(4) by force
    then show ?thesis
      using take_pages_spec[OF inv b(2) count(1)] b False unfolding taken_def by fastforce
  qed
qed

lemma alloc_pages_from_spec:
  assumes inv: "pmm_inv s blk" and count: "0 < count"
  shows "(alloc_pages_from r count s = Some (None, s) \<and>
            (count \<le> 2 ^ 18 \<longrightarrow> no_block s blk r {alloc_order count..<18})) \<or>
         (\<exists>q s' blk'. alloc_pages_from r count s = Some (Some q, s') \<and> taken r count s blk q s' blk')"
proof -
  have o: "\<forall>i\<in>set [alloc_order count..<18]. count \<le> 2 ^ i"
  proof
    fix i assume "i \<in> set [alloc_order count..<18]"
    then have "(2 :: nat) ^ alloc_order count \<le> 2 ^ i" by (intro power_increasing) auto
    then show "count \<le> 2 ^ i" using alloc_order_ge[OF count] by linarith
  qed
  have "no_block s blk r I" if "arrays s = []" for I
    using pmm_invD(5)[OF inv] that by (fastforce simp: no_block_def in_array_def)
  then show ?thesis
    using alloc_scan_spec[OF inv count o, of r] count by (auto simp: alloc_pages_from_def)
qed

section \<open>Freeing\<close>

lemma coalesce_before_spec:
  assumes inv: "pmm_inv s blk" and blk: "blk p = Some (num, f)"
    and frame: "\<And>x. x \<noteq> p \<Longrightarrow> pg s1 x = pg s x"
  obtains (alone) "coalesce_before p num s1 = Some (p, None, s1)" "p_type (pg s (p - 1)) \<noteq> Free"
  | (joined) b m where "blk b = Some (m, True)" "b + m = p"
      "coalesce_before p num s1 = Some (b, Some m, set_size b (m + num) s1)"
proof (cases "p_type (pg s (p - 1)) = Free")
  case False
  have "p - 1 \<noteq> p" using pmm_invD(3)[OF inv blk] by simp
  then show ?thesis using False by (intro alone) (simp_all add: coalesce_before_def frame)
next
  case True
  obtain b m where b: "blk b = Some (m, True)" "b + m = p"
    using pmm_invD(7)[OF inv blk] True unfolding bounded_def by blast
  have m: "0 < m" "0 < b" and t: "tagged s b m True" using pmm_invD[OF inv] b by blast+
  have "p - 1 \<noteq> p" "b \<noteq> p" "p - m = b" "b + m - 1 = p - 1" using m b(2) by auto
  then have "coalesce_before p num s1 = Some (b, Some m, set_size b (m + num) s1)"
    using t by (simp add: coalesce_before_def frame get_size_def tagged_def)
  then show ?thesis using b by (intro joined)
qed

lemma coalesce_after_spec:
  assumes inv: "pmm_inv s blk" and blk: "blk p = Some (num, f)"
    and frame: "\<And>x. p + num \<le> x \<Longrightarrow> pg s2 x = pg s x"
    and lo: "get_size lo s2 = Some sz" "lo + sz = p + num"
  obtains (alone) "coalesce_after lo s2 = Some s2" "p_type (pg s (p + num)) \<noteq> Free"
  | (joined) k where "blk (p + num) = Some (k, True)"
      "coalesce_after lo s2 = Some (set_size lo (sz + k) (upd_links (cl_remove (p + num)) s2))"
proof (cases "p_type (pg s (p + num)) = Free")
  case False
  then show ?thesis using lo by (intro alone) (simp_all add: coalesce_after_def frame)
next
  case True
  obtain k where k: "blk (p + num) = Some (k, True)"
    using pmm_invD(7)[OF inv blk] True unfolding bounded_def by blast
  have m: "0 < k" and t: "tagged s (p + num) k True" using pmm_invD[OF inv] k by blast+
  have "p + num \<le> p + num + k - 1" using m by simp
  then have "coalesce_after lo s2 = Some (set_size lo (sz + k) (upd_links (cl_remove (p + num)) s2))"
    using t lo by (simp add: coalesce_after_def frame get_size_def tagged_def pmm_simps del: get_size_simps)
  then show ?thesis using k by (intro joined)
qed

text \<open>The free block \<open>lo..<hi\<close> that freeing the block \<open>p\<close> gives: with the free neighbours.\<close>

definition joins :: "pmm \<Rightarrow> blocks \<Rightarrow> nat \<Rightarrow> nat \<Rightarrow> nat \<Rightarrow> nat \<Rightarrow> bool" where
  "joins s blk p num lo hi \<longleftrightarrow>
     (lo = p \<and> p_type (pg s (p - 1)) \<noteq> Free \<or> (\<exists>m. blk lo = Some (m, True) \<and> lo + m = p)) \<and>
     (hi = p + num \<and> p_type (pg s (p + num)) \<noteq> Free \<or> (\<exists>k. blk (p + num) = Some (k, True) \<and> hi = p + num + k))"

lemma joins_range:
  assumes inv: "pmm_inv s blk" and blk: "blk p = Some (num, f)" and j: "joins s blk p num lo hi"
  shows "lo \<le> p" "p + num \<le> hi" "0 < lo" "whole blk lo hi" "\<exists>a. in_array s lo (hi - lo) a" "reg s lo = reg s p"
proof -
  note D = pmm_invD[OF inv]
  have p: "0 < p" "0 < num" using D(3,4)[OF blk] by auto
  obtain a where a: "in_array s p num a" using D(5)[OF blk] by blast
  have l: "lo \<le> p \<and> 0 < lo \<and> in_array s lo (p + num - lo) a \<and> whole blk lo (p + num)"
  proof (cases "lo = p")
    case True
    then show ?thesis using a p whole_block[OF D(2) blk] by simp
  next
    case False
    then obtain m where m: "blk lo = Some (m, True)" "lo + m = p" using j unfolding joins_def by blast
    obtain a' where a': "in_array s lo m a'" using D(5)[OF m(1)] by blast
    have "a' = a" using same_array[OF D(1) a', of num a] a m p D(4)[OF m(1)] by simp
    moreover have "whole blk lo (p + num)"
      using whole_block[OF D(2) m(1)] whole_block[OF D(2) blk] m(2) unfolding whole_def by fastforce
    ultimately show ?thesis using a a' m D(3)[OF m(1)] by (auto simp: in_array_def)
  qed
  have r: "p + num \<le> hi \<and> in_array s lo (hi - lo) a \<and> whole blk lo hi"
  proof (cases "hi = p + num")
    case True
    then show ?thesis using l by simp
  next
    case False
    then obtain k where k: "blk (p + num) = Some (k, True)" "hi = p + num + k" using j unfolding joins_def by blast
    obtain a' where a': "in_array s (p + num) k a'" using D(5)[OF k(1)] by blast
    have "a' = a" using same_array[OF D(1) a a'] p D(4)[OF k(1)] by simp
    moreover have "whole blk lo hi"
      using l whole_block[OF D(2) k(1)] k(2) unfolding whole_def by fastforce
    ultimately show ?thesis using l a' k by (auto simp: in_array_def)
  qed
  show "lo \<le> p" "p + num \<le> hi" "0 < lo" "whole blk lo hi" "\<exists>a. in_array s lo (hi - lo) a" using l r by auto
  have "0 < hi - lo" using l r p by auto
  then show "reg s lo = reg s p" using reg_in[OF D(1), of lo "hi - lo" a] reg_in[OF D(1) a] r p by simp
qed

lemma free_result_inv:
  assumes inv: "pmm_inv s blk" and blk: "blk p = Some (num, f)" and j: "joins s blk p num lo hi"
    and arr: "arrays s' = arrays s" and frame: "\<And>x. x < lo \<or> hi \<le> x \<Longrightarrow> pg s' x = pg s x"
    and tag: "tagged s' lo (hi - lo) True"
    and lists: "members (links s') (free_in s (divide blk lo hi [lo \<mapsto> (hi - lo, True)]))"
  shows "pmm_inv s' (divide blk lo hi [lo \<mapsto> (hi - lo, True)])"
proof -
  let ?blk = "divide blk lo hi [lo \<mapsto> (hi - lo, True)]"
  note D = pmm_invD[OF inv] and R = joins_range[OF inv blk j]
  have p: "0 < num" using D(4)[OF blk] .
  have range: "lo < hi" using R p by simp
  have left: "p_type (pg s (lo - 1)) \<noteq> Free \<and> (\<forall>c m. blk c = Some (m, True) \<longrightarrow> c + m \<noteq> lo)"
  proof -
    have end_free: "p_type (pg s (c + m - 1)) = Free" if "blk c = Some (m, True)" for c m
      using D(6)[OF that] by (simp add: tagged_def)
    show ?thesis
    proof (cases "lo = p \<and> p_type (pg s (p - 1)) \<noteq> Free")
      case True
      then show ?thesis using end_free by metis
    next
      case False
      then obtain m where m: "blk lo = Some (m, True)" using j unfolding joins_def by blast
      have no: "c + k \<noteq> lo" if "blk c = Some (k, True)" for c k
        using D(7)[OF that] m unfolding bounded_def by blast
      then show ?thesis using D(7)[OF m] unfolding bounded_def by blast
    qed
  qed
  have right: "p_type (pg s hi) \<noteq> Free \<and> (\<forall>m. blk hi \<noteq> Some (m, True))"
  proof -
    have start_free: "p_type (pg s c) = Free" if "blk c = Some (m, True)" for c m
      using D(6)[OF that] by (simp add: tagged_def)
    show ?thesis
    proof (cases "hi = p + num \<and> p_type (pg s (p + num)) \<noteq> Free")
      case True
      then show ?thesis using start_free by metis
    next
      case False
      then obtain k where k: "blk (p + num) = Some (k, True)" "hi = p + num + k" using j unfolding joins_def by blast
      then show ?thesis using D(7)[OF k(1)] unfolding bounded_def by blast
    qed
  qed
  show ?thesis
  proof (rule pmm_inv_divide[OF inv range R(4) arr frame _ _ _ _ _ lists])
    show "disjoint_blocks [lo \<mapsto> (hi - lo, True)]" by (simp add: disjoint_blocks_def)
    show "(p_type (pg s' lo) = Free) = (\<exists>m. [lo \<mapsto> (hi - lo, True)] lo = Some (m, True))"
      using tag by (simp add: tagged_def)
    show "p_type (pg s' lo) \<noteq> Free" if "blk b = Some (n, True)" "b + n = lo" for b n using left that by blast
    show "p_type (pg s' (hi - 1)) = Free \<longrightarrow> (\<exists>b n. [lo \<mapsto> (hi - lo, True)] b = Some (n, True) \<and> b + n = hi)"
      using range by (auto intro!: exI[of _ lo])
    fix b n g assume "[lo \<mapsto> (hi - lo, True)] b = Some (n, g)"
    then have b: "b = lo" "n = hi - lo" g by (auto split: if_splits)
    have "bounded s' ?blk lo (hi - lo) True"
      using left right range R(3) frame[of "lo - 1"] frame[of hi] by (simp add: bounded_def)
    then show "lo \<le> b \<and> b + n \<le> hi \<and> 0 < n \<and> 0 < b \<and> (\<exists>a. in_array s b n a) \<and> tagged s' b n g \<and> bounded s' ?blk b n g"
      using b tag R range by simp
  qed
qed

lemma list_free_spec:
  assumes sz: "get_size lo s3 = Some n"
    and M: "members (links s3) M"
    and new: "old = None \<Longrightarrow> \<forall>q. \<not> M q lo"
    and listed: "\<And>m. old = Some m \<Longrightarrow> 0 < m \<and> m \<le> n \<and> (\<forall>q. M q lo \<longleftrightarrow> q = free_pages_list r (list_order m))"
  shows "\<exists>f. list_free r lo old s3 = Some (upd_links f s3) \<and>
     members (f (links s3)) (\<lambda>q x. if x = lo then q = free_pages_list r (list_order n) else M q x)"
proof (cases old)
  case None
  have "members (cl_push_front (free_pages_list r (list_order n)) lo (links s3))
     (\<lambda>q x. if x = lo then q = free_pages_list r (list_order n) else M q x)"
    using new None by (intro members_push[OF M]) blast
  moreover have "list_free r lo old s3 = Some (upd_links (cl_push_front (free_pages_list r (list_order n)) lo) s3)"
    using None sz by (simp add: list_free_def)
  ultimately show ?thesis by blast
next
  case (Some m)
  note l = listed[OF Some]
  show ?thesis
  proof (cases "list_order m \<noteq> page_lists - 1 \<and> list_order m < list_order n")
    case True
    let ?f = "\<lambda>h. cl_push_front (free_pages_list r (list_order n)) lo (cl_remove lo h)"
    have "members (cl_remove lo (links s3)) (\<lambda>q x. x \<noteq> lo \<and> M q x)"
      using l by (intro members_remove[OF M]) blast
    then have "members (?f (links s3)) (\<lambda>q x. if x = lo then q = free_pages_list r (list_order n) else x \<noteq> lo \<and> M q x)"
      by (rule members_push) simp
    then have "members (?f (links s3)) (\<lambda>q x. if x = lo then q = free_pages_list r (list_order n) else M q x)"
      by (rule members_cong) simp
    moreover have "list_free r lo old s3 = Some (upd_links ?f s3)"
      using True Some sz by (simp add: list_free_def Let_def upd_links_def)
    ultimately show ?thesis by blast
  next
    case False
    have "list_order m \<le> list_order n" using l by (intro list_order_mono) auto
    then have "list_order n = list_order m" using False list_order_le[of n] by auto
    then have "members (links s3) (\<lambda>q x. if x = lo then q = free_pages_list r (list_order n) else M q x)"
      using l by (intro members_cong[OF M]) auto
    moreover have "list_free r lo old s3 = Some (upd_links (\<lambda>h. h) s3)"
      using False Some sz by (auto simp: list_free_def Let_def upd_links_def)
    ultimately show ?thesis by (intro exI[of _ "\<lambda>h. h"]) simp
  qed
qed

lemma joins_members:
  assumes inv: "pmm_inv s blk" and blk: "blk p = Some (num, False)" and j: "joins s blk p num lo hi"
  shows "free_in s (divide blk lo hi [lo \<mapsto> (hi - lo, True)]) q x \<longleftrightarrow>
     (if x = lo then q = free_pages_list (reg s p) (list_order (hi - lo)) else x \<noteq> p + num \<and> free_in s blk q x)"
proof -
  note D = pmm_invD[OF inv] and R = joins_range[OF inv blk j]
  have p: "0 < num" using D(4)[OF blk] .
  have right: "blk (p + num) \<noteq> Some (k, True)" if "hi = p + num" for k
    using j that D(4)[of "p + num"] D(6)[of "p + num" k True] by (auto simp: joins_def tagged_def)
  show ?thesis
  proof (cases "lo \<le> x \<and> x < hi")
    case True
    have "\<not> free_in s blk q x" if "x \<noteq> lo" "x \<noteq> p + num"
    proof -
      have "blk x = None \<or> x = p"
      proof (cases "x < p")
        case True
        then obtain m where "blk lo = Some (m, True)" "lo + m = p" using j R \<open>lo \<le> x \<and> x < hi\<close> unfolding joins_def by auto
        then show ?thesis using inner_not_block[OF D(2), of lo m True x] True that \<open>lo \<le> x \<and> x < hi\<close> by simp
      next
        case False
        show ?thesis
        proof (cases "x < p + num")
          case True
          then show ?thesis using inner_not_block[OF D(2) blk, of x] False by fastforce
        next
          case out: False
          then obtain k where "blk (p + num) = Some (k, True)" "hi = p + num + k"
            using j \<open>lo \<le> x \<and> x < hi\<close> unfolding joins_def by auto
          then show ?thesis using inner_not_block[OF D(2), of "p + num" k True x] out that \<open>lo \<le> x \<and> x < hi\<close> by simp
        qed
      qed
      then show ?thesis using blk by (auto simp: free_in_def)
    qed
    then show ?thesis using True R(6) by (auto simp: free_in_def)
  next
    case False
    then have "x = p + num \<Longrightarrow> hi = p + num" using R(1,2) p by auto
    then show ?thesis using False right R p by (auto simp: free_in_def divide_def)
  qed
qed

text \<open>The two merging steps together: the state before the block is put into its list.\<close>

lemma coalesce_spec:
  assumes inv: "pmm_inv s blk" and blk: "blk p = Some (num, False)"
    and frame: "\<And>x. x \<noteq> p \<Longrightarrow> pg s1 x = pg s x" and sz: "get_size p s1 = Some num"
    and free: "p_type (pg s1 p) = Free" and M: "members (links s1) (free_in s blk)"
  obtains lo hi old s2 s3 where
    "coalesce_before p num s1 = Some (lo, old, s2)" "coalesce_after lo s2 = Some s3"
    "joins s blk p num lo hi" "get_size lo s3 = Some (hi - lo)"
    "old = (if lo = p then None else Some (p - lo))"
    "arrays s3 = arrays s1" "\<And>x. x < lo \<or> hi \<le> x \<Longrightarrow> pg s3 x = pg s x" "p_type (pg s3 lo) = Free"
    "members (links s3) (\<lambda>q x. x \<noteq> p + num \<and> free_in s blk q x)"
proof -
  note D = pmm_invD[OF inv]
  have p: "0 < p" "0 < num" using D(3,4)[OF blk] by auto
  obtain lo s2 where before: "coalesce_before p num s1 = Some (lo, if lo = p then None else Some (p - lo), s2)"
    "lo \<le> p" "lo = p \<and> p_type (pg s (p - 1)) \<noteq> Free \<or> (\<exists>m. blk lo = Some (m, True) \<and> lo + m = p)"
    "get_size lo s2 = Some (p + num - lo)" "\<And>x. x \<noteq> p \<Longrightarrow> x \<noteq> lo \<Longrightarrow> pg s2 x = pg s x"
    "p_type (pg s2 lo) = Free" "arrays s2 = arrays s1" "links s2 = links s1"
  proof (rule coalesce_before_spec[OF inv blk, of s1])
    show "pg s1 x = pg s x" if "x \<noteq> p" for x using that by (rule frame)
  next
    assume "coalesce_before p num s1 = Some (p, None, s1)" "p_type (pg s (p - 1)) \<noteq> Free"
    then show ?thesis using that[of p s1] sz free frame by simp
  next
    fix b m assume b: "blk b = Some (m, True)" "b + m = p"
      "coalesce_before p num s1 = Some (b, Some m, set_size b (m + num) s1)"
    have m: "0 < m" "tagged s b m True" using D(4,6)[OF b(1)] by auto
    show ?thesis
      using that[of b "set_size b (m + num) s1"] b m frame[of b]
      by (auto simp: pmm_simps tagged_def frame split: if_splits)
  qed
  have pre: "pg s2 x = pg s x" if "p + num \<le> x" for x using that before(2,5) p by auto
  have lo: "lo + (p + num - lo) = p + num" using before(2) by simp
  show thesis
  proof (rule coalesce_after_spec[OF inv blk _ before(4) lo])
    show "pg s2 x = pg s x" if "p + num \<le> x" for x using that by (rule pre)
  next
    assume 1: "coalesce_after lo s2 = Some s2" "p_type (pg s (p + num)) \<noteq> Free"
    have "free_in s blk q x \<Longrightarrow> x \<noteq> p + num" for q x
      using 1(2) D(6) by (fastforce simp: free_in_def tagged_def)
    then have "members (links s2) (\<lambda>q x. x \<noteq> p + num \<and> free_in s blk q x)"
      unfolding before(8) by (intro members_cong[OF M]) blast
    moreover have "joins s blk p num lo (p + num)" using before(3) 1 by (simp add: joins_def)
    moreover have "pg s2 x = pg s x" if "x < lo \<or> p + num \<le> x" for x using that before(2,5) p by auto
    ultimately show ?thesis by (intro that[OF before(1) 1(1) _ before(4) refl before(7) _ before(6)]) auto
  next
    fix k assume 2: "blk (p + num) = Some (k, True)"
      "coalesce_after lo s2 = Some (set_size lo (p + num - lo + k) (upd_links (cl_remove (p + num)) s2))"
    have k: "0 < k" using D(4)[OF 2(1)] .
    define s3 where "s3 = set_size lo (p + num - lo + k) (upd_links (cl_remove (p + num)) s2)"
    have "free_in s blk (free_pages_list (reg s (p + num)) (list_order k)) (p + num)"
      using 2(1) by (simp add: free_in_def)
    then have "members (links s3) (\<lambda>q x. x \<noteq> p + num \<and> free_in s blk q x)"
      using members_remove[OF M] by (simp add: s3_def pmm_simps before(8))
    moreover have "joins s blk p num lo (p + num + k)" using before(3) 2 by (auto simp: joins_def)
    moreover have "pg s3 x = pg s x" if "x < lo \<or> p + num + k \<le> x" for x
      using that before(2,5) p by (auto simp: s3_def pmm_simps)
    moreover have "get_size lo s3 = Some (p + num + k - lo)" "p_type (pg s3 lo) = Free" "arrays s3 = arrays s1"
      using before(2,6,7) by (simp_all add: s3_def pmm_simps)
    ultimately show ?thesis using 2(2) by (intro that[OF before(1) _ _ _ refl]) (auto simp: s3_def)
  qed
qed

lemma free_insert_spec:
  assumes inv: "pmm_inv s blk" and blk: "blk p = Some (num, False)"
  shows "\<exists>lo hi s'. free_insert (reg s p) p num s = Some s' \<and> joins s blk p num lo hi \<and> arrays s' = arrays s \<and>
     (\<forall>x. x < lo \<or> hi \<le> x \<longrightarrow> pg s' x = pg s x) \<and> pmm_inv s' (divide blk lo hi [lo \<mapsto> (hi - lo, True)])"
proof -
  note D = pmm_invD[OF inv]
  have p: "0 < num" using D(4)[OF blk] .
  define s1 where "s1 = upd_page p (\<lambda>x. x\<lparr>p_no_page := False, p_anonymous := False\<rparr>)
                     (put_union p (FreeRegionHead num) (set_type p Free s))"
  have s1: "pg s1 x = pg s x" if "x \<noteq> p" for x using that by (simp add: s1_def pmm_simps)
  have M1: "members (links s1) (free_in s blk)"
    unfolding s1_def pmm_simps using blk by (intro members_skip[OF pmm_inv_members[OF inv]]) (simp add: free_in_def)
  have p1: "get_size p s1 = Some num" "p_type (pg s1 p) = Free" by (simp_all add: s1_def get_size_def pmm_simps)
  obtain lo hi old s2 s3 where c:
    "coalesce_before p num s1 = Some (lo, old, s2)" "coalesce_after lo s2 = Some s3"
    and j: "joins s blk p num lo hi" and sz: "get_size lo s3 = Some (hi - lo)"
    and old: "old = (if lo = p then None else Some (p - lo))"
    and s3: "arrays s3 = arrays s1" "\<And>x. x < lo \<or> hi \<le> x \<Longrightarrow> pg s3 x = pg s x" "p_type (pg s3 lo) = Free"
    and M: "members (links s3) (\<lambda>q x. x \<noteq> p + num \<and> free_in s blk q x)"
    by (rule coalesce_spec[OF inv blk _ p1 M1]) (rule s1, assumption, blast)
  note R = joins_range[OF inv blk j]
  have "\<exists>f. list_free (reg s p) lo old s3 = Some (upd_links f s3) \<and>
     members (f (links s3)) (\<lambda>q x. if x = lo then q = free_pages_list (reg s p) (list_order (hi - lo))
                                    else x \<noteq> p + num \<and> free_in s blk q x)"
  proof (rule list_free_spec[OF sz M])
    show "\<forall>q. \<not> (lo \<noteq> p + num \<and> free_in s blk q lo)" if "old = None"
      using that old blk by (auto simp: free_in_def split: if_splits)
    show "0 < m \<and> m \<le> hi - lo \<and> (\<forall>q. (lo \<noteq> p + num \<and> free_in s blk q lo) = (q = free_pages_list (reg s p) (list_order m)))"
      if "old = Some m" for m
    proof -
      have "lo \<noteq> p" "m = p - lo" using that old by (auto split: if_splits)
      moreover then have "blk lo = Some (m, True)" using j unfolding joins_def by auto
      ultimately show ?thesis using R(1,2,6) p by (auto simp: free_in_def)
    qed
  qed
  then obtain f where f: "list_free (reg s p) lo old s3 = Some (upd_links f s3)"
    and Mf: "members (f (links s3)) (\<lambda>q x. if x = lo then q = free_pages_list (reg s p) (list_order (hi - lo))
                                    else x \<noteq> p + num \<and> free_in s blk q x)"
    by blast
  let ?e = "lo + (hi - lo) - 1"
  define s' where "s' = set_size ?e (hi - lo) (set_type ?e Free (upd_links f s3))"
  have "free_insert (reg s p) p num s = Some s'"
    using c f sz by (simp add: free_insert_def s1_def[symmetric] s'_def Let_def pmm_simps)
  moreover have arr: "arrays s' = arrays s" using s3(1) by (simp add: s'_def s1_def pmm_simps)
  moreover have fr: "pg s' x = pg s x" if "x < lo \<or> hi \<le> x" for x
    using that s3(2) R(1,2) p by (auto simp: s'_def pmm_simps)
  moreover have "p_union (pg s3 lo) = FreeRegionHead (hi - lo)"
    using sz by (auto simp: get_size_def split: page_union.splits)
  then have "tagged s' lo (hi - lo) True" using s3(3) R(1,2) p by (simp add: tagged_def s'_def pmm_simps)
  moreover have "members (links s') (free_in s (divide blk lo hi [lo \<mapsto> (hi - lo, True)]))"
    using Mf unfolding s'_def pmm_simps by (rule members_cong) (simp add: joins_members[OF inv blk j])
  ultimately show ?thesis using free_result_inv[OF inv blk j arr fr] j by blast
qed

lemma free_page_spec:
  assumes inv: "pmm_inv s blk" and blk: "blk p = Some (num, False)" and req: "free_request p s = Some (num, None)"
  shows "\<exists>lo hi s'. free_page (Some p) s = Some s' \<and> joins s blk p num lo hi \<and> arrays s' = arrays s \<and>
     (\<forall>x. x < lo \<or> hi \<le> x \<longrightarrow> pg s' x = pg s x) \<and> pmm_inv s' (divide blk lo hi [lo \<mapsto> (hi - lo, True)])"
proof -
  note D = pmm_invD[OF inv]
  have num: "0 < num" using D(4)[OF blk] .
  obtain a where a: "in_array s p num a" using D(5)[OF blk] by blast
  have "array_find p s = Some a" "reg s p = parent_region a"
    using array_find_in[OF D(1) a num] reg_in[OF D(1) a num] by auto
  moreover have "\<not> a_end a - p < num" using a by (auto simp: in_array_def)
  then have "free_carry p a num None s = Some (None, s)" by (simp add: free_carry_def)
  moreover obtain lo hi s' where "free_insert (reg s p) p num s = Some s'" "joins s blk p num lo hi" "arrays s' = arrays s"
    "\<forall>x. x < lo \<or> hi \<le> x \<longrightarrow> pg s' x = pg s x" "pmm_inv s' (divide blk lo hi [lo \<mapsto> (hi - lo, True)])"
    using free_insert_spec[OF inv blk] by blast
  ultimately have "free_one p s = Some (None, s')" using req by (simp add: free_one_def)
  then have "free_page (Some p) s = Some s'" by (simp add: free_page.simps)
  then show ?thesis using \<open>joins s blk p num lo hi\<close> \<open>arrays s' = arrays s\<close>
      \<open>\<forall>x. x < lo \<or> hi \<le> x \<longrightarrow> pg s' x = pg s x\<close> \<open>pmm_inv s' _\<close> by blast
qed

end
