(* ===== verification/Pmm_Sys.thy ===== *)
theory Pmm_Sys
  imports Pmm_Inv
begin

text \<open>
  The physical memory manager with its clients: sequences of allocations and of the ways in which
  the kernel uses and gives back pages.
\<close>

section \<open>Events\<close>

text \<open>
  \<open>owned\<close> holds the runs of pages that clients have. A client marks the pages it was given as used,
  which makes each of them a run of its own (\<open>get_memory_for_kernel\<close>, \<open>Mem_Object::create\<close>); it gives back
  a run of consecutive pages, which wait for the grace period (\<open>release_page\<close>, \<open>free_memory_for_kernel\<close>);
  the callback, or the owner of an unused allocation, frees the run.
\<close>

record psys =
  mem :: pmm
  owned :: "(nat \<times> nat) set"

datatype pevent = PAlloc nat AllocPolicy | PUse nat nat | PMark nat nat | PFree nat nat

definition single_pages :: "nat \<Rightarrow> nat \<Rightarrow> (nat \<times> nat) set" where
  "single_pages p n = {(p + i, 1) | i. i < n}"

fun penabled :: "psys \<Rightarrow> pevent \<Rightarrow> bool" where
  "penabled S (PAlloc count policy) \<longleftrightarrow> 0 < count"
| "penabled S (PUse b n) \<longleftrightarrow> (b, n) \<in> owned S \<and> p_type (pg (mem S) b) = AllocatedPending"
| "penabled S (PMark p n) \<longleftrightarrow> 0 < n \<and> single_pages p n \<subseteq> owned S"
| "penabled S (PFree p n) \<longleftrightarrow> (p, n) \<in> owned S \<and> free_request p (mem S) = Some (n, None)"

fun pexec :: "pevent \<Rightarrow> psys \<Rightarrow> psys option" where
  "pexec (PAlloc count policy) S =
     do { (r, s) \<leftarrow> alloc_pages count policy (mem S);
          Some \<lparr>mem = s, owned = (case r of None \<Rightarrow> owned S | Some q \<Rightarrow> insert (q, count) (owned S))\<rparr> }"
| "pexec (PUse b n) S =
     Some \<lparr>mem = use_pages b n (mem S), owned = owned S - {(b, n)} \<union> single_pages b n\<rparr>"
| "pexec (PMark p n) S =
     Some \<lparr>mem = mark_pending_free p n (mem S), owned = owned S - single_pages p n \<union> {(p, n)}\<rparr>"
| "pexec (PFree p n) S =
     do { s \<leftarrow> rcu_callback p (mem S);
          Some \<lparr>mem = s, owned = owned S - {(p, n)}\<rparr> }"

text \<open>At the start nothing is free: the usable memory belongs to the boot code, which gives it back.\<close>

definition apart :: "nat \<times> nat \<Rightarrow> nat \<times> nat \<Rightarrow> bool" where
  "apart x y \<longleftrightarrow> fst x + snd x \<le> fst y \<or> fst y + snd y \<le> fst x"

definition pstart :: "psys \<Rightarrow> bool" where
  "pstart S \<longleftrightarrow> arrays_ok (arrays (mem S)) \<and> members (links (mem S)) (\<lambda>_ _. False) \<and>
     (\<forall>x\<in>owned S. \<forall>y\<in>owned S. x \<noteq> y \<longrightarrow> apart x y) \<and>
     (\<forall>(b, n)\<in>owned S. 0 < b \<and> 0 < n \<and> (\<exists>a. in_array (mem S) b n a) \<and>
        (\<forall>x\<in>{b - 1, b, b + n - 1, b + n}. p_type (pg (mem S) x) \<noteq> Free))"

inductive preach :: "psys \<Rightarrow> bool" where
  start: "pstart S \<Longrightarrow> preach S"
| step: "preach S \<Longrightarrow> penabled S e \<Longrightarrow> pexec e S = Some S' \<Longrightarrow> preach S'"

section \<open>The invariant with the clients\<close>

definition owns :: "psys \<Rightarrow> blocks \<Rightarrow> bool" where
  "owns S blk \<longleftrightarrow> (\<forall>b n. (b, n) \<in> owned S \<longleftrightarrow> blk b = Some (n, False))"

lemma pstartD:
  assumes "pstart S"
  shows "arrays_ok (arrays (mem S))" "members (links (mem S)) (\<lambda>_ _. False)"
    "(b, n) \<in> owned S \<Longrightarrow> (c, m) \<in> owned S \<Longrightarrow> (b, n) \<noteq> (c, m) \<Longrightarrow> b + n \<le> c \<or> c + m \<le> b"
    "(b, n) \<in> owned S \<Longrightarrow> 0 < b" "(b, n) \<in> owned S \<Longrightarrow> 0 < n" "(b, n) \<in> owned S \<Longrightarrow> \<exists>a. in_array (mem S) b n a"
    "(b, n) \<in> owned S \<Longrightarrow> x \<in> {b - 1, b, b + n - 1, b + n} \<Longrightarrow> p_type (pg (mem S) x) \<noteq> Free"
proof -
  have own: "0 < b \<and> 0 < n \<and> (\<exists>a. in_array (mem S) b n a) \<and>
      (\<forall>x\<in>{b - 1, b, b + n - 1, b + n}. p_type (pg (mem S) x) \<noteq> Free)" if "(b, n) \<in> owned S" for b n
    using assms that unfolding pstart_def by blast
  show "(b, n) \<in> owned S \<Longrightarrow> 0 < b" "(b, n) \<in> owned S \<Longrightarrow> 0 < n" "(b, n) \<in> owned S \<Longrightarrow> \<exists>a. in_array (mem S) b n a"
    "(b, n) \<in> owned S \<Longrightarrow> x \<in> {b - 1, b, b + n - 1, b + n} \<Longrightarrow> p_type (pg (mem S) x) \<noteq> Free"
    using own by blast+
  show "(b, n) \<in> owned S \<Longrightarrow> (c, m) \<in> owned S \<Longrightarrow> (b, n) \<noteq> (c, m) \<Longrightarrow> b + n \<le> c \<or> c + m \<le> b"
    using assms unfolding pstart_def apart_def by force
  show "arrays_ok (arrays (mem S))" "members (links (mem S)) (\<lambda>_ _. False)" using assms unfolding pstart_def by blast+
qed

lemma pstart_inv:
  assumes "pstart S"
  shows "\<exists>blk. pmm_inv (mem S) blk \<and> owns S blk"
proof -
  note P = pstartD[OF assms]
  define blk :: blocks where "blk b = (if \<exists>n. (b, n) \<in> owned S then Some (SOME n. (b, n) \<in> owned S, False) else None)" for b
  have uniq: "m = n" if "(b, n) \<in> owned S" "(b, m) \<in> owned S" for b n m
    using P(3)[OF that] P(5)[OF that(1)] P(5)[OF that(2)] by auto
  have blk: "blk b = Some (n, f) \<longleftrightarrow> (b, n) \<in> owned S \<and> \<not> f" for b n f
    using uniq[of b] someI_ex[of "\<lambda>n. (b, n) \<in> owned S"] by (auto simp: blk_def)
  have "disjoint_blocks blk"
    unfolding disjoint_blocks_def blk
  proof (intro allI impI)
    fix b n f c m g assume "(b, n) \<in> owned S \<and> \<not> f" "(c, m) \<in> owned S \<and> \<not> g" "b < c"
    then show "b + n \<le> c" using P(3)[of b n c m] by auto
  qed
  moreover have "\<exists>L. listed (mem S) blk L"
    using P(2) unfolding members_def listed_def blk by simp
  moreover have "0 < b \<and> 0 < n \<and> (\<exists>a. in_array (mem S) b n a) \<and> tagged (mem S) b n f \<and> bounded (mem S) blk b n f"
    if "blk b = Some (n, f)" for b n f
    using P(4-6)[of b n] P(7)[of b n] that unfolding tagged_def bounded_def blk by auto
  ultimately show ?thesis using P(1) blk unfolding pmm_inv_def owns_def by blast
qed

lemma alloc_pages_spec:
  assumes inv: "pmm_inv s blk" and count: "0 < count"
  shows "alloc_pages count policy s = Some (None, s) \<or>
     (\<exists>r q s' blk'. alloc_pages count policy s = Some (Some q, s') \<and> taken r count s blk q s' blk')"
  using alloc_pages_from_spec[OF inv count, of RegionAbove4gb] alloc_pages_from_spec[OF inv count, of RegionBelow4gb]
    alloc_pages_from_spec[OF inv count, of RegionIsa]
  by (cases policy) (auto simp: alloc_pages_def; blast)+

lemma owns_taken:
  assumes inv: "pmm_inv s blk" and own: "\<forall>b n. (b, n) \<in> Q \<longleftrightarrow> blk b = Some (n, False)"
    and t: "taken r count s blk q s' blk'" and count: "0 < count"
  shows "\<forall>b n. (b, n) \<in> insert (q, count) Q \<longleftrightarrow> blk' b = Some (n, False)"
proof -
  obtain b n where b: "blk b = Some (n, True)" "count \<le> n" "q = b + n - count" "blk' = divide blk b (b + n) (cut b n count)"
    using t unfolding taken_def by blast
  have none: "blk x \<noteq> Some (k, False)" if "b \<le> x" "x < b + n" for x k
    using inner_not_block[OF pmm_invD(2)[OF inv] b(1), of x] that b(1) by (cases "x = b") auto
  show ?thesis
  proof (intro allI)
    fix x k
    show "(x, k) \<in> insert (q, count) Q \<longleftrightarrow> blk' x = Some (k, False)"
    proof (cases "b \<le> x \<and> x < b + n")
      case True
      then have "(x, k) \<notin> Q" using none own by blast
      then show ?thesis using True b(3,4) by (auto simp: cut_def)
    next
      case False
      then have "x \<noteq> q" "blk' x = blk x" using b(2-4) count by (auto simp: divide_def)
      then show ?thesis using own by simp
    qed
  qed
qed

lemma use_pages_simps:
  "arrays (use_pages p n s) = arrays s"
  "p_type (pg (use_pages p n s) x) = (if p \<le> x \<and> x < p + n then Allocated else p_type (pg s x))"
  "x < p \<or> p + n \<le> x \<Longrightarrow> pg (use_pages p n s) x = pg s x"
  by (induction n arbitrary: x) (auto simp: use_pages_def use_page_def pmm_simps)

lemma use_pages_members:
  assumes "members (links s) M" "\<And>q x. p \<le> x \<Longrightarrow> x < p + n \<Longrightarrow> \<not> M q x"
  shows "members (links (use_pages p n s)) M"
  using assms
proof (induction n)
  case (Suc n)
  then have M: "members (links (use_pages p n s)) M" by simp
  have l: "links (use_pages p (Suc n) s) = (links (use_pages p n s))(El (p + n) := \<lparr>nxt = El (p + n), prv = El (p + n)\<rparr>)"
    unfolding use_pages_def by (simp add: use_page_def pmm_simps del: fun_upd_apply)
  show ?case unfolding l using Suc.prems(2)[of "p + n"] by (intro members_skip[OF M]) simp
qed (simp add: use_pages_def)

text \<open>A range of allocated pages is divided into allocated blocks in another way.\<close>

lemma realloc_inv:
  assumes inv: "pmm_inv s blk" and range: "lo < hi" "whole blk lo hi"
    and first: "blk lo = Some (n0, False)" and last: "blk l = Some (m0, False)" "l + m0 = hi" "lo \<le> l"
    and nofree: "\<And>x m. lo \<le> x \<Longrightarrow> x < hi \<Longrightarrow> blk x \<noteq> Some (m, True)"
    and arr: "arrays s' = arrays s" and frame: "\<And>x. x < lo \<or> hi \<le> x \<Longrightarrow> pg s' x = pg s x"
    and new: "\<And>x m f. new x = Some (m, f) \<Longrightarrow> \<not> f \<and> lo \<le> x \<and> x + m \<le> hi \<and> 0 < m \<and> (\<exists>a. in_array s x m a) \<and>
       p_type (pg s' x) \<noteq> Free \<and> p_type (pg s' (x + m - 1)) \<noteq> Free \<and>
       (x \<noteq> lo \<longrightarrow> p_type (pg s' (x - 1)) \<noteq> Free) \<and> (x + m \<noteq> hi \<longrightarrow> p_type (pg s' (x + m)) \<noteq> Free)"
    and dis: "disjoint_blocks new" and ends: "p_type (pg s' lo) \<noteq> Free" "p_type (pg s' (hi - 1)) \<noteq> Free"
    and M: "members (links s') (free_in s blk)"
  shows "pmm_inv s' (divide blk lo hi new)"
proof -
  let ?blk = "divide blk lo hi new"
  note D = pmm_invD[OF inv]
  have lo: "0 < lo" using D(3)[OF first] .
  have free: "free_in s ?blk q x \<longleftrightarrow> free_in s blk q x" for q x
  proof (cases "lo \<le> x \<and> x < hi")
    case True
    then have "new x \<noteq> Some (n, True)" "blk x \<noteq> Some (n, True)" for n using nofree[of x n] new[of x n True] by blast+
    then show ?thesis using True by (simp add: free_in_def)
  next
    case False
    then show ?thesis by (auto simp: free_in_def divide_def)
  qed
  have left: "\<exists>c m. ?blk c = Some (m, True) \<and> c + m = lo" if e: "p_type (pg s' (lo - 1)) = Free"
  proof -
    have "p_type (pg s (lo - 1)) = Free" using e frame[of "lo - 1"] lo by simp
    then obtain c m where c: "blk c = Some (m, True)" "c + m = lo"
      using D(7)[OF first] unfolding bounded_def by blast
    then show ?thesis using D(4)[OF c(1)] by (intro exI[of _ c] exI[of _ m]) simp
  qed
  have right: "\<exists>m. ?blk hi = Some (m, True)" if "p_type (pg s' hi) = Free"
    using D(7)[OF last(1)] that frame[of hi] last(2) unfolding bounded_def by simp
  show ?thesis
  proof (rule pmm_inv_divide[OF inv range arr frame _ dis])
    show "members (links s') (free_in s ?blk)" by (rule members_cong[OF M]) (simp add: free)
    show "(p_type (pg s' lo) = Free) = (\<exists>m. new lo = Some (m, True))" using ends(1) new by auto
    show "p_type (pg s' lo) \<noteq> Free" "p_type (pg s' (hi - 1)) = Free \<longrightarrow> (\<exists>b n. new b = Some (n, True) \<and> b + n = hi)"
      using ends by simp_all
    fix x m f assume x: "new x = Some (m, f)"
    note N = new[OF x]
    have "bounded s' ?blk x m f"
      using N left right unfolding bounded_def by (cases "x = lo"; cases "x + m = hi") auto
    then show "lo \<le> x \<and> x + m \<le> hi \<and> 0 < m \<and> 0 < x \<and> (\<exists>a. in_array s x m a) \<and> tagged s' x m f \<and> bounded s' ?blk x m f"
      using N lo unfolding tagged_def by auto
  qed
qed

lemma use_step:
  assumes inv: "pmm_inv s blk" and blk: "blk b = Some (n, False)"
  shows "pmm_inv (use_pages b n s) (divide blk b (b + n) (\<lambda>x. if b \<le> x \<and> x < b + n then Some (1, False) else None))"
proof -
  note D = pmm_invD[OF inv] and u = use_pages_simps
  have n: "0 < n" using D(4)[OF blk] .
  obtain a where a: "in_array s b n a" using D(5)[OF blk] by blast
  have nofree: "blk x \<noteq> Some (m, True)" if "b \<le> x" "x < b + n" for x m
    using inner_not_block[OF D(2) blk, of x] blk that by (cases "x = b") auto
  show ?thesis
  proof (rule realloc_inv[OF inv _ whole_block[OF D(2) blk] blk blk refl])
    show "members (links (use_pages b n s)) (free_in s blk)"
      using nofree by (intro use_pages_members pmm_inv_members[OF inv]) (auto simp: free_in_def)
    show "disjoint_blocks (\<lambda>x. if b \<le> x \<and> x < b + n then Some (1, False) else None)"
      by (auto simp: disjoint_blocks_def split: if_splits)
    fix x m :: nat and f assume "(if b \<le> x \<and> x < b + n then Some (1, False) else None) = Some (m, f)"
    then have x: "b \<le> x" "x < b + n" "m = 1" "\<not> f" by (auto split: if_splits)
    have "in_array s x 1 a" using a x by (auto simp: in_array_def)
    then show "\<not> f \<and> b \<le> x \<and> x + m \<le> b + n \<and> 0 < m \<and> (\<exists>a. in_array s x m a) \<and>
       p_type (pg (use_pages b n s) x) \<noteq> Free \<and> p_type (pg (use_pages b n s) (x + m - 1)) \<noteq> Free \<and>
       (x \<noteq> b \<longrightarrow> p_type (pg (use_pages b n s) (x - 1)) \<noteq> Free) \<and> (x + m \<noteq> b + n \<longrightarrow> p_type (pg (use_pages b n s) (x + m)) \<noteq> Free)"
      using x by (auto simp: u)
  qed (use n nofree in \<open>auto simp: u\<close>)
qed

lemma singles_in_array:
  assumes ok: "arrays_ok (arrays s)" and one: "\<forall>i<n. \<exists>a. in_array s (p + i) 1 a" and n: "0 < n"
  shows "\<exists>a. in_array s p n a"
  using n one
proof (induction n rule: nat_induct_non_zero)
  case 1
  then show ?case by force
next
  case (Suc n)
  then obtain a where a: "in_array s p n a" by auto
  obtain a' where a': "in_array s (p + n) 1 a'" using Suc.prems by blast
  have "a' = a" using same_array[OF ok a a'] Suc.hyps by simp
  then show ?case using a a' by (auto simp: in_array_def)
qed

lemma mark_step:
  assumes inv: "pmm_inv s blk" and n: "0 < n" and one: "\<forall>i<n. blk (p + i) = Some (1, False)"
  shows "pmm_inv (mark_pending_free p n s) (divide blk p (p + n) [p \<mapsto> (n, False)])"
proof -
  note D = pmm_invD[OF inv]
  have at: "blk x = Some (1, False)" if "p \<le> x" "x < p + n" for x
    using one[rule_format, of "x - p"] that by simp
  have whole: "whole blk p (p + n)"
    unfolding whole_def
  proof (intro allI impI)
    fix b m f assume b: "blk b = Some (m, f)"
    show "b + m \<le> p \<or> p + n \<le> b \<or> (p \<le> b \<and> b + m \<le> p + n)"
    proof (cases "b < p")
      case True
      then show ?thesis using disjoint_blocksD[OF D(2) b at[of p]] n by simp
    next
      case False
      then show ?thesis using at[of b] b by (cases "b < p + n") auto
    qed
  qed
  obtain a where a: "in_array s p n a" using singles_in_array[OF D(1) _ n, of p] D(5) one by blast
  have "tagged s (p + n - 1) 1 False" using n by (intro D(6) at) auto
  then have e: "p_type (pg (mark_pending_free p n s) (p + n - 1)) \<noteq> Free"
    by (simp add: mark_pending_free_def pmm_simps tagged_def)
  show ?thesis
  proof (rule realloc_inv[OF inv _ whole at[of p] at[of "p + n - 1"]])
    show "members (links (mark_pending_free p n s)) (free_in s blk)"
      unfolding mark_pending_free_def pmm_simps
      using at[of p] n by (intro members_skip pmm_inv_members[OF inv]) (simp add: free_in_def)
    show "disjoint_blocks [p \<mapsto> (n, False)]" by (simp add: disjoint_blocks_def)
    show "blk x \<noteq> Some (m, True)" if "p \<le> x" "x < p + n" for x m using at[OF that] by simp
    fix x m f assume "[p \<mapsto> (n, False)] x = Some (m, f)"
    then have "x = p" "m = n" "\<not> f" by (auto split: if_splits)
    then show "\<not> f \<and> p \<le> x \<and> x + m \<le> p + n \<and> 0 < m \<and> (\<exists>a. in_array s x m a) \<and>
       p_type (pg (mark_pending_free p n s) x) \<noteq> Free \<and> p_type (pg (mark_pending_free p n s) (x + m - 1)) \<noteq> Free \<and>
       (x \<noteq> p \<longrightarrow> p_type (pg (mark_pending_free p n s) (x - 1)) \<noteq> Free) \<and>
       (x + m \<noteq> p + n \<longrightarrow> p_type (pg (mark_pending_free p n s) (x + m)) \<noteq> Free)"
      using a n e by (auto simp: mark_pending_free_def pmm_simps)
  qed (use n e in \<open>auto simp: mark_pending_free_def pmm_simps\<close>)
qed

section \<open>Every event keeps the invariant\<close>

lemma owns_divide:
  assumes "owns S blk" "\<And>x k. lo \<le> x \<Longrightarrow> x < hi \<Longrightarrow> (x, k) \<in> owned S' \<longleftrightarrow> new x = Some (k, False)"
    and "\<And>x k. x < lo \<or> hi \<le> x \<Longrightarrow> (x, k) \<in> owned S' \<longleftrightarrow> (x, k) \<in> owned S"
  shows "owns S' (divide blk lo hi new)"
  unfolding owns_def
proof (intro allI)
  fix x k
  show "(x, k) \<in> owned S' \<longleftrightarrow> divide blk lo hi new x = Some (k, False)"
    using assms(1) assms(2,3)[of x k] unfolding owns_def by (cases "lo \<le> x \<and> x < hi") auto
qed

lemma single_pages_iff: "(x, k) \<in> single_pages p n \<longleftrightarrow> k = 1 \<and> p \<le> x \<and> x < p + n"
  unfolding single_pages_def by (auto intro!: exI[of _ "x - p"])

lemma owns_inside:
  assumes "pmm_inv (mem S) blk" "owns S blk" "blk b = Some (n, f)" "b \<le> x" "x < b + n" "(x, k) \<in> owned S"
  shows "x = b \<and> k = n \<and> \<not> f"
  using inner_not_block[OF pmm_invD(2)[OF assms(1)] assms(3), of x] assms(2-6) unfolding owns_def by (cases "x = b") auto

lemma pstep_alloc:
  assumes inv: "pmm_inv (mem S) blk" "owns S blk" and "0 < count"
  shows "\<exists>S' blk'. pexec (PAlloc count policy) S = Some S' \<and> pmm_inv (mem S') blk' \<and> owns S' blk'"
  using alloc_pages_spec[OF inv(1) assms(3), of policy]
proof
  assume "alloc_pages count policy (mem S) = Some (None, mem S)"
  then have "pexec (PAlloc count policy) S = Some S" by simp
  then show ?thesis using inv by blast
next
  assume "\<exists>r q s' blk'. alloc_pages count policy (mem S) = Some (Some q, s') \<and> taken r count (mem S) blk q s' blk'"
  then obtain r q s' blk' where a: "alloc_pages count policy (mem S) = Some (Some q, s')"
    and t: "taken r count (mem S) blk q s' blk'" by blast
  have "\<forall>b n. (b, n) \<in> insert (q, count) (owned S) \<longleftrightarrow> blk' b = Some (n, False)"
    using inv(2) unfolding owns_def by (intro owns_taken[OF inv(1) _ t assms(3)])
  then have "owns \<lparr>mem = s', owned = insert (q, count) (owned S)\<rparr> blk'" by (simp add: owns_def)
  moreover have "pmm_inv s' blk'" using t unfolding taken_def by blast
  ultimately show ?thesis using a by (intro exI[of _ "\<lparr>mem = s', owned = insert (q, count) (owned S)\<rparr>"] exI[of _ blk']) simp
qed

lemma pstep_use:
  assumes inv: "pmm_inv (mem S) blk" "owns S blk" and e: "(b, n) \<in> owned S"
  shows "\<exists>S' blk'. pexec (PUse b n) S = Some S' \<and> pmm_inv (mem S') blk' \<and> owns S' blk'"
proof -
  let ?new = "\<lambda>x. if b \<le> x \<and> x < b + n then Some (1, False) else None"
  let ?S = "\<lparr>mem = use_pages b n (mem S), owned = owned S - {(b, n)} \<union> single_pages b n\<rparr>"
  have blk: "blk b = Some (n, False)" using inv(2) e unfolding owns_def by blast
  have n: "0 < n" using pmm_invD(4)[OF inv(1) blk] .
  have "owns ?S (divide blk b (b + n) ?new)"
  proof (rule owns_divide[OF inv(2)])
    show "(x, k) \<in> owned ?S \<longleftrightarrow> ?new x = Some (k, False)" if "b \<le> x" "x < b + n" for x k
      using that owns_inside[OF inv blk that, of k] by (auto simp: single_pages_iff)
    show "(x, k) \<in> owned ?S \<longleftrightarrow> (x, k) \<in> owned S" if "x < b \<or> b + n \<le> x" for x k
      using that n by (auto simp: single_pages_iff)
  qed
  moreover have "pexec (PUse b n) S = Some ?S" by simp
  ultimately show ?thesis using use_step[OF inv(1) blk] by fastforce
qed

lemma pstep_mark:
  assumes inv: "pmm_inv (mem S) blk" "owns S blk" and e: "0 < n" "single_pages p n \<subseteq> owned S"
  shows "\<exists>S' blk'. pexec (PMark p n) S = Some S' \<and> pmm_inv (mem S') blk' \<and> owns S' blk'"
proof -
  let ?S = "\<lparr>mem = mark_pending_free p n (mem S), owned = owned S - single_pages p n \<union> {(p, n)}\<rparr>"
  have one: "\<forall>i<n. blk (p + i) = Some (1, False)"
    using inv(2) e(2) unfolding owns_def by (metis (lifting) add_less_cancel_left le_add1 single_pages_iff subsetD)
  have in_S: "(x, k) \<in> owned S \<longleftrightarrow> k = 1" if "p \<le> x" "x < p + n" for x k
    using one[rule_format, of "x - p"] inv(2) that unfolding owns_def by auto
  have "owns ?S (divide blk p (p + n) [p \<mapsto> (n, False)])"
  proof (rule owns_divide[OF inv(2)])
    show "(x, k) \<in> owned ?S \<longleftrightarrow> [p \<mapsto> (n, False)] x = Some (k, False)" if "p \<le> x" "x < p + n" for x k
      using that in_S[OF that, of k] by (auto simp: single_pages_iff)
    show "(x, k) \<in> owned ?S \<longleftrightarrow> (x, k) \<in> owned S" if "x < p \<or> p + n \<le> x" for x k
      using that e(1) by (auto simp: single_pages_iff)
  qed
  moreover have "pexec (PMark p n) S = Some ?S" by simp
  ultimately show ?thesis using mark_step[OF inv(1) e(1) one] by fastforce
qed

lemma pstep_free:
  assumes inv: "pmm_inv (mem S) blk" "owns S blk" and e: "(p, n) \<in> owned S" "free_request p (mem S) = Some (n, None)"
  shows "\<exists>S' lo hi. pexec (PFree p n) S = Some S' \<and> joins (mem S) blk p n lo hi \<and>
    pmm_inv (mem S') (divide blk lo hi [lo \<mapsto> (hi - lo, True)]) \<and> owns S' (divide blk lo hi [lo \<mapsto> (hi - lo, True)])"
proof -
  have blk: "blk p = Some (n, False)" using inv(2) e(1) unfolding owns_def by blast
  obtain lo hi s' where f: "free_page (Some p) (mem S) = Some s'" and j: "joins (mem S) blk p n lo hi"
    and i: "pmm_inv s' (divide blk lo hi [lo \<mapsto> (hi - lo, True)])"
    using free_page_spec[OF inv(1) blk e(2)] by blast
  let ?S = "\<lparr>mem = s', owned = owned S - {(p, n)}\<rparr>"
  note R = joins_range[OF inv(1) blk j]
  have n: "0 < n" using pmm_invD(4)[OF inv(1) blk] .
  have only: "(x, k) = (p, n)" if x: "lo \<le> x" "x < hi" "(x, k) \<in> owned S" for x k
  proof (cases "x < p")
    case True
    then obtain m where m: "blk lo = Some (m, True)" "lo + m = p" using j x(1) unfolding joins_def by auto
    show ?thesis using owns_inside[OF inv m(1) x(1) _ x(3)] True m(2) by simp
  next
    case False
    show ?thesis
    proof (cases "x < p + n")
      case True
      then show ?thesis using owns_inside[OF inv blk _ True x(3)] False by simp
    next
      case out: False
      then obtain k' where k': "blk (p + n) = Some (k', True)" "hi = p + n + k'" using j x(2) unfolding joins_def by auto
      show ?thesis using owns_inside[OF inv k'(1) _ _ x(3)] out x(2) k'(2) by simp
    qed
  qed
  have "owns ?S (divide blk lo hi [lo \<mapsto> (hi - lo, True)])"
  proof (rule owns_divide[OF inv(2)])
    show "(x, k) \<in> owned ?S \<longleftrightarrow> [lo \<mapsto> (hi - lo, True)] x = Some (k, False)" if "lo \<le> x" "x < hi" for x k
      using only[OF that, of k] by auto
    show "(x, k) \<in> owned ?S \<longleftrightarrow> (x, k) \<in> owned S" if "x < lo \<or> hi \<le> x" for x k
      using that R n by auto
  qed
  moreover have "pexec (PFree p n) S = Some ?S" using f by (simp add: rcu_callback_def)
  ultimately show ?thesis using i j by (intro exI[of _ ?S] exI[of _ lo] exI[of _ hi]) simp
qed

lemma pstep:
  assumes "pmm_inv (mem S) blk" "owns S blk" "penabled S e"
  shows "\<exists>S' blk'. pexec e S = Some S' \<and> pmm_inv (mem S') blk' \<and> owns S' blk'"
  using assms(3)
proof (cases e)
  case (PAlloc count policy)
  then show ?thesis using pstep_alloc[OF assms(1,2)] assms(3) by simp
next
  case (PUse b n)
  then show ?thesis using pstep_use[OF assms(1,2)] assms(3) by simp
next
  case (PMark p n)
  then show ?thesis using pstep_mark[OF assms(1,2)] assms(3) by simp
next
  case (PFree p n)
  then show ?thesis using pstep_free[OF assms(1,2), of p n] assms(3) by auto
qed

lemma preach_inv: "preach S \<Longrightarrow> \<exists>blk. pmm_inv (mem S) blk \<and> owns S blk"
proof (induction rule: preach.induct)
  case (start S)
  then show ?case by (rule pstart_inv)
next
  case (step S e S')
  then show ?case using pstep[of S _ e] by fastforce
qed

end
