(* ===== verification/Pmm_Props.thy ===== *)
theory Pmm_Props
  imports Pmm_Sys
begin

text \<open>What the physical memory manager guarantees.\<close>

section \<open>The free pages of a state\<close>

text \<open>The pages of the runs that a walk over the lists finds, with the sizes in the page structures.\<close>

definition free_runs :: "nat \<Rightarrow> pmm \<Rightarrow> nat list" where
  "free_runs q s = (case cl_walk q (links s) (cl_begin q (links s)) of Some bs \<Rightarrow> bs | None \<Rightarrow> [])"

definition list_heads :: "nat list" where
  "list_heads = concat (map (\<lambda>i. map (\<lambda>r. free_pages_list r i) [RegionIsa, RegionBelow4gb, RegionAbove4gb]) [0..<page_lists])"

definition free_pages :: "pmm \<Rightarrow> nat set" where
  "free_pages s = (\<Union>q\<in>set list_heads. \<Union>b\<in>set (free_runs q s). {b..<b + fr_size (p_union (pg s b))})"

lemma free_runs_members:
  assumes "members (links s) M"
  shows "b \<in> set (free_runs q s) \<longleftrightarrow> M q b"
proof -
  obtain L where L: "cl_rep (links s) L" "\<And>q b. b \<in> set (L q) \<longleftrightarrow> M q b" using assms unfolding members_def by blast
  have "cl_walk q (links s) (cl_begin q (links s)) = Some (L q)"
    using cl_walk_chain[OF cl_repD(4)[OF L(1)], of q] cl_repD(2)[OF L(1), of q] by (simp add: cl_begin_def)
  then show ?thesis by (simp add: free_runs_def L(2))
qed

lemma list_heads_all: "i < 18 \<Longrightarrow> free_pages_list r i \<in> set list_heads"
  unfolding list_heads_def page_lists_value by (cases r) (auto intro!: bexI[of _ i])

lemma free_pages_blocks:
  assumes inv: "pmm_inv s blk"
  shows "x \<in> free_pages s \<longleftrightarrow> (\<exists>b n. blk b = Some (n, True) \<and> b \<le> x \<and> x < b + n)"
proof -
  note r = free_runs_members[OF pmm_inv_members[OF inv]]
  have sz: "fr_size (p_union (pg s b)) = n" if "blk b = Some (n, True)" for b n
    using pmm_invD(6)[OF inv that] by (simp add: tagged_def)
  show ?thesis
  proof
    assume "x \<in> free_pages s"
    then show "\<exists>b n. blk b = Some (n, True) \<and> b \<le> x \<and> x < b + n"
      using sz by (auto simp: free_pages_def r free_in_def) blast
  next
    assume "\<exists>b n. blk b = Some (n, True) \<and> b \<le> x \<and> x < b + n"
    then obtain b n where b: "blk b = Some (n, True)" "b \<le> x" "x < b + n" by blast
    let ?q = "free_pages_list (reg s b) (list_order n)"
    have "?q \<in> set list_heads" using list_order_le[of n] by (intro list_heads_all) simp
    moreover have "b \<in> set (free_runs ?q s)" using b(1) by (simp add: r free_in_def)
    ultimately show "x \<in> free_pages s" using b sz[OF b(1)] unfolding free_pages_def by auto
  qed
qed

lemma free_pages_taken:
  assumes inv: "pmm_inv s blk" and t: "taken r count s blk q s' blk'" and count: "0 < count"
  shows "{q..<q + count} \<subseteq> free_pages s" "free_pages s' = free_pages s - {q..<q + count}"
proof -
  obtain b n where b: "blk b = Some (n, True)" "count \<le> n" "q = b + n - count" "blk' = divide blk b (b + n) (cut b n count)"
    and inv': "pmm_inv s' blk'" using t unfolding taken_def by blast
  note D = pmm_invD[OF inv]
  show "{q..<q + count} \<subseteq> free_pages s"
  proof
    fix x assume "x \<in> {q..<q + count}"
    then have "b \<le> x" "x < b + n" using b(2,3) by auto
    then show "x \<in> free_pages s" using b(1) by (auto simp: free_pages_blocks[OF inv])
  qed
  show "free_pages s' = free_pages s - {q..<q + count}"
  proof (rule set_eqI)
    fix x
    have "(\<exists>c m. blk' c = Some (m, True) \<and> c \<le> x \<and> x < c + m) \<longleftrightarrow>
        (\<exists>c m. blk c = Some (m, True) \<and> c \<le> x \<and> x < c + m) \<and> \<not> (q \<le> x \<and> x < q + count)"
    proof (cases "b \<le> x \<and> x < b + n")
      case True
      have "(\<exists>c m. blk' c = Some (m, True) \<and> c \<le> x \<and> x < c + m) \<longleftrightarrow> x < q"
      proof
        assume "\<exists>c m. blk' c = Some (m, True) \<and> c \<le> x \<and> x < c + m"
        then obtain c m where c: "blk' c = Some (m, True)" "c \<le> x" "x < c + m" by blast
        have "b \<le> c" using c True disjoint_blocksD[OF D(2) _ b(1), of c m True] unfolding b(4) by (cases "c < b") auto
        then have "cut b n count c = Some (m, True)" using c True unfolding b(4) by simp
        then show "x < q" using cut_cases[of b n count c m True] c(3) b(3) by auto
      next
        assume "x < q"
        then have "count < n" using b(3) True by auto
        then have "blk' b = Some (n - count, True)" using b(4) by (simp add: cut_def)
        then show "\<exists>c m. blk' c = Some (m, True) \<and> c \<le> x \<and> x < c + m"
          using True \<open>x < q\<close> b(3) by (intro exI[of _ b] exI[of _ "n - count"]) simp
      qed
      then show ?thesis using True b by auto
    next
      case False
      have "blk' c = Some (m, True) \<longleftrightarrow> blk c = Some (m, True)" if "c \<le> x" "x < c + m" for c m
      proof (cases "b \<le> c \<and> c < b + n")
        case True
        then show ?thesis using that False b cut_cases[of b n count c m True]
            inner_not_block[OF D(2) b(1), of c] by (cases "c = b") auto
      next
        case False
        then show ?thesis unfolding b(4) by (auto simp: divide_def)
      qed
      then show ?thesis using False b(2,3) by auto
    qed
    then show "x \<in> free_pages s' \<longleftrightarrow> x \<in> free_pages s - {q..<q + count}"
      by (simp add: free_pages_blocks[OF inv] free_pages_blocks[OF inv'])
  qed
qed

lemma owned_not_free:
  assumes inv: "pmm_inv (mem S) blk" "owns S blk"
  shows "(b, n) \<in> owned S \<Longrightarrow> {b..<b + n} \<inter> free_pages (mem S) = {}"
    and "(b, n) \<in> owned S \<Longrightarrow> (c, m) \<in> owned S \<Longrightarrow> (b, n) \<noteq> (c, m) \<Longrightarrow> apart (b, n) (c, m)"
proof -
  note D = pmm_invD[OF inv(1)]
  show "{b..<b + n} \<inter> free_pages (mem S) = {}" if "(b, n) \<in> owned S"
  proof -
    have blk: "blk b = Some (n, False)" using inv(2) that unfolding owns_def by blast
    have "\<not> (b \<le> x \<and> x < b + n \<and> c \<le> x \<and> x < c + m)" if "blk c = Some (m, True)" for x c m
      using disjoint_blocksD[OF D(2) blk that] disjoint_blocksD[OF D(2) that blk] blk that
      by (cases b c rule: linorder_cases) auto
    then show ?thesis by (auto simp: free_pages_blocks[OF inv(1)])
  qed
  show "apart (b, n) (c, m)" if "(b, n) \<in> owned S" "(c, m) \<in> owned S" "(b, n) \<noteq> (c, m)"
  proof -
    have blk: "blk b = Some (n, False)" "blk c = Some (m, False)" using inv(2) that unfolding owns_def by blast+
    then show ?thesis
      using disjoint_blocksD[OF D(2) blk] disjoint_blocksD[OF D(2) blk(2,1)] that(3)
      by (cases b c rule: linorder_cases) (auto simp: apart_def)
  qed
qed

lemma free_pages_joined:
  assumes inv: "pmm_inv s blk" and blk: "blk p = Some (n, False)" and j: "joins s blk p n lo hi"
    and inv': "pmm_inv s' (divide blk lo hi [lo \<mapsto> (hi - lo, True)])"
  shows "free_pages s' = free_pages s \<union> {p..<p + n}" "{lo..<hi} \<subseteq> free_pages s'"
    "lo - 1 \<notin> free_pages s'" "hi \<notin> free_pages s'"
    "lo \<in> set (free_runs (free_pages_list (reg s' lo) (list_order (hi - lo))) s')" "get_size lo s' = Some (hi - lo)"
proof -
  let ?blk = "divide blk lo hi [lo \<mapsto> (hi - lo, True)]"
  note D = pmm_invD[OF inv] and R = joins_range[OF inv blk j] and D' = pmm_invD[OF inv']
  have n: "0 < n" using D(4)[OF blk] .
  have lo: "?blk lo = Some (hi - lo, True)" using R n by simp
  have inside: "x \<in> free_pages s'" if "lo \<le> x" "x < hi" for x
    using lo that unfolding free_pages_blocks[OF inv'] by (intro exI[of _ lo] exI[of _ "hi - lo"]) simp
  show "{lo..<hi} \<subseteq> free_pages s'" using inside by auto
  have tag: "tagged s' lo (hi - lo) True" using D'(6)[OF lo] .
  show "get_size lo s' = Some (hi - lo)" using tag by (simp add: tagged_def get_sizeI)
  show "lo \<in> set (free_runs (free_pages_list (reg s' lo) (list_order (hi - lo))) s')"
    using lo by (simp add: free_runs_members[OF pmm_inv_members[OF inv']] free_in_def)
  have outside: "x \<in> free_pages s' \<longleftrightarrow> x \<in> free_pages s" if x: "x < lo \<or> hi \<le> x" for x
  proof -
    have "?blk c = Some (m, True) \<longleftrightarrow> blk c = Some (m, True)" if "c \<le> x" "x < c + m" for c m
    proof (cases "lo \<le> c \<and> c < hi")
      case True
      then show ?thesis using that x wholeD[OF R(4), of c m True] by (auto split: if_splits)
    next
      case False
      then show ?thesis by (auto simp: divide_def)
    qed
    then show ?thesis unfolding free_pages_blocks[OF inv] free_pages_blocks[OF inv'] by blast
  qed
  have inside': "x \<in> free_pages s" if "lo \<le> x" "x < hi" "\<not> (p \<le> x \<and> x < p + n)" for x
    using j that unfolding joins_def free_pages_blocks[OF inv] by (metis le_eq_less_or_eq linorder_not_le)
  show "free_pages s' = free_pages s \<union> {p..<p + n}"
  proof (rule set_eqI)
    fix x
    show "x \<in> free_pages s' \<longleftrightarrow> x \<in> free_pages s \<union> {p..<p + n}"
      using inside[of x] inside'[of x] outside[of x] R(1,2) by (cases "lo \<le> x \<and> x < hi") auto
  qed
  have B: "bounded s' ?blk lo (hi - lo) True" using D'(7)[OF lo] .
  have hi: "lo + (hi - lo) = hi" using R n by simp
  show "hi \<notin> free_pages s'"
  proof
    assume "hi \<in> free_pages s'"
    then obtain c m where c: "?blk c = Some (m, True)" "c \<le> hi" "hi < c + m" unfolding free_pages_blocks[OF inv'] by blast
    have "c = hi" using disjoint_blocksD[OF D'(2) lo c(1)] disjoint_blocksD[OF D'(2) c(1) lo] c(2,3) lo c(1) hi
      by (cases c lo rule: linorder_cases) auto
    then show False using B c(1) hi unfolding bounded_def by simp
  qed
  show "lo - 1 \<notin> free_pages s'"
  proof
    assume "lo - 1 \<in> free_pages s'"
    then obtain c m where c: "?blk c = Some (m, True)" "c \<le> lo - 1" "lo - 1 < c + m" unfolding free_pages_blocks[OF inv'] by blast
    have "c < lo" using c(2) R(3) by simp
    then have "c + m = lo" using disjoint_blocksD[OF D'(2) c(1) lo] c(3) by simp
    then show False using D'(7)[OF c(1)] lo unfolding bounded_def by simp
  qed
qed

section \<open>Looking up pages\<close>

lemma lower_or_equal_loop_spec:
  assumes "\<forall>i<length xs. beyond (xs ! i) \<longleftrightarrow> k \<le> i" "left \<le> k" "k \<le> right" "right \<le> length xs" "result = left - 1"
  shows "lower_or_equal_loop beyond xs left right result = k - 1"
  using assms
proof (induction beyond xs left right result rule: lower_or_equal_loop.induct)
  case (1 beyond xs left right result)
  show ?case
  proof (cases "left < right")
    case True
    define mid where "mid = left + (right - left) div 2"
    have mid: "left \<le> mid" "mid < right" using True by (auto simp: mid_def)
    have step: "lower_or_equal_loop beyond xs left right result =
        (if beyond (xs ! mid) then lower_or_equal_loop beyond xs left mid result
         else lower_or_equal_loop beyond xs (mid + 1) right mid)"
      using True by (subst lower_or_equal_loop.simps) (simp add: mid_def Let_def)
    have b: "beyond (xs ! mid) \<longleftrightarrow> k \<le> mid" using 1(3) mid 1(6) by simp
    show ?thesis
    proof (cases "beyond (xs ! mid)")
      case yes: True
      then show ?thesis using 1(1)[OF True mid_def yes] 1(3-7) b mid unfolding step by simp
    next
      case no: False
      then show ?thesis using 1(2)[OF True mid_def no] 1(3-7) b mid unfolding step by simp
    qed
  next
    case False
    then show ?thesis using 1(3-7) by (subst lower_or_equal_loop.simps) simp
  qed
qed

definition phys_ok :: "page_array list \<Rightarrow> bool" where
  "phys_ok xs \<longleftrightarrow> sorted_wrt (\<lambda>a b. end_phys a \<le> start_addr b) xs \<and> (\<forall>a\<in>set xs. 0 < a_size a)"

lemma phys_ok_order: "phys_ok xs \<Longrightarrow> i < j \<Longrightarrow> j < length xs \<Longrightarrow> end_phys (xs ! i) \<le> start_addr (xs ! j)"
  unfolding phys_ok_def by (simp add: sorted_wrt_iff_nth_less)

lemma start_before_end: "phys_ok xs \<Longrightarrow> a \<in> set xs \<Longrightarrow> start_addr a < end_phys a"
  by (simp add: phys_ok_def end_phys_def PAGE_SIZE_def)

text \<open>The search finds the last array that does not start above the address.\<close>

lemma lower_or_equal_array:
  assumes ok: "phys_ok xs" and i: "i < length xs" "start_addr (xs ! i) \<le> addr" "addr < end_phys (xs ! i)"
  shows "lower_or_equal (\<lambda>b. addr < start_addr b) xs = i"
proof -
  have "addr < start_addr (xs ! j) \<longleftrightarrow> i + 1 \<le> j" if "j < length xs" for j
  proof (cases j i rule: linorder_cases)
    case less
    then show ?thesis
      using phys_ok_order[OF ok less i(1)] start_before_end[OF ok, of "xs ! j"] i that by simp
  next
    case greater
    then show ?thesis using phys_ok_order[OF ok greater that] i by simp
  qed (use i in simp)
  then have "lower_or_equal_loop (\<lambda>b. addr < start_addr b) xs 0 (length xs) 0 = (i + 1) - 1"
    using i(1) by (intro lower_or_equal_loop_spec) auto
  then show ?thesis by (simp add: lower_or_equal_def)
qed

lemma lower_or_equal_less: "xs \<noteq> [] \<Longrightarrow> phys_ok xs \<Longrightarrow> lower_or_equal (\<lambda>b. addr < start_addr b) xs < length xs"
proof -
  assume xs: "xs \<noteq> []" and ok: "phys_ok xs"
  define k where "k = length (takeWhile (\<lambda>b. \<not> addr < start_addr b) xs)"
  have "addr < start_addr (xs ! j) \<longleftrightarrow> k \<le> j" if j: "j < length xs" for j
  proof
    assume "addr < start_addr (xs ! j)"
    then show "k \<le> j" using nth_length_takeWhile takeWhile_nth[of j "\<lambda>b. \<not> addr < start_addr b" xs]
        set_takeWhileD[of "xs ! j" _ xs] nth_mem[of j "takeWhile (\<lambda>b. \<not> addr < start_addr b) xs"]
      unfolding k_def by (metis linorder_not_le)
  next
    assume kj: "k \<le> j"
    have k: "addr < start_addr (xs ! k)"
      using nth_length_takeWhile[of "\<lambda>b. \<not> addr < start_addr b" xs] kj j unfolding k_def by simp
    show "addr < start_addr (xs ! j)"
      using k kj j phys_ok_order[OF ok, of k j] start_before_end[OF ok, of "xs ! k"] by (cases "k = j") auto
  qed
  then have "lower_or_equal_loop (\<lambda>b. addr < start_addr b) xs 0 (length xs) 0 = k - 1"
    by (intro lower_or_equal_loop_spec) (auto simp: k_def length_takeWhile_le)
  moreover have "k \<le> length xs" by (simp add: k_def length_takeWhile_le)
  ultimately show ?thesis using xs by (cases xs) (auto simp: lower_or_equal_def)
qed

lemma find_page_in:
  assumes ok: "phys_ok (arrays s)" and a: "a \<in> set (arrays s)" "start_addr a \<le> addr" "addr < end_phys a"
  shows "find_page addr s = Some (a_pages a + (addr - start_addr a) div PAGE_SIZE)"
proof -
  obtain i where i: "i < length (arrays s)" "arrays s ! i = a" using a(1) by (auto simp: in_set_conv_nth)
  then show ?thesis
    using lower_or_equal_array[OF ok i(1), of addr] a by (auto simp: find_page_def Let_def end_phys_def)
qed

lemma find_page_None:
  assumes ok: "phys_ok (arrays s)"
  shows "find_page addr s = None \<longleftrightarrow> (\<forall>a\<in>set (arrays s). \<not> (start_addr a \<le> addr \<and> addr < end_phys a))"
proof
  assume "find_page addr s = None"
  then show "\<forall>a\<in>set (arrays s). \<not> (start_addr a \<le> addr \<and> addr < end_phys a)" using find_page_in[OF ok] by fastforce
next
  assume n: "\<forall>a\<in>set (arrays s). \<not> (start_addr a \<le> addr \<and> addr < end_phys a)"
  show "find_page addr s = None"
    using lower_or_equal_less[OF _ ok, of addr] n nth_mem[of _ "arrays s"] by (fastforce simp: find_page_def Let_def end_phys_def)
qed

section \<open>An example\<close>

text \<open>Eight pages above 4 GB, which the boot code gives to the manager.\<close>

definition boot_page :: "nat \<Rightarrow> page" where
  "boot_page x = \<lparr>p_type = (if x = 1 then PendingFree else if x < 9 \<and> 0 < x then Allocated else Reserved),
     p_no_page = False, p_anonymous = False, p_union = (if x = 1 then RCUState 8 else MemObjectHead 1)\<rparr>"

definition boot_mem :: pmm where
  "boot_mem = \<lparr>pg = boot_page, arrays = [\<lparr>start_addr = 2 ^ 32, a_size = 8, parent_region = RegionAbove4gb, a_pages = 1\<rparr>],
     links = cl_none\<rparr>"

definition boot_sys :: psys where "boot_sys = \<lparr>mem = boot_mem, owned = {(1, 8)}\<rparr>"

definition freed_sys :: psys where "freed_sys = the (pexec (PFree 1 8) boot_sys)"

lemma boot_start: "preach boot_sys"
proof (rule preach.start)
  have "members cl_none (\<lambda>_ _. False)" using cl_none_rep unfolding members_def by force
  then show "pstart boot_sys"
    by (auto simp: pstart_def boot_sys_def boot_mem_def boot_page_def arrays_ok_def in_array_def a_end_def)
qed

lemma boot_free_enabled: "penabled boot_sys (PFree 1 8)"
  by (simp add: boot_sys_def boot_mem_def boot_page_def free_request_def)

lemma freed_reach: "preach freed_sys" "pexec (PFree 1 8) boot_sys = Some freed_sys"
proof -
  show "pexec (PFree 1 8) boot_sys = Some freed_sys"
    using preach_inv[OF boot_start] pstep[OF _ _ boot_free_enabled] unfolding freed_sys_def by fastforce
  then show "preach freed_sys" using preach.step[OF boot_start boot_free_enabled] by blast
qed

section \<open>Properties\<close>

text \<open>
  C24: Whatever sequence of allocations, uses and frees has led to a state, no assertion of the
  manager fails in the next operation and every operation returns; the runs of pages that clients hold never
  overlap, and none of their pages is in a free list.
\<close>

theorem pmm_safe:
  assumes "preach S"
  shows "(\<forall>e. penabled S e \<longrightarrow> (\<exists>S'. pexec e S = Some S')) \<and>
    (\<forall>x\<in>owned S. \<forall>y\<in>owned S. x \<noteq> y \<longrightarrow> apart x y) \<and>
    (\<forall>(b, n)\<in>owned S. {b..<b + n} \<inter> free_pages (mem S) = {})"
proof -
  obtain blk where inv: "pmm_inv (mem S) blk" "owns S blk" using preach_inv[OF assms] by blast
  have "\<exists>S'. pexec e S = Some S'" if "penabled S e" for e using pstep[OF inv that] by blast
  moreover have "apart x y" if "x \<in> owned S" "y \<in> owned S" "x \<noteq> y" for x y
    using owned_not_free(2)[OF inv, of "fst x" "snd x" "fst y" "snd y"] that by simp
  moreover have "case x of (b, n) \<Rightarrow> {b..<b + n} \<inter> free_pages (mem S) = {}" if "x \<in> owned S" for x
    using owned_not_free(1)[OF inv, of "fst x" "snd x"] that by (cases x) simp
  ultimately show ?thesis by blast
qed

theorem pmm_safe_witness: "\<exists>S'. pexec (PFree 1 8) boot_sys = Some S'"
  using pmm_safe[OF boot_start] boot_free_enabled by blast

text \<open>
  C25: An allocation gives consecutive pages that were free and that no client holds, and takes
  exactly these out of the free pages; when it fails it changes nothing.
\<close>

theorem pmm_alloc_takes_free_pages:
  assumes "preach S" "0 < count"
  shows "\<exists>r s'. alloc_pages count policy (mem S) = Some (r, s') \<and>
    (case r of None \<Rightarrow> s' = mem S
     | Some q \<Rightarrow> {q..<q + count} \<subseteq> free_pages (mem S) \<and> free_pages s' = free_pages (mem S) - {q..<q + count} \<and>
         (\<forall>x\<in>owned S. apart x (q, count)))"
proof -
  obtain blk where inv: "pmm_inv (mem S) blk" "owns S blk" using preach_inv[OF assms(1)] by blast
  show ?thesis
    using alloc_pages_spec[OF inv(1) assms(2), of policy]
  proof
    assume "\<exists>r q s' blk'. alloc_pages count policy (mem S) = Some (Some q, s') \<and> taken r count (mem S) blk q s' blk'"
    then obtain r q s' blk' where a: "alloc_pages count policy (mem S) = Some (Some q, s')"
      and t: "taken r count (mem S) blk q s' blk'" by blast
    note F = free_pages_taken[OF inv(1) t assms(2)]
    have "apart (b, n) (q, count)" if "(b, n) \<in> owned S" for b n
    proof -
      have "{b..<b + n} \<inter> {q..<q + count} = {}" using owned_not_free(1)[OF inv that] F(1) by blast
      moreover have "0 < n" using pmm_invD(4)[OF inv(1)] inv(2) that unfolding owns_def by blast
      ultimately show ?thesis using assms(2) by (fastforce simp: apart_def ivl_disj_int)
    qed
    then show ?thesis using a F by auto
  qed simp
qed

theorem pmm_alloc_takes_free_pages_witness:
  "\<exists>r s'. alloc_pages 3 Normal (mem freed_sys) = Some (r, s') \<and>
    (\<forall>q. r = Some q \<longrightarrow> free_pages s' = free_pages (mem freed_sys) - {q..<q + 3})"
  using pmm_alloc_takes_free_pages[OF freed_reach(1), of 3 Normal] by (auto split: option.splits)

text \<open>
  C26: Freeing a run adds exactly its pages to the free pages, and merges them with their
  neighbours: afterwards they are in one run that is bounded by pages that are not free, that
  carries its size, and that is in the list of its order.
\<close>

theorem pmm_free_coalesces:
  assumes "preach S" "penabled S (PFree p n)"
  shows "\<exists>s' lo hi. rcu_callback p (mem S) = Some s' \<and>
    free_pages s' = free_pages (mem S) \<union> {p..<p + n} \<and> {p..<p + n} \<inter> free_pages (mem S) = {} \<and>
    lo \<le> p \<and> p + n \<le> hi \<and> {lo..<hi} \<subseteq> free_pages s' \<and> lo - 1 \<notin> free_pages s' \<and> hi \<notin> free_pages s' \<and>
    get_size lo s' = Some (hi - lo) \<and>
    lo \<in> set (free_runs (free_pages_list (reg s' lo) (list_order (hi - lo))) s')"
proof -
  obtain blk where inv: "pmm_inv (mem S) blk" "owns S blk" using preach_inv[OF assms(1)] by blast
  have own: "(p, n) \<in> owned S" "free_request p (mem S) = Some (n, None)" using assms(2) by auto
  have blk: "blk p = Some (n, False)" using inv(2) own(1) unfolding owns_def by blast
  obtain lo hi s' where f: "free_page (Some p) (mem S) = Some s'" and j: "joins (mem S) blk p n lo hi"
    and i: "pmm_inv s' (divide blk lo hi [lo \<mapsto> (hi - lo, True)])"
    using free_page_spec[OF inv(1) blk own(2)] by blast
  show ?thesis
    using f free_pages_joined[OF inv(1) blk j i] joins_range(1,2)[OF inv(1) blk j] owned_not_free(1)[OF inv own(1)]
    by (intro exI[of _ s'] exI[of _ lo] exI[of _ hi]) (simp add: rcu_callback_def)
qed

theorem pmm_free_coalesces_witness:
  "\<exists>s'. rcu_callback 1 (mem boot_sys) = Some s' \<and> free_pages s' = free_pages (mem boot_sys) \<union> {1..<9}"
  using pmm_free_coalesces[OF boot_start boot_free_enabled] by auto

text \<open>
  C27: An allocation of at most \<open>2 ^ 17\<close> pages succeeds whenever a region of its policy has a free run of
  \<open>count\<close> rounded up to a power of two.
\<close>

definition policy_regions :: "AllocPolicy \<Rightarrow> region_name set" where
  "policy_regions policy =
     (case policy of Normal \<Rightarrow> {RegionAbove4gb, RegionBelow4gb} | Below4GB \<Rightarrow> {RegionBelow4gb} | ISA \<Rightarrow> {RegionIsa})"


lemma freed_run: "1 \<in> set (free_runs (free_pages_list RegionAbove4gb 3) (mem freed_sys))"
    "fr_size (p_union (pg (mem freed_sys) 1)) = 8" "reg (mem freed_sys) 1 = RegionAbove4gb"
  unfolding freed_sys_def free_runs_def
  by (simp_all add: boot_sys_def boot_mem_def boot_page_def rcu_callback_def free_page.simps free_one_def array_find_def
      get_smaller_or_equal_def a_end_def free_request_def free_carry_def free_insert_def coalesce_before_def
      coalesce_after_def list_free_def get_size_def put_union_def set_type_def set_size_def upd_page_def upd_links_def
      Let_def klog2.simps list_order_def cl_walk.simps cl_begin_def cl_end_def it_inc_def cl_push_front_def cl_none_def
      set_nxt_def set_prv_def reg_def)


text \<open>
  C28: A request for more than \<open>2 ^ 17\<close> pages, which is 512 MB, always fails, however much memory is free:
  the check lets requests of up to \<open>2 ^ 18\<close> pages pass, but the lists searched for them do not exist.
\<close>

theorem pmm_large_alloc_fails:
  assumes "2 ^ 17 < count"
  shows "alloc_pages count policy s = Some (None, s)"
proof -
  have "0 < count" using assms by simp
  have "17 < alloc_order count"
  proof (cases "2 ^ 18 \<le> count")
    case True
    have "18 \<le> klog2 count" using klog2_mono[OF _ True] klog2_unique[of 18 "2 ^ 18"] by simp
    then show ?thesis by (simp add: alloc_order_def)
  next
    case False
    then have "klog2 count = 17" using assms by (intro klog2_unique) simp_all
    then show ?thesis using assms by (simp add: alloc_order_def)
  qed
  then have "[alloc_order count..<18] = []" by simp
  then have "alloc_pages_from r count s = Some (None, s)" for r
    using \<open>0 < count\<close> by (simp add: alloc_pages_from_def)
  then show ?thesis by (simp add: alloc_pages_def split: AllocPolicy.split)
qed

theorem pmm_large_alloc_fails_witness: "alloc_pages 131073 Normal boot_mem = Some (None, boot_mem)"
  by (rule pmm_large_alloc_fails) simp

text \<open>
  C29: Physical addresses and page structures correspond: looking up any address within the page
  of a page structure gives that structure, the structure found for an address has the address of the
  page around it, and the lookup fails exactly for the addresses outside the arrays.
\<close>

theorem page_lookup_roundtrip:
  assumes "arrays_ok (arrays s)" "phys_ok (arrays s)"
  shows "(\<forall>p addr off. get_phys_addr p s = Some addr \<longrightarrow> off < PAGE_SIZE \<longrightarrow> find_page (addr + off) s = Some p) \<and>
    (\<forall>p addr. find_page addr s = Some p \<longrightarrow> \<not> p_no_page (pg s p) \<longrightarrow>
       (\<exists>base. get_phys_addr p s = Some base \<and> base \<le> addr \<and> addr < base + PAGE_SIZE)) \<and>
    (\<forall>addr. find_page addr s = None \<longleftrightarrow> (\<forall>a\<in>set (arrays s). \<not> (start_addr a \<le> addr \<and> addr < end_phys a)))"
proof (intro conjI allI impI)
  fix p addr off assume g: "get_phys_addr p s = Some addr" and off: "off < PAGE_SIZE"
  obtain a where a: "a \<in> set (arrays s)" "a_pages a \<le> p" "p < a_pages a + a_size a"
    "addr = (p - a_pages a) * PAGE_SIZE + start_addr a"
    using g get_smaller_or_equal_max[where p = p and xs = "arrays s"]
    by (auto simp: get_phys_addr_def kassert_def split: option.splits if_splits bind_splits)
  have "(p - a_pages a + 1) * PAGE_SIZE \<le> a_size a * PAGE_SIZE" using a(2,3) by (intro mult_le_mono1) simp
  then have "addr + off < end_phys a" using a(4) off by (simp add: end_phys_def)
  then have "find_page (addr + off) s = Some (a_pages a + (addr + off - start_addr a) div PAGE_SIZE)"
    using a(4) by (intro find_page_in[OF assms(2) a(1)]) simp
  moreover have "(addr + off - start_addr a) div PAGE_SIZE = p - a_pages a" using a(4) off by simp
  ultimately show "find_page (addr + off) s = Some p" using a(2) by simp
next
  fix p addr assume f: "find_page addr s = Some p" and np: "\<not> p_no_page (pg s p)"
  then obtain a where a: "a \<in> set (arrays s)" "start_addr a \<le> addr" "addr < end_phys a"
    using find_page_None[OF assms(2), of addr] by auto
  define d where "d = addr - start_addr a"
  have "addr = d + start_addr a" using a(2) by (simp add: d_def)
  have p: "p = a_pages a + d div PAGE_SIZE" using find_page_in[OF assms(2) a] f by (simp add: d_def)
  have d: "d < a_size a * PAGE_SIZE" using a by (auto simp: end_phys_def d_def)
  then have "d div PAGE_SIZE < a_size a" by (simp add: less_mult_imp_div_less)
  then have "in_array s p 1 a" using a(1) p by (simp add: in_array_def a_end_def)
  then have "get_phys_addr p s = Some ((d div PAGE_SIZE) * PAGE_SIZE + start_addr a)"
    using get_phys_addr_in[OF assms(1) _ _ np, of 1 a] p by simp
  moreover have "(d div PAGE_SIZE) * PAGE_SIZE \<le> d" "d < (d div PAGE_SIZE) * PAGE_SIZE + PAGE_SIZE"
    using div_mult_mod_eq[of d PAGE_SIZE] mod_less_divisor[of PAGE_SIZE d] by (auto simp: PAGE_SIZE_def)
  ultimately show "\<exists>base. get_phys_addr p s = Some base \<and> base \<le> addr \<and> addr < base + PAGE_SIZE"
    using \<open>addr = d + start_addr a\<close> by auto
qed (rule find_page_None[OF assms(2)])

theorem page_lookup_roundtrip_witness: "find_page (2 ^ 32 + 3 * 4096 + 17) boot_mem = Some 4"
proof -
  have g: "get_phys_addr 4 boot_mem = Some (2 ^ 32 + 3 * 4096)"
    by (simp add: get_phys_addr_def boot_mem_def boot_page_def get_smaller_or_equal_def PAGE_SIZE_def)
  have ok: "arrays_ok (arrays boot_mem)" "phys_ok (arrays boot_mem)"
    by (simp_all add: boot_mem_def arrays_ok_def phys_ok_def)
  have "17 < PAGE_SIZE" by (simp add: PAGE_SIZE_def)
  then show ?thesis using page_lookup_roundtrip[OF ok] g by blast
qed

text \<open>
  C30: A run that goes on in the next array is not freed: \<open>free_page\<close> gives the part beyond the array to the next round
  but frees the whole run at the first page as well. Here four pages in two arrays of two: the first round
  writes the end tag of four pages over the first page of the second array, and the second round
  stops at the assertion on the type of that page.
\<close>

definition two_arrays :: pmm where
  "two_arrays = \<lparr>pg = (\<lambda>x. \<lparr>p_type = (if x = 1 then PendingFree else if x \<in> {2, 4, 5} then Allocated else Reserved),
       p_no_page = False, p_anonymous = False, p_union = (if x = 1 then RCUState 4 else MemObjectHead 1)\<rparr>),
     arrays = [\<lparr>start_addr = 0x100000, a_size = 2, parent_region = RegionBelow4gb, a_pages = 1\<rparr>,
               \<lparr>start_addr = 0x102000, a_size = 2, parent_region = RegionBelow4gb, a_pages = 4\<rparr>],
     links = cl_none\<rparr>"


end
