(* ===== verification/Ipc.thy ===== *)
theory Ipc
  imports Prelude
begin

text \<open>
  Rights, ports and messages of the kernel: \<open>messaging/rights.hh\<close>, \<open>rights.cc\<close>, \<open>messaging.hh\<close>,
  \<open>messaging.cc\<close>, \<open>ports.hh\<close>, the part of \<open>processes/task_group.cc\<close> that holds rights, and the system calls that
  receive a message and accept its rights.

  Objects are addresses into stores, a port and a task group are named by their number; the trees
  of rights are maps from the number that is their key. A right is held by a task group or by a message (\<open>of_message\<close>). Each operation runs
  under the lock of the right it works on, so it is one step; the loops that take the rights of a
  port, of a group or of a shared receive right one by one, releasing the locks in between, are one step per
  round. The lock of a port is not recursive: \<open>held\<close> is the port whose lock the caller has, and
  locking it again never returns, which is \<open>None\<close>, as are a failed assertion and an access to a port
  that was given to read-copy-update. Memory is reclaimed by read-copy-update, which is the list of
  what was pushed. The scheduler is woken by \<open>enqueue\<close>, which is not modelled here.
\<close>

section \<open>State\<close>

text \<open>The types of rights that some class of the code has.\<close>

datatype RightType = SendOnce | SendMany | MemObject

record right =
  r_type :: RightType
  parent_group :: nat
  parent_message :: nat
  right_sender_id :: nat
  r_alive :: bool
  of_message :: bool
  right_0 :: bool
  r_sent :: bool
  notification_port :: bool
  r_parent :: nat
  right_parent_id :: nat
  r_shared :: nat
  mem_object :: nat
  permission_mask :: nat

text \<open>\<open>SendManyRightShared\<close>; \<open>s_dying\<close> and \<open>s_queued\<close> are ghosts: it is being destroyed, it is in a queue.\<close>

record shared =
  s_alive :: bool
  s_parent :: nat
  s_parent_id :: nat
  send_many_rights :: "nat list"
  s_dying :: bool
  s_queued :: bool

datatype recieve_right = RR nat | RS nat

datatype generic_message = QMessage nat | QRight nat | QShared nat

text \<open>\<open>m_port\<close> is a ghost: the port the message was sent to.\<close>

record message =
  task_id_from :: nat
  m_sent_with_right :: nat
  m_content :: "u8 list"
  m_reply_right :: "nat option"
  m_rights :: "nat option list"
  m_port :: nat

record port =
  po_alive :: bool
  po_owner :: nat
  msg_queue :: "generic_message list"
  po_rights :: "nat \<rightharpoonup> recieve_right"
  po_current_right_id :: nat

record task_group =
  g_tasks :: "nat set"
  g_rights :: "nat \<rightharpoonup> nat"
  g_current_right_id :: nat

definition g_alive :: "task_group \<Rightarrow> bool" where
  "g_alive g \<longleftrightarrow> g_tasks g \<noteq> {}"

lemma g_alive_upd [simp]:
  "g_alive (g\<lparr>g_rights := m\<rparr>) = g_alive g" "g_alive (g\<lparr>g_current_right_id := i\<rparr>) = g_alive g"
  by (simp_all add: g_alive_def)

record ipc =
  rights :: "nat \<Rightarrow> right"
  shareds :: "nat \<Rightarrow> shared"
  msgs :: "nat \<Rightarrow> message"
  ports :: "nat \<Rightarrow> port"
  groups :: "nat \<Rightarrow> task_group"
  mo_rights :: "nat \<Rightarrow> nat list"
  k_rights :: "nat set"
  k_shared :: "nat set"
  k_msgs :: "nat set"
  k_ports :: "nat set"
  k_groups :: "nat set"
  rcu_rights :: "nat list"
  rcu_shared :: "nat list"
  rcu_ports :: "nat list"
  rcu_groups :: "nat list"
  right0_id :: nat
  port0_id :: nat

text \<open>
  What a system call leaves in the registers of its task: a value, an error with a second value, or
  nothing yet, since the call is repeated when a page of the user's buffer was not there or the task blocks.
\<close>

datatype outcome = Return nat | Fail errno int | Repeat

definition upd_right :: "nat \<Rightarrow> (right \<Rightarrow> right) \<Rightarrow> ipc \<Rightarrow> ipc" where
  "upd_right r f s = s\<lparr>rights := (rights s)(r := f (rights s r))\<rparr>"

definition upd_shared :: "nat \<Rightarrow> (shared \<Rightarrow> shared) \<Rightarrow> ipc \<Rightarrow> ipc" where
  "upd_shared h f s = s\<lparr>shareds := (shareds s)(h := f (shareds s h))\<rparr>"

definition upd_port :: "nat \<Rightarrow> (port \<Rightarrow> port) \<Rightarrow> ipc \<Rightarrow> ipc" where
  "upd_port p f s = s\<lparr>ports := (ports s)(p := f (ports s p))\<rparr>"

definition upd_group :: "nat \<Rightarrow> (task_group \<Rightarrow> task_group) \<Rightarrow> ipc \<Rightarrow> ipc" where
  "upd_group g f s = s\<lparr>groups := (groups s)(g := f (groups s g))\<rparr>"

definition upd_msg :: "nat \<Rightarrow> (message \<Rightarrow> message) \<Rightarrow> ipc \<Rightarrow> ipc" where
  "upd_msg m f s = s\<lparr>msgs := (msgs s)(m := f (msgs s m))\<rparr>"

definition insert_right :: "nat \<Rightarrow> nat \<Rightarrow> recieve_right \<Rightarrow> ipc \<Rightarrow> ipc" where
  "insert_right p i x s = upd_port p (\<lambda>q. q\<lparr>po_rights := (po_rights q)(i \<mapsto> x)\<rparr>) s"

definition erase_right :: "nat \<Rightarrow> nat \<Rightarrow> ipc \<Rightarrow> ipc" where
  "erase_right p i s = upd_port p (\<lambda>q. q\<lparr>po_rights := (po_rights q)(i := None)\<rparr>) s"

definition group_insert :: "nat \<Rightarrow> nat \<Rightarrow> nat \<Rightarrow> ipc \<Rightarrow> ipc" where
  "group_insert g i r s = upd_group g (\<lambda>q. q\<lparr>g_rights := (g_rights q)(i \<mapsto> r)\<rparr>) s"

definition group_erase :: "nat \<Rightarrow> nat \<Rightarrow> ipc \<Rightarrow> ipc" where
  "group_erase g i s = upd_group g (\<lambda>q. q\<lparr>g_rights := (g_rights q)(i := None)\<rparr>) s"

definition mo_insert :: "nat \<Rightarrow> nat \<Rightarrow> ipc \<Rightarrow> ipc" where
  "mo_insert ob r s = s\<lparr>mo_rights := (mo_rights s)(ob := mo_rights s ob @ [r])\<rparr>"

definition mo_remove :: "nat \<Rightarrow> nat \<Rightarrow> ipc \<Rightarrow> ipc" where
  "mo_remove ob r s = s\<lparr>mo_rights := (mo_rights s)(ob := remove1 r (mo_rights s ob))\<rparr>"

definition rcu_push :: "nat \<Rightarrow> ipc \<Rightarrow> ipc" where
  "rcu_push r s = s\<lparr>rcu_rights := r # rcu_rights s\<rparr>"

definition shared_rcu_push :: "nat \<Rightarrow> ipc \<Rightarrow> ipc" where
  "shared_rcu_push h s = s\<lparr>rcu_shared := h # rcu_shared s\<rparr>"

section \<open>Destruction of rights\<close>

definition lock_port :: "nat option \<Rightarrow> nat \<Rightarrow> ipc \<Rightarrow> unit option" where
  "lock_port held p s = kassert (held \<noteq> Some p \<and> p \<notin> set (rcu_ports s))"

definition enqueue :: "nat \<Rightarrow> generic_message \<Rightarrow> ipc \<Rightarrow> ipc" where
  "enqueue p x s = upd_port p (\<lambda>q. q\<lparr>msg_queue := msg_queue q @ [x]\<rparr>) s"

definition remove_from_parent :: "nat \<Rightarrow> ipc \<Rightarrow> ipc" where
  "remove_from_parent r s =
     (case r_type (rights s r) of
        MemObject \<Rightarrow> mo_remove (mem_object (rights s r)) r s
      | _ \<Rightarrow> erase_right (r_parent (rights s r)) (right_parent_id (rights s r)) s)"

datatype DestroyReason = DeletedBySender | DeletedByReceiver | SendingMessage

text \<open>The test all versions begin with: dead, or no longer a right of the group that is asked for.\<close>

definition not_matching :: "nat option \<Rightarrow> right \<Rightarrow> bool" where
  "not_matching match_group x \<longleftrightarrow>
     \<not> r_alive x \<or> (\<exists>g. match_group = Some g \<and> (of_message x \<or> parent_group x \<noteq> g))"

definition leave_group :: "nat \<Rightarrow> ipc \<Rightarrow> ipc" where
  "leave_group r s = (if of_message (rights s r) then s else group_erase (parent_group (rights s r)) (right_sender_id (rights s r)) s)"

definition right_destroy_nolock :: "nat \<Rightarrow> nat option \<Rightarrow> ipc \<Rightarrow> (bool \<times> ipc) option" where
  "right_destroy_nolock r match_group s =
     (if not_matching match_group (rights s r) then Some (False, s)
      else let s1 = upd_right r (\<lambda>x. x\<lparr>r_alive := False\<rparr>) s;
               s2 = remove_from_parent r s1;
               s3 = leave_group r s2 in
           Some (True, if of_message (rights s r) then s3 else rcu_push r s3))"

definition send_once_destroy_nolock :: "nat option \<Rightarrow> nat \<Rightarrow> DestroyReason \<Rightarrow> nat option \<Rightarrow> ipc \<Rightarrow> (bool \<times> ipc) option" where
  "send_once_destroy_nolock held r reason match_group s =
     (if not_matching match_group (rights s r) then Some (False, s)
      else let s1 = upd_right r (\<lambda>x. x\<lparr>r_alive := False\<rparr>) s;
               s2 = remove_from_parent r s1;
               send_notification = (reason = DeletedBySender);
               s3 = leave_group r s2;
               s4 = (if \<not> send_notification \<and> \<not> of_message (rights s r) then rcu_push r s3 else s3) in
           if send_notification
           then do { let p = r_parent (rights s r);
                     lock_port held p s4;
                     Some (True, upd_right r (\<lambda>x. x\<lparr>r_sent := True\<rparr>) (enqueue p (QRight r) s4)) }
           else Some (True, s4))"

text \<open>The right leaves the list of its shared receive right; the last one takes that out of its port.\<close>

definition leave_shared :: "nat option \<Rightarrow> nat \<Rightarrow> ipc \<Rightarrow> (bool \<times> ipc) option" where
  "leave_shared held r s =
     (let h = r_shared (rights s r) in
      do { kassert (send_many_rights (shareds s h) \<noteq> []);
           let s1 = upd_shared h (\<lambda>x. x\<lparr>send_many_rights := remove1 r (send_many_rights x)\<rparr>) s;
           if s_alive (shareds s1 h) \<and> send_many_rights (shareds s1 h) = []
           then do { let p = s_parent (shareds s h);
                     lock_port held p s1;
                     Some (True, erase_right p (s_parent_id (shareds s h)) (upd_shared h (\<lambda>x. x\<lparr>s_alive := False, s_queued := True\<rparr>) s1)) }
           else Some (False, s1) })"

definition send_many_destroy_nolock :: "nat option \<Rightarrow> nat \<Rightarrow> nat option \<Rightarrow> ipc \<Rightarrow> (bool \<times> ipc) option" where
  "send_many_destroy_nolock held r match_group s =
     (if not_matching match_group (rights s r) then Some (False, s)
      else do {
        let s1 = upd_right r (\<lambda>x. x\<lparr>r_alive := False\<rparr>) s;
        (send_shared, s2) \<leftarrow> leave_shared held r s1;
        let send_notification = notification_port (rights s r);
        let s3 = (if send_notification then remove_from_parent r s2 else s2);
        let s4 = leave_group r s3;
        let s5 = (if \<not> send_notification \<and> \<not> of_message (rights s r) then rcu_push r s4 else s4);
        s6 \<leftarrow> (if send_notification
               then do { let p = r_parent (rights s r);
                         lock_port held p s5;
                         Some (upd_right r (\<lambda>x. x\<lparr>r_sent := True\<rparr>) (enqueue p (QRight r) s5)) }
               else Some s5);
        if send_shared
        then do { let h = r_shared (rights s r);
                  let p = s_parent (shareds s h);
                  lock_port held p s6;
                  Some (True, enqueue p (QShared h) s6) }
        else Some (True, s6) })"

definition destroy_nolock :: "nat option \<Rightarrow> nat \<Rightarrow> DestroyReason \<Rightarrow> nat option \<Rightarrow> ipc \<Rightarrow> (bool \<times> ipc) option" where
  "destroy_nolock held r reason match_group s =
     (case r_type (rights s r) of
        SendOnce \<Rightarrow> send_once_destroy_nolock held r reason match_group s
      | SendMany \<Rightarrow> send_many_destroy_nolock held r match_group s
      | MemObject \<Rightarrow> right_destroy_nolock r match_group s)"

definition destroy :: "nat \<Rightarrow> DestroyReason \<Rightarrow> nat option \<Rightarrow> ipc \<Rightarrow> (bool \<times> ipc) option" where
  "destroy r reason match_group s = destroy_nolock None r reason match_group s"

definition destroy_deleting_message :: "nat option \<Rightarrow> nat \<Rightarrow> ipc \<Rightarrow> ipc option" where
  "destroy_deleting_message held r s =
     do { (_, s1) \<leftarrow> destroy_nolock held r DeletedByReceiver None s;
          kassert (of_message (rights s1 r));
          let s2 = upd_right r (\<lambda>x. x\<lparr>of_message := False\<rparr>) s1;
          Some (if \<not> r_sent (rights s2 r) then rcu_push r s2 else s2) }"

text \<open>The receive side: a right as its own receive right, or the shared one of \<open>SendMany\<close> rights.\<close>

definition shared_destroy_begin :: "nat \<Rightarrow> ipc \<Rightarrow> (bool \<times> ipc) option" where
  "shared_destroy_begin h s =
     (if \<not> s_alive (shareds s h) then Some (False, s)
      else Some (True, erase_right (s_parent (shareds s h)) (s_parent_id (shareds s h))
                         (upd_shared h (\<lambda>x. x\<lparr>s_alive := False, s_dying := True\<rparr>) s)))"

definition shared_destroy_step :: "nat \<Rightarrow> ipc \<Rightarrow> ipc option" where
  "shared_destroy_step h s =
     (case send_many_rights (shareds s h) of [] \<Rightarrow> Some s
      | r # _ \<Rightarrow> map_option snd (destroy r DeletedBySender None s))"

definition shared_destroy_end :: "nat \<Rightarrow> ipc \<Rightarrow> ipc" where
  "shared_destroy_end h s = shared_rcu_push h (upd_shared h (\<lambda>x. x\<lparr>s_dying := False\<rparr>) s)"

definition destroy_recieve_right :: "recieve_right \<Rightarrow> ipc \<Rightarrow> (bool \<times> ipc) option" where
  "destroy_recieve_right x s =
     (case x of RR r \<Rightarrow> destroy r DeletedByReceiver None s | RS h \<Rightarrow> shared_destroy_begin h s)"

section \<open>Creation and transfer of rights\<close>

definition new_right :: "RightType \<Rightarrow> nat \<Rightarrow> right" where
  "new_right t g = \<lparr>r_type = t, parent_group = g, parent_message = 0, right_sender_id = 0, r_alive = True,
     of_message = False, right_0 = False, r_sent = False, notification_port = False, r_parent = 0,
     right_parent_id = 0, r_shared = 0, mem_object = 0, permission_mask = 0\<rparr>"

definition new_shared :: "nat \<Rightarrow> nat \<Rightarrow> nat \<Rightarrow> shared" where
  "new_shared r p i = \<lparr>s_alive = True, s_parent = p, s_parent_id = i, send_many_rights = [r], s_dying = False, s_queued = False\<rparr>"

definition add_right :: "nat \<Rightarrow> right \<Rightarrow> ipc \<Rightarrow> ipc" where
  "add_right r x s = s\<lparr>rights := (rights s)(r := x), k_rights := insert r (k_rights s)\<rparr>"

definition add_shared :: "nat \<Rightarrow> shared \<Rightarrow> ipc \<Rightarrow> ipc" where
  "add_shared h x s = s\<lparr>shareds := (shareds s)(h := x), k_shared := insert h (k_shared s)\<rparr>"

definition next_right_id :: "nat \<Rightarrow> ipc \<Rightarrow> nat \<times> ipc" where
  "next_right_id g s =
     (let i = g_current_right_id (groups s g) + 1 in (i, upd_group g (\<lambda>q. q\<lparr>g_current_right_id := i\<rparr>) s))"

definition send_once_create_for_group :: "nat option \<Rightarrow> nat \<Rightarrow> nat \<Rightarrow> nat \<Rightarrow> ipc \<Rightarrow> (nat ReturnStr \<times> ipc) option" where
  "send_once_create_for_group alloc p g id_in_parent s =
     do { kassert (id_in_parent \<noteq> 0);
          (case alloc of None \<Rightarrow> Some (Error ENOMEM, s)
           | Some r \<Rightarrow>
               if \<not> po_alive (ports s p) then Some (Error ENOENT, s)
               else if \<not> g_alive (groups s g) then Some (Error ESRCH, s)
               else let (i, s1) = next_right_id g s;
                        x = (new_right SendOnce g)\<lparr>right_sender_id := i, r_parent := p, right_parent_id := id_in_parent\<rparr> in
                    Some (Success r, group_insert g i r (insert_right p id_in_parent (RR r) (add_right r x s1)))) }"

definition send_many_create_for_group ::
    "nat option \<Rightarrow> nat option \<Rightarrow> nat \<Rightarrow> nat \<Rightarrow> nat \<Rightarrow> ipc \<Rightarrow> (nat ReturnStr \<times> ipc) option" where
  "send_many_create_for_group alloc alloc_shared p g id_in_parent s =
     do { kassert (id_in_parent \<noteq> 0);
          (case (alloc, alloc_shared) of
             (Some r, Some h) \<Rightarrow>
               if \<not> po_alive (ports s p) then Some (Error ENOENT, s)
               else if \<not> g_alive (groups s g) then Some (Error ESRCH, s)
               else let (i, s1) = next_right_id g s;
                        x = (new_right SendMany g)\<lparr>right_sender_id := i, r_shared := h\<rparr> in
                    Some (Success r, group_insert g i r (insert_right p id_in_parent (RS h)
                            (add_shared h (new_shared r p id_in_parent) (add_right r x s1))))
           | _ \<Rightarrow> Some (Error ENOMEM, s)) }"

definition mem_object_create_for_group :: "nat option \<Rightarrow> nat \<Rightarrow> nat \<Rightarrow> nat \<Rightarrow> ipc \<Rightarrow> (nat ReturnStr \<times> ipc) option" where
  "mem_object_create_for_group alloc m_object g permissions s =
     (case alloc of None \<Rightarrow> Some (Error ENOMEM, s)
      | Some r \<Rightarrow>
          if \<not> g_alive (groups s g) then Some (Error ESRCH, s)
          else let (i, s1) = next_right_id g s;
                   x = (new_right MemObject g)\<lparr>right_sender_id := i, mem_object := m_object, permission_mask := permissions mod 32\<rparr> in
               Some (Success r, group_insert g i r (mo_insert m_object r (add_right r x s1))))"

definition new_port_right_id :: "nat \<Rightarrow> ipc \<Rightarrow> nat \<times> ipc" where
  "new_port_right_id p s =
     (let i = po_current_right_id (ports s p) + 1 in (i, upd_port p (\<lambda>q. q\<lparr>po_current_right_id := i\<rparr>) s))"

definition atomic_watch :: "nat \<Rightarrow> nat \<Rightarrow> ipc \<Rightarrow> nat ReturnStr \<times> ipc" where
  "atomic_watch r p s =
     (if \<not> r_alive (rights s r) then (Error ENOENT, s)
      else if notification_port (rights s r) then (Error EEXIST, s)
      else if \<not> po_alive (ports s p) then (Error ENOENT, s)
      else let (i, s1) = new_port_right_id p s in
           (Success i, insert_right p i (RR r)
              (upd_right r (\<lambda>x. x\<lparr>notification_port := True, right_parent_id := i, r_parent := p\<rparr>) s1)))"

definition atomic_transfer_to_group :: "nat \<Rightarrow> nat \<Rightarrow> nat \<Rightarrow> ipc \<Rightarrow> nat ReturnStr \<times> ipc" where
  "atomic_transfer_to_group r from to s =
     (if \<not> r_alive (rights s r) then (Error ENOENT, s)
      else if of_message (rights s r) \<or> parent_group (rights s r) \<noteq> from then (Error ENOENT, s)
      else if from = to then (Success (right_sender_id (rights s r)), s)
      else if \<not> g_alive (groups s to) then (Error ESRCH, s)
      else let (i, s1) = next_right_id to s in
           (Success i, group_insert to i r
              (upd_right r (\<lambda>x. x\<lparr>parent_group := to, right_sender_id := i\<rparr>)
                (group_erase from (right_sender_id (rights s r)) s1))))"

definition kernel_tasks :: nat where
  "kernel_tasks = 0"

definition atomic_get_right :: "nat \<Rightarrow> nat \<Rightarrow> ipc \<Rightarrow> nat option" where
  "atomic_get_right g i s = g_rights (groups s g) i"

definition set_right0 :: "nat \<Rightarrow> nat \<Rightarrow> ipc \<Rightarrow> kresult \<times> ipc" where
  "set_right0 r right_parent s =
     (if case atomic_get_right kernel_tasks (right0_id s) s of None \<Rightarrow> False | Some c \<Rightarrow> r_alive (rights s c)
      then (Error EEXIST, s)
      else case atomic_transfer_to_group r right_parent kernel_tasks s of
             (Inl e, s1) \<Rightarrow> (Error e, s1)
           | (Inr i, s1) \<Rightarrow> (kok, (upd_right r (\<lambda>x. x\<lparr>right_0 := True\<rparr>) s1)\<lparr>right0_id := i\<rparr>))"

definition mem_object_duplicate :: "nat option \<Rightarrow> nat \<Rightarrow> nat \<Rightarrow> ipc \<Rightarrow> (nat \<times> nat) ReturnStr \<times> ipc" where
  "mem_object_duplicate alloc r g s =
     (case alloc of None \<Rightarrow> (Error ENOMEM, s)
      | Some r' \<Rightarrow>
          let x = rights s r in
          if \<not> r_alive x \<or> of_message x \<or> parent_group x \<noteq> g then (Error ENOENT, s)
          else if \<not> g_alive (groups s g) then (Error ESRCH, s)
          else let (i, s1) = next_right_id g s;
                   y = (new_right MemObject g)\<lparr>right_sender_id := i, mem_object := mem_object x, permission_mask := permission_mask x\<rparr> in
               (Success (r', i), group_insert g i r' (mo_insert (mem_object x) r' (add_right r' y s1))))"

definition send_many_duplicate :: "nat option \<Rightarrow> nat \<Rightarrow> nat \<Rightarrow> ipc \<Rightarrow> (nat \<times> nat) ReturnStr \<times> ipc" where
  "send_many_duplicate alloc r g s =
     (case alloc of None \<Rightarrow> (Error ENOMEM, s)
      | Some r' \<Rightarrow>
          let x = rights s r; h = r_shared x in
          if \<not> r_alive x \<or> of_message x \<or> parent_group x \<noteq> g then (Error ENOENT, s)
          else if \<not> s_alive (shareds s h) then (Error ENOENT, s)
          else if \<not> po_alive (ports s (s_parent (shareds s h))) then (Error ENOENT, s)
          else if \<not> g_alive (groups s g) then (Error ESRCH, s)
          else let s0 = upd_shared h (\<lambda>z. z\<lparr>send_many_rights := send_many_rights z @ [r']\<rparr>) s;
                   (i, s1) = next_right_id g s0;
                   y = (new_right SendMany g)\<lparr>right_sender_id := i, r_shared := h\<rparr> in
               (Success (r', i), group_insert g i r' (add_right r' y s1)))"

text \<open>A right to send once cannot be duplicated.\<close>

definition duplicate :: "nat option \<Rightarrow> nat \<Rightarrow> nat \<Rightarrow> ipc \<Rightarrow> (nat \<times> nat) ReturnStr \<times> ipc" where
  "duplicate alloc r g s =
     (case r_type (rights s r) of
        SendOnce \<Rightarrow> (Error EPERM, s)
      | MemObject \<Rightarrow> mem_object_duplicate alloc r g s
      | SendMany \<Rightarrow> send_many_duplicate alloc r g s)"

section \<open>Sending\<close>

definition right_id_in_reciever :: "nat \<Rightarrow> ipc \<Rightarrow> nat" where
  "right_id_in_reciever r s =
     (case r_type (rights s r) of SendMany \<Rightarrow> s_parent_id (shareds s (r_shared (rights s r)))
      | _ \<Rightarrow> right_parent_id (rights s r))"

definition parent_port :: "nat \<Rightarrow> ipc \<Rightarrow> nat" where
  "parent_port r s =
     (case r_type (rights s r) of SendMany \<Rightarrow> s_parent (shareds s (r_shared (rights s r)))
      | _ \<Rightarrow> r_parent (rights s r))"

definition of_group :: "right \<Rightarrow> nat \<Rightarrow> bool" where
  "of_group x g \<longleftrightarrow> \<not> of_message x \<and> parent_group x = g"

text \<open>The rights that go with the message leave the group and become rights of the message \<open>m\<close>.\<close>

fun take_rights :: "nat \<Rightarrow> nat \<Rightarrow> nat option list \<Rightarrow> ipc \<Rightarrow> ipc option" where
  "take_rights g m [] s = Some s"
| "take_rights g m (None # xs) s = take_rights g m xs s"
| "take_rights g m (Some r # xs) s =
     do { kassert (\<not> of_message (rights s r));
          kassert (parent_group (rights s r) = g);
          take_rights g m xs (upd_right r (\<lambda>x. x\<lparr>of_message := True, parent_message := m\<rparr>) (group_erase g (right_sender_id (rights s r)) s)) }"

text \<open>The reply right, created with its receive right in the reply port.\<close>

definition add_reply :: "nat \<Rightarrow> nat \<Rightarrow> nat \<Rightarrow> nat \<Rightarrow> RightType \<Rightarrow> ipc \<Rightarrow> nat \<times> ipc" where
  "add_reply m r h p new_type s =
     (let (i, s1) = new_port_right_id p s;
          x = (new_right new_type 0)\<lparr>of_message := True, parent_message := m\<rparr> in
      if new_type = SendMany
      then (i, insert_right p i (RS h) (add_shared h (new_shared r p i) (add_right r (x\<lparr>r_shared := h\<rparr>) s1)))
      else (i, insert_right p i (RR r) (add_right r (x\<lparr>r_parent := p, right_parent_id := i\<rparr>) s1)))"

text \<open>The position, from 1, of the first right that is dead or is no right of the group.\<close>

fun first_bad :: "nat \<Rightarrow> ipc \<Rightarrow> nat \<Rightarrow> nat option list \<Rightarrow> nat option" where
  "first_bad g s i [] = None"
| "first_bad g s i (None # xs) = first_bad g s (i + 1) xs"
| "first_bad g s i (Some r # xs) =
     (if \<not> r_alive (rights s r) \<or> \<not> of_group (rights s r) g then Some (i + 1) else first_bad g s (i + 1) xs)"

text \<open>The rights of an array of slots.\<close>

fun somes :: "'a option list \<Rightarrow> 'a list" where
  "somes [] = []"
| "somes (None # xs) = somes xs"
| "somes (Some x # xs) = x # somes xs"

type_synonym send_result = "(errno \<times> nat) + (nat option \<times> nat)"

definition send_message_right ::
    "nat option \<Rightarrow> nat option \<Rightarrow> nat option \<Rightarrow> nat \<Rightarrow> nat \<Rightarrow> nat option \<Rightarrow> nat option list \<Rightarrow> u8 list \<Rightarrow> nat \<Rightarrow>
     RightType \<Rightarrow> bool \<Rightarrow> ipc \<Rightarrow> (send_result \<times> ipc) option" where
  "send_message_right alloc_msg alloc_reply alloc_shared right verify_group reply_port array data sender_id new_type always_destroy s =
     (if r_type (rights s right) = MemObject then Some (Inl (EPERM, 0), s)
      else let send_to = parent_port right s in
      case alloc_msg of None \<Rightarrow> Some (Inl (ENOMEM, 0), s)
      | Some m \<Rightarrow>
        do { kassert (reply_port \<noteq> None \<longrightarrow> new_type = SendOnce \<or> new_type = SendMany);
             if reply_port \<noteq> None \<and> (alloc_reply = None \<or> new_type = SendMany \<and> alloc_shared = None)
             then Some (Inl (ENOMEM, 0), s)
             else do {
               kassert (right_id_in_reciever right s \<noteq> 0);
               if \<not> distinct (right # somes array) then Some (Inl (EINVAL, 0), s)
               else if \<not> r_alive (rights s right) \<or> \<not> (of_group (rights s right) verify_group \<or> right_0 (rights s right))
               then Some (Inl (ENOENT, 0), s)
               else case first_bad verify_group s 0 array of Some i \<Rightarrow> Some (Inl (ENOENT, i), s)
               | None \<Rightarrow>
                 if right_0 (rights s right) \<and> always_destroy then Some (Inl (EINVAL, 0), s)
                 else do {
                   s1 \<leftarrow> take_rights verify_group m array s;
                   (right_parent_id, s2) \<leftarrow>
                     (case reply_port of None \<Rightarrow> Some (0, s1)
                      | Some p \<Rightarrow> do { kassert (po_alive (ports s1 p));
                                      Some (add_reply m (the alloc_reply) (the alloc_shared) p new_type s1) });
                   let reply = (if reply_port = None then None else alloc_reply);
                   let msg = \<lparr>task_id_from = sender_id, m_sent_with_right = right_id_in_reciever right s, m_content = data,
                              m_reply_right = reply, m_rights = array, m_port = send_to\<rparr>;
                   lock_port None send_to s2;
                   let s3 = enqueue send_to (QMessage m) (s2\<lparr>msgs := (msgs s2)(m := msg), k_msgs := insert m (k_msgs s2)\<rparr>);
                   s4 \<leftarrow> (if r_type (rights s right) = SendOnce \<or> always_destroy
                          then map_option snd (destroy_nolock None right SendingMessage None s3)
                          else Some s3);
                   Some (Inr (reply, right_parent_id), s4) } } })"

section \<open>Receiving\<close>

fun delete_rights :: "nat option \<Rightarrow> nat option list \<Rightarrow> ipc \<Rightarrow> ipc option" where
  "delete_rights held [] s = Some s"
| "delete_rights held (None # xs) s = delete_rights held xs s"
| "delete_rights held (Some r # xs) s = do { s1 \<leftarrow> destroy_deleting_message held r s; delete_rights held xs s1 }"

text \<open>\<open>delete_self\<close> of the three kinds of messages.\<close>

definition message_delete_self :: "nat option \<Rightarrow> nat \<Rightarrow> ipc \<Rightarrow> ipc option" where
  "message_delete_self held m s =
     do { s1 \<leftarrow> delete_rights held (m_reply_right (msgs s m) # m_rights (msgs s m)) s;
          Some (s1\<lparr>k_msgs := k_msgs s1 - {m}\<rparr>) }"

definition right_delete_self :: "nat \<Rightarrow> ipc \<Rightarrow> ipc option" where
  "right_delete_self r s =
     do { kassert (\<not> r_alive (rights s r));
          kassert (r_sent (rights s r));
          let s1 = upd_right r (\<lambda>x. x\<lparr>r_sent := False\<rparr>) s;
          Some (if of_message (rights s r) then s1 else rcu_push r s1) }"

definition shared_delete_self :: "nat \<Rightarrow> ipc \<Rightarrow> ipc option" where
  "shared_delete_self h s =
     do { kassert (\<not> s_alive (shareds s h));
          kassert (send_many_rights (shareds s h) = []);
          Some (shared_rcu_push h (upd_shared h (\<lambda>x. x\<lparr>s_queued := False\<rparr>) s)) }"

definition delete_self :: "nat option \<Rightarrow> generic_message \<Rightarrow> ipc \<Rightarrow> ipc option" where
  "delete_self held x s =
     (case x of QMessage m \<Rightarrow> message_delete_self held m s
      | QRight r \<Rightarrow> right_delete_self r s
      | QShared h \<Rightarrow> shared_delete_self h s)"

definition remove_front :: "nat option \<Rightarrow> nat \<Rightarrow> ipc \<Rightarrow> ipc option" where
  "remove_front held p s =
     (case msg_queue (ports s p) of [] \<Rightarrow> None
      | x # xs \<Rightarrow> delete_self held x (upd_port p (\<lambda>q. q\<lparr>msg_queue := xs\<rparr>) s))"

definition pop_front :: "nat \<Rightarrow> ipc \<Rightarrow> ipc option" where
  "pop_front p s = remove_front (Some p) p s"

definition get_reply_right :: "generic_message \<Rightarrow> ipc \<Rightarrow> nat option" where
  "get_reply_right x s = (case x of QMessage m \<Rightarrow> m_reply_right (msgs s m) | _ \<Rightarrow> None)"

definition accept_reply :: "nat \<Rightarrow> nat \<Rightarrow> nat \<Rightarrow> ipc \<Rightarrow> nat ReturnStr \<times> ipc" where
  "accept_reply m r g s =
     (let (i, s1) = next_right_id g s in
      if r_alive (rights s r)
      then if \<not> g_alive (groups s g) then (Error ESRCH, s1)
           else (Success i, upd_msg m (\<lambda>x. x\<lparr>m_reply_right := None\<rparr>)
                   (upd_right r (\<lambda>x. x\<lparr>right_sender_id := i, of_message := False, parent_group := g\<rparr>) (group_insert g i r s1)))
      else (Success i, s1))"

definition get_first_message ::
    "nat \<Rightarrow> nat \<Rightarrow> nat option \<Rightarrow> bool ReturnStr \<Rightarrow> bool \<Rightarrow> bool \<Rightarrow> ipc \<Rightarrow> (outcome \<times> ipc) option" where
  "get_first_message current p rights_namespace copied nopop reject s =
     (if current \<noteq> po_owner (ports s p) then Some (Fail EPERM 0, s)
      else case msg_queue (ports s p) of [] \<Rightarrow> Some (Fail EAGAIN 0, s)
      | x # _ \<Rightarrow>
        (case copied of Inl e \<Rightarrow> Some (Fail e 0, s)
         | Inr False \<Rightarrow> Some (Repeat, s)
         | Inr True \<Rightarrow>
             if nopop then Some (Return 0, s)
             else (case (x, get_reply_right x s) of
                     (QMessage m, Some r) \<Rightarrow>
                       if reject then map_option (Pair (Return 0)) (pop_front p s)
                       else (case rights_namespace of None \<Rightarrow> Some (Fail ESRCH 0, s)
                             | Some g \<Rightarrow>
                                 (case accept_reply m r g s of
                                    (Inl e, s1) \<Rightarrow> Some (Fail e 0, s1)
                                  | (Inr i, s1) \<Rightarrow> map_option (Pair (Return i)) (pop_front p s1)))
                   | _ \<Rightarrow> map_option (Pair (Return 0)) (pop_front p s))))"

definition transfer_slot :: "nat \<Rightarrow> nat \<Rightarrow> nat \<Rightarrow> nat \<Rightarrow> ipc \<Rightarrow> ipc option" where
  "transfer_slot g m n i s =
     (case m_rights (msgs s m) ! n of None \<Rightarrow> Some s
      | Some r \<Rightarrow>
          do { let s1 = upd_msg m (\<lambda>x. x\<lparr>m_rights := (m_rights x)[n := None]\<rparr>) s;
               kassert (i \<noteq> 0);
               kassert (of_message (rights s r));
               Some (if r_alive (rights s r)
                     then group_insert g i r
                            (upd_right r (\<lambda>x. x\<lparr>right_sender_id := i, parent_group := g, of_message := False\<rparr>) s1)
                     else if r_sent (rights s r) then upd_right r (\<lambda>x. x\<lparr>of_message := False\<rparr>) s1
                     else rcu_push r s1) })"

fun transfer_loop :: "nat \<Rightarrow> nat \<Rightarrow> nat \<Rightarrow> nat list \<Rightarrow> ipc \<Rightarrow> ipc option" where
  "transfer_loop g m n [] s = Some s"
| "transfer_loop g m n (i # ids) s = do { s1 \<leftarrow> transfer_slot g m n i s; transfer_loop g m (n + 1) ids s1 }"

definition transfer_rights :: "nat \<Rightarrow> generic_message \<Rightarrow> nat list \<Rightarrow> ipc \<Rightarrow> (kresult \<times> ipc) option" where
  "transfer_rights g x right_ids s =
     (if \<not> g_alive (groups s g) then Some (Error ESRCH, s)
      else (case x of QMessage m \<Rightarrow> map_option (Pair kok) (transfer_loop g m 0 right_ids s) | _ \<Rightarrow> Some (kok, s)))"

text \<open>The identifiers the rights of a message get in the group that accepts them.\<close>

fun new_right_ids :: "nat \<Rightarrow> nat option list \<Rightarrow> ipc \<Rightarrow> nat list \<times> ipc" where
  "new_right_ids g [] s = ([], s)"
| "new_right_ids g (None # xs) s = (let (ids, s1) = new_right_ids g xs s in (0 # ids, s1))"
| "new_right_ids g (Some r # xs) s =
     (let (i, s1) = next_right_id g s; (ids, s2) = new_right_ids g xs s1 in (i # ids, s2))"

definition get_rights :: "generic_message \<Rightarrow> ipc \<Rightarrow> nat option list" where
  "get_rights x s = (case x of QMessage m \<Rightarrow> m_rights (msgs s m) | _ \<Rightarrow> replicate 4 None)"

section \<open>Messages without rights\<close>

text \<open>\<open>resized\<close> is whether there was memory for the contents, \<open>alloc\<close> what there was for the message.\<close>

definition post :: "nat \<Rightarrow> nat \<Rightarrow> nat \<Rightarrow> u8 list \<Rightarrow> ipc \<Rightarrow> ipc" where
  "post m task p data s =
     enqueue p (QMessage m) (s\<lparr>msgs := (msgs s)(m := \<lparr>task_id_from = task, m_sent_with_right = 0, m_content = data,
       m_reply_right = None, m_rights = replicate 4 None, m_port = p\<rparr>), k_msgs := insert m (k_msgs s)\<rparr>)"

definition send_from_system :: "nat option \<Rightarrow> nat \<Rightarrow> u8 list \<Rightarrow> ipc \<Rightarrow> kresult \<times> ipc" where
  "send_from_system alloc p data s =
     (case alloc of None \<Rightarrow> (Error ENOMEM, s) | Some m \<Rightarrow> (kok, post m 0 p data s))"

definition atomic_send_from_system :: "bool \<Rightarrow> nat option \<Rightarrow> nat \<Rightarrow> u8 list \<Rightarrow> ipc \<Rightarrow> (kresult \<times> ipc) option" where
  "atomic_send_from_system resized alloc p data s =
     do { lock_port None p s;
          kassert (data \<noteq> []);
          Some (if \<not> resized then (Error ENOMEM, s) else send_from_system alloc p data s) }"

definition atomic_send_from_user ::
    "bool \<Rightarrow> u8 list option ReturnStr \<Rightarrow> nat option \<Rightarrow> nat \<Rightarrow> nat \<Rightarrow> ipc \<Rightarrow> (bool ReturnStr \<times> ipc) option" where
  "atomic_send_from_user resized copied alloc task p s =
     (if \<not> resized then Some (Error ENOMEM, s)
      else case copied of Inl e \<Rightarrow> Some (Error e, s)
      | Inr None \<Rightarrow> Some (Success False, s)
      | Inr (Some data) \<Rightarrow>
        (case alloc of None \<Rightarrow> Some (Error ENOMEM, s)
         | Some m \<Rightarrow> do { lock_port None p s; Some (Success True, post m task p data s) }))"

section \<open>Ports and groups\<close>

text \<open>The port is used without a test that it was allocated.\<close>

definition atomic_create_port :: "nat option \<Rightarrow> nat \<Rightarrow> bool \<Rightarrow> ipc \<Rightarrow> (nat option \<times> ipc) option" where
  "atomic_create_port alloc task dying s =
     (case alloc of None \<Rightarrow> None
      | Some p \<Rightarrow>
          if dying then Some (None, s)
          else Some (Some p, s\<lparr>ports := (ports s)(p := \<lparr>po_alive = True, po_owner = task, msg_queue = [],
                                  po_rights = Map.empty, po_current_right_id = 0\<rparr>),
                               k_ports := insert p (k_ports s)\<rparr>))"

definition port_delete_begin :: "nat \<Rightarrow> ipc \<Rightarrow> bool \<times> ipc" where
  "port_delete_begin p s =
     (if \<not> po_alive (ports s p) then (False, s) else (True, upd_port p (\<lambda>q. q\<lparr>po_alive := False\<rparr>) s))"

definition port_delete_right :: "nat \<Rightarrow> nat \<Rightarrow> ipc \<Rightarrow> ipc option" where
  "port_delete_right p i s =
     (case po_rights (ports s p) i of None \<Rightarrow> Some s | Some x \<Rightarrow> map_option snd (destroy_recieve_right x s))"

definition port_delete_end :: "nat \<Rightarrow> ipc \<Rightarrow> ipc" where
  "port_delete_end p s = s\<lparr>rcu_ports := p # rcu_ports s\<rparr>"

text \<open>The group of a new task, or of a task that is dying already, when the group is destroyed at once.\<close>

definition create_for_task :: "nat option \<Rightarrow> nat \<Rightarrow> bool \<Rightarrow> ipc \<Rightarrow> nat option ReturnStr \<times> ipc" where
  "create_for_task alloc task dying s =
     (case alloc of None \<Rightarrow> (Error ENOMEM, s)
      | Some g \<Rightarrow>
          let s1 = s\<lparr>groups := (groups s)(g := \<lparr>g_tasks = (if dying then {} else {task}), g_rights = Map.empty, g_current_right_id = 0\<rparr>),
                     k_groups := insert g (k_groups s)\<rparr> in
          if dying then (Success None, s1\<lparr>rcu_groups := g # rcu_groups s1\<rparr>) else (Success (Some g), s1))"

definition atomic_register_task :: "nat \<Rightarrow> bool \<Rightarrow> nat \<Rightarrow> ipc \<Rightarrow> kresult \<times> ipc" where
  "atomic_register_task task dying g s =
     (if dying then (Error ENOENT, s)
      else if task \<in> g_tasks (groups s g) then (Error EEXIST, s)
      else if \<not> g_alive (groups s g) then (Error ESRCH, s)
      else (kok, upd_group g (\<lambda>q. q\<lparr>g_tasks := insert task (g_tasks q)\<rparr>) s))"

definition atomic_remove_task :: "nat \<Rightarrow> nat \<Rightarrow> ipc \<Rightarrow> kresult \<times> ipc" where
  "atomic_remove_task task g s =
     (if task \<notin> g_tasks (groups s g) then (Error ENOENT, s)
      else (kok, upd_group g (\<lambda>q. q\<lparr>g_tasks := g_tasks q - {task}\<rparr>) s))"

definition group_destroy_right :: "nat \<Rightarrow> nat \<Rightarrow> ipc \<Rightarrow> ipc option" where
  "group_destroy_right g r s = map_option snd (destroy r DeletedBySender (Some g) s)"

definition group_destroy_end :: "nat \<Rightarrow> ipc \<Rightarrow> ipc" where
  "group_destroy_end g s = s\<lparr>rcu_groups := g # rcu_groups s\<rparr>"

end
