(* ===== verification/Ipc_Inv.thy ===== *)
theory Ipc_Inv
  imports Ipc
begin

text \<open>
  The invariant of rights, ports and messages. Every container (the tree of a group, the tree of a
  port, a queue, the list of a shared receive right, the slots of a message, the list of a memory
  object) is characterised by the fields of the objects: an object is in a container exactly if its
  \<open>key\<close> names that container. An operation changes the key of one or two objects and the
  containers in step.
\<close>

section \<open>Containers and keys\<close>

definition kindex :: "('c \<Rightarrow> 'i \<rightharpoonup> 'x) \<Rightarrow> ('x \<Rightarrow> ('c \<times> 'i) option) \<Rightarrow> bool" where
  "kindex m key \<longleftrightarrow> (\<forall>c i x. m c i = Some x \<longleftrightarrow> key x = Some (c, i))"

definition lindex :: "('c \<Rightarrow> 'x list) \<Rightarrow> ('x \<Rightarrow> 'c option) \<Rightarrow> bool" where
  "lindex l key \<longleftrightarrow> (\<forall>c. distinct (l c) \<and> (\<forall>x. x \<in> set (l c) \<longleftrightarrow> key x = Some c))"

lemma kindexD: "kindex m key \<Longrightarrow> m c i = Some x \<longleftrightarrow> key x = Some (c, i)"
  by (simp add: kindex_def)

lemma lindexD: "lindex l key \<Longrightarrow> x \<in> set (l c) \<longleftrightarrow> key x = Some c"
  by (simp add: lindex_def)

lemma lindex_distinct: "lindex l key \<Longrightarrow> distinct (l c)"
  by (simp add: lindex_def)

lemma kindex_insert:
  assumes "kindex m key" "key x = None" "\<And>y. key y \<noteq> Some (c, i)"
  shows "kindex (m(c := (m c)(i \<mapsto> x))) (key(x := Some (c, i)))"
  using assms by (auto simp: kindex_def)

lemma kindex_erase:
  assumes "kindex m key" "key x = Some (c, i)"
  shows "kindex (m(c := (m c)(i := None))) (key(x := None))"
  using assms by (auto simp: kindex_def) (metis option.inject)+

lemma lindex_append:
  assumes "lindex l key" "key x = None"
  shows "lindex (l(c := l c @ [x])) (key(x := Some c))"
  using assms by (auto simp: lindex_def)

lemma lindex_remove:
  assumes "lindex l key" "key x = Some c"
  shows "lindex (l(c := remove1 x (l c))) (key(x := None))"
  using assms by (auto simp: lindex_def)

lemma lindex_tl:
  assumes "lindex l key" "l c = x # xs"
  shows "lindex (l(c := xs)) (key(x := None))"
proof -
  have "key x = Some c"
    using assms by (metis lindexD list.set_intros(1))
  then show ?thesis
    using lindex_remove[OF assms(1), of x c] assms(2) by simp
qed

section \<open>The views of the state\<close>

definition gv :: "ipc \<Rightarrow> nat \<Rightarrow> nat \<rightharpoonup> nat" where "gv s g = g_rights (groups s g)"
definition pv :: "ipc \<Rightarrow> nat \<Rightarrow> nat \<rightharpoonup> recieve_right" where "pv s p = po_rights (ports s p)"
definition qv :: "ipc \<Rightarrow> nat \<Rightarrow> generic_message list" where "qv s p = msg_queue (ports s p)"
definition sv :: "ipc \<Rightarrow> nat \<Rightarrow> nat list" where "sv s h = send_many_rights (shareds s h)"

lemma upd_right_frame [simp]:
  "shareds (upd_right r f s) = shareds s"
  "msgs (upd_right r f s) = msgs s"
  "groups (upd_right r f s) = groups s"
  "ports (upd_right r f s) = ports s"
  "mo_rights (upd_right r f s) = mo_rights s"
  "k_rights (upd_right r f s) = k_rights s"
  "k_shared (upd_right r f s) = k_shared s"
  "k_msgs (upd_right r f s) = k_msgs s"
  "k_ports (upd_right r f s) = k_ports s"
  "k_groups (upd_right r f s) = k_groups s"
  "rcu_rights (upd_right r f s) = rcu_rights s"
  "rcu_shared (upd_right r f s) = rcu_shared s"
  "rcu_ports (upd_right r f s) = rcu_ports s"
  "rcu_groups (upd_right r f s) = rcu_groups s"
  "right0_id (upd_right r f s) = right0_id s"
  "gv (upd_right r f s) = gv s"
  "pv (upd_right r f s) = pv s"
  "qv (upd_right r f s) = qv s"
  "sv (upd_right r f s) = sv s"
  "rights (upd_right r f s) = (rights s)(r := f (rights s r))"
  by (auto simp: upd_right_def upd_right_def upd_shared_def upd_port_def upd_group_def upd_msg_def gv_def pv_def qv_def sv_def fun_eq_iff)

lemma upd_shared_frame [simp]:
  "rights (upd_shared h f s) = rights s"
  "msgs (upd_shared h f s) = msgs s"
  "groups (upd_shared h f s) = groups s"
  "ports (upd_shared h f s) = ports s"
  "mo_rights (upd_shared h f s) = mo_rights s"
  "k_rights (upd_shared h f s) = k_rights s"
  "k_shared (upd_shared h f s) = k_shared s"
  "k_msgs (upd_shared h f s) = k_msgs s"
  "k_ports (upd_shared h f s) = k_ports s"
  "k_groups (upd_shared h f s) = k_groups s"
  "rcu_rights (upd_shared h f s) = rcu_rights s"
  "rcu_shared (upd_shared h f s) = rcu_shared s"
  "rcu_ports (upd_shared h f s) = rcu_ports s"
  "rcu_groups (upd_shared h f s) = rcu_groups s"
  "right0_id (upd_shared h f s) = right0_id s"
  "gv (upd_shared h f s) = gv s"
  "pv (upd_shared h f s) = pv s"
  "qv (upd_shared h f s) = qv s"
  "shareds (upd_shared h f s) = (shareds s)(h := f (shareds s h))"
  by (auto simp: upd_shared_def upd_right_def upd_shared_def upd_port_def upd_group_def upd_msg_def gv_def pv_def qv_def sv_def fun_eq_iff)

lemma upd_port_frame [simp]:
  "rights (upd_port p f s) = rights s"
  "shareds (upd_port p f s) = shareds s"
  "msgs (upd_port p f s) = msgs s"
  "groups (upd_port p f s) = groups s"
  "mo_rights (upd_port p f s) = mo_rights s"
  "k_rights (upd_port p f s) = k_rights s"
  "k_shared (upd_port p f s) = k_shared s"
  "k_msgs (upd_port p f s) = k_msgs s"
  "k_ports (upd_port p f s) = k_ports s"
  "k_groups (upd_port p f s) = k_groups s"
  "rcu_rights (upd_port p f s) = rcu_rights s"
  "rcu_shared (upd_port p f s) = rcu_shared s"
  "rcu_ports (upd_port p f s) = rcu_ports s"
  "rcu_groups (upd_port p f s) = rcu_groups s"
  "right0_id (upd_port p f s) = right0_id s"
  "gv (upd_port p f s) = gv s"
  "sv (upd_port p f s) = sv s"
  "ports (upd_port p f s) = (ports s)(p := f (ports s p))"
  by (auto simp: upd_port_def upd_right_def upd_shared_def upd_port_def upd_group_def upd_msg_def gv_def pv_def qv_def sv_def fun_eq_iff)

lemma upd_group_frame [simp]:
  "rights (upd_group g f s) = rights s"
  "shareds (upd_group g f s) = shareds s"
  "msgs (upd_group g f s) = msgs s"
  "ports (upd_group g f s) = ports s"
  "mo_rights (upd_group g f s) = mo_rights s"
  "k_rights (upd_group g f s) = k_rights s"
  "k_shared (upd_group g f s) = k_shared s"
  "k_msgs (upd_group g f s) = k_msgs s"
  "k_ports (upd_group g f s) = k_ports s"
  "k_groups (upd_group g f s) = k_groups s"
  "rcu_rights (upd_group g f s) = rcu_rights s"
  "rcu_shared (upd_group g f s) = rcu_shared s"
  "rcu_ports (upd_group g f s) = rcu_ports s"
  "rcu_groups (upd_group g f s) = rcu_groups s"
  "right0_id (upd_group g f s) = right0_id s"
  "pv (upd_group g f s) = pv s"
  "qv (upd_group g f s) = qv s"
  "sv (upd_group g f s) = sv s"
  "groups (upd_group g f s) = (groups s)(g := f (groups s g))"
  by (auto simp: upd_group_def upd_right_def upd_shared_def upd_port_def upd_group_def upd_msg_def gv_def pv_def qv_def sv_def fun_eq_iff)

lemma upd_msg_frame [simp]:
  "rights (upd_msg m f s) = rights s"
  "shareds (upd_msg m f s) = shareds s"
  "groups (upd_msg m f s) = groups s"
  "ports (upd_msg m f s) = ports s"
  "mo_rights (upd_msg m f s) = mo_rights s"
  "k_rights (upd_msg m f s) = k_rights s"
  "k_shared (upd_msg m f s) = k_shared s"
  "k_msgs (upd_msg m f s) = k_msgs s"
  "k_ports (upd_msg m f s) = k_ports s"
  "k_groups (upd_msg m f s) = k_groups s"
  "rcu_rights (upd_msg m f s) = rcu_rights s"
  "rcu_shared (upd_msg m f s) = rcu_shared s"
  "rcu_ports (upd_msg m f s) = rcu_ports s"
  "rcu_groups (upd_msg m f s) = rcu_groups s"
  "right0_id (upd_msg m f s) = right0_id s"
  "gv (upd_msg m f s) = gv s"
  "pv (upd_msg m f s) = pv s"
  "qv (upd_msg m f s) = qv s"
  "sv (upd_msg m f s) = sv s"
  "msgs (upd_msg m f s) = (msgs s)(m := f (msgs s m))"
  by (auto simp: upd_msg_def upd_right_def upd_shared_def upd_port_def upd_group_def upd_msg_def gv_def pv_def qv_def sv_def fun_eq_iff)

lemma insert_right_frame [simp]:
  "rights (insert_right p i x s) = rights s"
  "shareds (insert_right p i x s) = shareds s"
  "msgs (insert_right p i x s) = msgs s"
  "groups (insert_right p i x s) = groups s"
  "mo_rights (insert_right p i x s) = mo_rights s"
  "k_rights (insert_right p i x s) = k_rights s"
  "k_shared (insert_right p i x s) = k_shared s"
  "k_msgs (insert_right p i x s) = k_msgs s"
  "k_ports (insert_right p i x s) = k_ports s"
  "k_groups (insert_right p i x s) = k_groups s"
  "rcu_rights (insert_right p i x s) = rcu_rights s"
  "rcu_shared (insert_right p i x s) = rcu_shared s"
  "rcu_ports (insert_right p i x s) = rcu_ports s"
  "rcu_groups (insert_right p i x s) = rcu_groups s"
  "right0_id (insert_right p i x s) = right0_id s"
  "gv (insert_right p i x s) = gv s"
  "sv (insert_right p i x s) = sv s"
  "qv (insert_right p i x s) = qv s"
  "po_alive (ports (insert_right p i x s) q) = po_alive (ports s q)"
  "po_owner (ports (insert_right p i x s) q) = po_owner (ports s q)"
  "msg_queue (ports (insert_right p i x s) q) = msg_queue (ports s q)"
  "po_current_right_id (ports (insert_right p i x s) q) = po_current_right_id (ports s q)"
  by (auto simp: insert_right_def upd_right_def upd_shared_def upd_port_def upd_group_def upd_msg_def gv_def pv_def qv_def sv_def fun_eq_iff)

lemma erase_right_frame [simp]:
  "rights (erase_right p i s) = rights s"
  "shareds (erase_right p i s) = shareds s"
  "msgs (erase_right p i s) = msgs s"
  "groups (erase_right p i s) = groups s"
  "mo_rights (erase_right p i s) = mo_rights s"
  "k_rights (erase_right p i s) = k_rights s"
  "k_shared (erase_right p i s) = k_shared s"
  "k_msgs (erase_right p i s) = k_msgs s"
  "k_ports (erase_right p i s) = k_ports s"
  "k_groups (erase_right p i s) = k_groups s"
  "rcu_rights (erase_right p i s) = rcu_rights s"
  "rcu_shared (erase_right p i s) = rcu_shared s"
  "rcu_ports (erase_right p i s) = rcu_ports s"
  "rcu_groups (erase_right p i s) = rcu_groups s"
  "right0_id (erase_right p i s) = right0_id s"
  "gv (erase_right p i s) = gv s"
  "sv (erase_right p i s) = sv s"
  "qv (erase_right p i s) = qv s"
  "po_alive (ports (erase_right p i s) q) = po_alive (ports s q)"
  "po_owner (ports (erase_right p i s) q) = po_owner (ports s q)"
  "msg_queue (ports (erase_right p i s) q) = msg_queue (ports s q)"
  "po_current_right_id (ports (erase_right p i s) q) = po_current_right_id (ports s q)"
  by (auto simp: erase_right_def upd_right_def upd_shared_def upd_port_def upd_group_def upd_msg_def gv_def pv_def qv_def sv_def fun_eq_iff)

lemma group_insert_frame [simp]:
  "rights (group_insert g i r s) = rights s"
  "shareds (group_insert g i r s) = shareds s"
  "msgs (group_insert g i r s) = msgs s"
  "ports (group_insert g i r s) = ports s"
  "mo_rights (group_insert g i r s) = mo_rights s"
  "k_rights (group_insert g i r s) = k_rights s"
  "k_shared (group_insert g i r s) = k_shared s"
  "k_msgs (group_insert g i r s) = k_msgs s"
  "k_ports (group_insert g i r s) = k_ports s"
  "k_groups (group_insert g i r s) = k_groups s"
  "rcu_rights (group_insert g i r s) = rcu_rights s"
  "rcu_shared (group_insert g i r s) = rcu_shared s"
  "rcu_ports (group_insert g i r s) = rcu_ports s"
  "rcu_groups (group_insert g i r s) = rcu_groups s"
  "right0_id (group_insert g i r s) = right0_id s"
  "pv (group_insert g i r s) = pv s"
  "qv (group_insert g i r s) = qv s"
  "sv (group_insert g i r s) = sv s"
  "g_alive (groups (group_insert g i r s) q) = g_alive (groups s q)"
  "g_current_right_id (groups (group_insert g i r s) q) = g_current_right_id (groups s q)"
  by (auto simp: group_insert_def upd_right_def upd_shared_def upd_port_def upd_group_def upd_msg_def gv_def pv_def qv_def sv_def fun_eq_iff)

lemma group_erase_frame [simp]:
  "rights (group_erase g i s) = rights s"
  "shareds (group_erase g i s) = shareds s"
  "msgs (group_erase g i s) = msgs s"
  "ports (group_erase g i s) = ports s"
  "mo_rights (group_erase g i s) = mo_rights s"
  "k_rights (group_erase g i s) = k_rights s"
  "k_shared (group_erase g i s) = k_shared s"
  "k_msgs (group_erase g i s) = k_msgs s"
  "k_ports (group_erase g i s) = k_ports s"
  "k_groups (group_erase g i s) = k_groups s"
  "rcu_rights (group_erase g i s) = rcu_rights s"
  "rcu_shared (group_erase g i s) = rcu_shared s"
  "rcu_ports (group_erase g i s) = rcu_ports s"
  "rcu_groups (group_erase g i s) = rcu_groups s"
  "right0_id (group_erase g i s) = right0_id s"
  "pv (group_erase g i s) = pv s"
  "qv (group_erase g i s) = qv s"
  "sv (group_erase g i s) = sv s"
  "g_alive (groups (group_erase g i s) q) = g_alive (groups s q)"
  "g_current_right_id (groups (group_erase g i s) q) = g_current_right_id (groups s q)"
  by (auto simp: group_erase_def upd_right_def upd_shared_def upd_port_def upd_group_def upd_msg_def gv_def pv_def qv_def sv_def fun_eq_iff)

lemma mo_insert_frame [simp]:
  "rights (mo_insert b r s) = rights s"
  "shareds (mo_insert b r s) = shareds s"
  "msgs (mo_insert b r s) = msgs s"
  "groups (mo_insert b r s) = groups s"
  "ports (mo_insert b r s) = ports s"
  "k_rights (mo_insert b r s) = k_rights s"
  "k_shared (mo_insert b r s) = k_shared s"
  "k_msgs (mo_insert b r s) = k_msgs s"
  "k_ports (mo_insert b r s) = k_ports s"
  "k_groups (mo_insert b r s) = k_groups s"
  "rcu_rights (mo_insert b r s) = rcu_rights s"
  "rcu_shared (mo_insert b r s) = rcu_shared s"
  "rcu_ports (mo_insert b r s) = rcu_ports s"
  "rcu_groups (mo_insert b r s) = rcu_groups s"
  "right0_id (mo_insert b r s) = right0_id s"
  "gv (mo_insert b r s) = gv s"
  "pv (mo_insert b r s) = pv s"
  "qv (mo_insert b r s) = qv s"
  "sv (mo_insert b r s) = sv s"
  by (auto simp: mo_insert_def upd_right_def upd_shared_def upd_port_def upd_group_def upd_msg_def gv_def pv_def qv_def sv_def fun_eq_iff)

lemma mo_remove_frame [simp]:
  "rights (mo_remove b r s) = rights s"
  "shareds (mo_remove b r s) = shareds s"
  "msgs (mo_remove b r s) = msgs s"
  "groups (mo_remove b r s) = groups s"
  "ports (mo_remove b r s) = ports s"
  "k_rights (mo_remove b r s) = k_rights s"
  "k_shared (mo_remove b r s) = k_shared s"
  "k_msgs (mo_remove b r s) = k_msgs s"
  "k_ports (mo_remove b r s) = k_ports s"
  "k_groups (mo_remove b r s) = k_groups s"
  "rcu_rights (mo_remove b r s) = rcu_rights s"
  "rcu_shared (mo_remove b r s) = rcu_shared s"
  "rcu_ports (mo_remove b r s) = rcu_ports s"
  "rcu_groups (mo_remove b r s) = rcu_groups s"
  "right0_id (mo_remove b r s) = right0_id s"
  "gv (mo_remove b r s) = gv s"
  "pv (mo_remove b r s) = pv s"
  "qv (mo_remove b r s) = qv s"
  "sv (mo_remove b r s) = sv s"
  by (auto simp: mo_remove_def upd_right_def upd_shared_def upd_port_def upd_group_def upd_msg_def gv_def pv_def qv_def sv_def fun_eq_iff)

lemma rcu_push_frame [simp]:
  "rights (rcu_push r s) = rights s"
  "shareds (rcu_push r s) = shareds s"
  "msgs (rcu_push r s) = msgs s"
  "groups (rcu_push r s) = groups s"
  "ports (rcu_push r s) = ports s"
  "mo_rights (rcu_push r s) = mo_rights s"
  "k_rights (rcu_push r s) = k_rights s"
  "k_shared (rcu_push r s) = k_shared s"
  "k_msgs (rcu_push r s) = k_msgs s"
  "k_ports (rcu_push r s) = k_ports s"
  "k_groups (rcu_push r s) = k_groups s"
  "rcu_shared (rcu_push r s) = rcu_shared s"
  "rcu_ports (rcu_push r s) = rcu_ports s"
  "rcu_groups (rcu_push r s) = rcu_groups s"
  "right0_id (rcu_push r s) = right0_id s"
  "gv (rcu_push r s) = gv s"
  "pv (rcu_push r s) = pv s"
  "qv (rcu_push r s) = qv s"
  "sv (rcu_push r s) = sv s"
  "rcu_rights (rcu_push r s) = r # rcu_rights s"
  by (auto simp: rcu_push_def upd_right_def upd_shared_def upd_port_def upd_group_def upd_msg_def gv_def pv_def qv_def sv_def fun_eq_iff)

lemma shared_rcu_push_frame [simp]:
  "rights (shared_rcu_push h s) = rights s"
  "shareds (shared_rcu_push h s) = shareds s"
  "msgs (shared_rcu_push h s) = msgs s"
  "groups (shared_rcu_push h s) = groups s"
  "ports (shared_rcu_push h s) = ports s"
  "mo_rights (shared_rcu_push h s) = mo_rights s"
  "k_rights (shared_rcu_push h s) = k_rights s"
  "k_shared (shared_rcu_push h s) = k_shared s"
  "k_msgs (shared_rcu_push h s) = k_msgs s"
  "k_ports (shared_rcu_push h s) = k_ports s"
  "k_groups (shared_rcu_push h s) = k_groups s"
  "rcu_rights (shared_rcu_push h s) = rcu_rights s"
  "rcu_ports (shared_rcu_push h s) = rcu_ports s"
  "rcu_groups (shared_rcu_push h s) = rcu_groups s"
  "right0_id (shared_rcu_push h s) = right0_id s"
  "gv (shared_rcu_push h s) = gv s"
  "pv (shared_rcu_push h s) = pv s"
  "qv (shared_rcu_push h s) = qv s"
  "sv (shared_rcu_push h s) = sv s"
  "rcu_shared (shared_rcu_push h s) = h # rcu_shared s"
  by (auto simp: shared_rcu_push_def upd_right_def upd_shared_def upd_port_def upd_group_def upd_msg_def gv_def pv_def qv_def sv_def fun_eq_iff)

lemma enqueue_frame [simp]:
  "rights (enqueue p x s) = rights s"
  "shareds (enqueue p x s) = shareds s"
  "msgs (enqueue p x s) = msgs s"
  "groups (enqueue p x s) = groups s"
  "mo_rights (enqueue p x s) = mo_rights s"
  "k_rights (enqueue p x s) = k_rights s"
  "k_shared (enqueue p x s) = k_shared s"
  "k_msgs (enqueue p x s) = k_msgs s"
  "k_ports (enqueue p x s) = k_ports s"
  "k_groups (enqueue p x s) = k_groups s"
  "rcu_rights (enqueue p x s) = rcu_rights s"
  "rcu_shared (enqueue p x s) = rcu_shared s"
  "rcu_ports (enqueue p x s) = rcu_ports s"
  "rcu_groups (enqueue p x s) = rcu_groups s"
  "right0_id (enqueue p x s) = right0_id s"
  "gv (enqueue p x s) = gv s"
  "sv (enqueue p x s) = sv s"
  "pv (enqueue p x s) = pv s"
  "po_alive (ports (enqueue p x s) q) = po_alive (ports s q)"
  "po_owner (ports (enqueue p x s) q) = po_owner (ports s q)"
  "po_rights (ports (enqueue p x s) q) = po_rights (ports s q)"
  "po_current_right_id (ports (enqueue p x s) q) = po_current_right_id (ports s q)"
  by (auto simp: enqueue_def upd_right_def upd_shared_def upd_port_def upd_group_def upd_msg_def gv_def pv_def qv_def sv_def fun_eq_iff)

lemma add_right_frame [simp]:
  "shareds (add_right r x s) = shareds s"
  "msgs (add_right r x s) = msgs s"
  "groups (add_right r x s) = groups s"
  "ports (add_right r x s) = ports s"
  "mo_rights (add_right r x s) = mo_rights s"
  "k_shared (add_right r x s) = k_shared s"
  "k_msgs (add_right r x s) = k_msgs s"
  "k_ports (add_right r x s) = k_ports s"
  "k_groups (add_right r x s) = k_groups s"
  "rcu_rights (add_right r x s) = rcu_rights s"
  "rcu_shared (add_right r x s) = rcu_shared s"
  "rcu_ports (add_right r x s) = rcu_ports s"
  "rcu_groups (add_right r x s) = rcu_groups s"
  "right0_id (add_right r x s) = right0_id s"
  "gv (add_right r x s) = gv s"
  "pv (add_right r x s) = pv s"
  "qv (add_right r x s) = qv s"
  "sv (add_right r x s) = sv s"
  "rights (add_right r x s) = (rights s)(r := x)"
  "k_rights (add_right r x s) = insert r (k_rights s)"
  by (auto simp: add_right_def upd_right_def upd_shared_def upd_port_def upd_group_def upd_msg_def gv_def pv_def qv_def sv_def fun_eq_iff)

lemma add_shared_frame [simp]:
  "rights (add_shared h y s) = rights s"
  "msgs (add_shared h y s) = msgs s"
  "groups (add_shared h y s) = groups s"
  "ports (add_shared h y s) = ports s"
  "mo_rights (add_shared h y s) = mo_rights s"
  "k_rights (add_shared h y s) = k_rights s"
  "k_msgs (add_shared h y s) = k_msgs s"
  "k_ports (add_shared h y s) = k_ports s"
  "k_groups (add_shared h y s) = k_groups s"
  "rcu_rights (add_shared h y s) = rcu_rights s"
  "rcu_shared (add_shared h y s) = rcu_shared s"
  "rcu_ports (add_shared h y s) = rcu_ports s"
  "rcu_groups (add_shared h y s) = rcu_groups s"
  "right0_id (add_shared h y s) = right0_id s"
  "gv (add_shared h y s) = gv s"
  "pv (add_shared h y s) = pv s"
  "qv (add_shared h y s) = qv s"
  "shareds (add_shared h y s) = (shareds s)(h := y)"
  "k_shared (add_shared h y s) = insert h (k_shared s)"
  by (auto simp: add_shared_def upd_right_def upd_shared_def upd_port_def upd_group_def upd_msg_def gv_def pv_def qv_def sv_def fun_eq_iff)

section \<open>Keys\<close>

definition gkey :: "ipc \<Rightarrow> nat \<Rightarrow> (nat \<times> nat) option" where
  "gkey s r =
     (if r \<in> k_rights s \<and> r_alive (rights s r) \<and> \<not> of_message (rights s r)
      then Some (parent_group (rights s r), right_sender_id (rights s r)) else None)"

definition rkey :: "ipc \<Rightarrow> recieve_right \<Rightarrow> (nat \<times> nat) option" where
  "rkey s x =
     (case x of
        RR r \<Rightarrow>
          if r \<in> k_rights s \<and> r_alive (rights s r) \<and>
             (r_type (rights s r) = SendOnce \<or> r_type (rights s r) = SendMany \<and> notification_port (rights s r))
          then Some (r_parent (rights s r), right_parent_id (rights s r)) else None
      | RS h \<Rightarrow>
          if h \<in> k_shared s \<and> s_alive (shareds s h)
          then Some (s_parent (shareds s h), s_parent_id (shareds s h)) else None)"

definition qkey :: "ipc \<Rightarrow> generic_message \<Rightarrow> nat option" where
  "qkey s x =
     (case x of
        QMessage m \<Rightarrow> if m \<in> k_msgs s then Some (m_port (msgs s m)) else None
      | QRight r \<Rightarrow> if r \<in> k_rights s \<and> r_sent (rights s r) then Some (r_parent (rights s r)) else None
      | QShared h \<Rightarrow> if h \<in> k_shared s \<and> s_queued (shareds s h) then Some (s_parent (shareds s h)) else None)"

definition skey :: "ipc \<Rightarrow> nat \<Rightarrow> nat option" where
  "skey s r =
     (if r \<in> k_rights s \<and> r_alive (rights s r) \<and> r_type (rights s r) = SendMany
      then Some (r_shared (rights s r)) else None)"

definition mkey :: "ipc \<Rightarrow> nat \<Rightarrow> nat option" where
  "mkey s r =
     (if r \<in> k_rights s \<and> of_message (rights s r) \<and> r \<notin> set (rcu_rights s)
      then Some (parent_message (rights s r)) else None)"

definition okey :: "ipc \<Rightarrow> nat \<Rightarrow> nat option" where
  "okey s r =
     (if r \<in> k_rights s \<and> r_alive (rights s r) \<and> r_type (rights s r) = MemObject
      then Some (mem_object (rights s r)) else None)"

lemmas key_defs = gkey_def rkey_def qkey_def skey_def mkey_def okey_def

section \<open>The invariant\<close>

text \<open>
  \<open>X\<close> is a message that was taken out of its queue and \<open>sl\<close> are the slots of every message; both differ
  from the state only inside an operation that takes a message apart or puts one together.
\<close>

definition slots :: "ipc \<Rightarrow> nat \<Rightarrow> nat list" where
  "slots s m = (if m \<in> k_msgs s then somes (m_reply_right (msgs s m) # m_rights (msgs s m)) else [])"

lemma slots_cong: "k_msgs s' = k_msgs s \<Longrightarrow> msgs s' = msgs s \<Longrightarrow> slots s' = slots s"
  by (rule ext) (simp add: slots_def)

definition qkey_but :: "generic_message option \<Rightarrow> ipc \<Rightarrow> generic_message \<Rightarrow> nat option" where
  "qkey_but X s x = (if X = Some x then None else qkey s x)"

definition right_ok :: "ipc \<Rightarrow> nat \<Rightarrow> bool" where
  "right_ok s r \<longleftrightarrow>
     (r_sent (rights s r) \<longrightarrow> \<not> r_alive (rights s r)) \<and>
     (r \<in> set (rcu_rights s) \<longrightarrow> \<not> r_alive (rights s r) \<and> \<not> r_sent (rights s r)) \<and>
     (r \<notin> set (rcu_rights s) \<longrightarrow> r_alive (rights s r) \<or> r_sent (rights s r) \<or> of_message (rights s r)) \<and>
     (r_type (rights s r) = SendOnce \<longrightarrow> right_parent_id (rights s r) \<noteq> 0) \<and>
     (r_type (rights s r) = SendMany \<longrightarrow>
        r_shared (rights s r) \<in> k_shared s \<and>
        (r_alive (rights s r) \<longrightarrow> s_alive (shareds s (r_shared (rights s r))) \<or> s_dying (shareds s (r_shared (rights s r)))))"

definition shared_ok :: "ipc \<Rightarrow> nat \<Rightarrow> bool" where
  "shared_ok s h \<longleftrightarrow>
     s_parent_id (shareds s h) \<noteq> 0 \<and>
     (s_alive (shareds s h) \<longrightarrow> (\<exists>r. skey s r = Some h) \<and> \<not> s_dying (shareds s h) \<and> \<not> s_queued (shareds s h)) \<and>
     (s_dying (shareds s h) \<longrightarrow> \<not> s_queued (shareds s h) \<and> s_parent (shareds s h) \<notin> set (rcu_ports s) \<and>
        s_parent (shareds s h) \<in> k_ports s) \<and>
     (h \<in> set (rcu_shared s) \<longleftrightarrow>
        \<not> s_alive (shareds s h) \<and> \<not> s_dying (shareds s h) \<and> \<not> s_queued (shareds s h))"

definition port_ok :: "ipc \<Rightarrow> nat \<Rightarrow> bool" where
  "port_ok s p \<longleftrightarrow>
     (p \<in> set (rcu_ports s) \<longrightarrow> p \<in> k_ports s) \<and>
     (p \<in> set (rcu_ports s) \<or> p \<notin> k_ports s \<longrightarrow> \<not> po_alive (ports s p) \<and> (\<forall>x i. rkey s x \<noteq> Some (p, i))) \<and>
     (p \<notin> k_ports s \<longrightarrow> (\<forall>x. qkey s x \<noteq> Some p))"

definition group_ok :: "ipc \<Rightarrow> nat \<Rightarrow> bool" where
  "group_ok s g \<longleftrightarrow>
     (g \<in> set (rcu_groups s) \<longrightarrow> g \<in> k_groups s) \<and>
     (g \<in> set (rcu_groups s) \<or> g \<notin> k_groups s \<longrightarrow> \<not> g_alive (groups s g) \<and> (\<forall>r i. gkey s r \<noteq> Some (g, i)))"

definition lists_ok :: "ipc \<Rightarrow> bool" where
  "lists_ok s \<longleftrightarrow>
     distinct (rcu_rights s) \<and> set (rcu_rights s) \<subseteq> k_rights s \<and>
     distinct (rcu_shared s) \<and> set (rcu_shared s) \<subseteq> k_shared s \<and>
     distinct (rcu_ports s) \<and> distinct (rcu_groups s)"

definition ids_ok :: "ipc \<Rightarrow> bool" where
  "ids_ok s \<longleftrightarrow>
     (\<forall>r g i. gkey s r = Some (g, i) \<longrightarrow> i \<le> g_current_right_id (groups s g)) \<and>
     (\<forall>x p i. rkey s x = Some (p, i) \<longrightarrow> i \<le> po_current_right_id (ports s p))"

definition msg_ok :: "ipc \<Rightarrow> bool" where
  "msg_ok s \<longleftrightarrow> (\<forall>m\<in>k_msgs s. length (m_rights (msgs s m)) = 4)"

definition ipc_inv_but :: "generic_message option \<Rightarrow> (nat \<Rightarrow> nat list) \<Rightarrow> ipc \<Rightarrow> bool" where
  "ipc_inv_but X sl s \<longleftrightarrow>
     kindex (gv s) (gkey s) \<and> kindex (pv s) (rkey s) \<and> lindex (qv s) (qkey_but X s) \<and>
     lindex (sv s) (skey s) \<and> lindex sl (mkey s) \<and> lindex (mo_rights s) (okey s) \<and>
     (\<forall>r\<in>k_rights s. right_ok s r) \<and> (\<forall>h\<in>k_shared s. shared_ok s h) \<and> (\<forall>p. port_ok s p) \<and> (\<forall>g. group_ok s g) \<and>
     lists_ok s \<and> ids_ok s \<and> msg_ok s"

abbreviation ipc_inv :: "ipc \<Rightarrow> bool" where
  "ipc_inv s \<equiv> ipc_inv_but None (slots s) s"

lemma inv_gv: "ipc_inv_but X sl s \<Longrightarrow> kindex (gv s) (gkey s)"
  and inv_pv: "ipc_inv_but X sl s \<Longrightarrow> kindex (pv s) (rkey s)"
  and inv_qv: "ipc_inv_but X sl s \<Longrightarrow> lindex (qv s) (qkey_but X s)"
  and inv_sv: "ipc_inv_but X sl s \<Longrightarrow> lindex (sv s) (skey s)"
  and inv_sl: "ipc_inv_but X sl s \<Longrightarrow> lindex sl (mkey s)"
  and inv_mo: "ipc_inv_but X sl s \<Longrightarrow> lindex (mo_rights s) (okey s)"
  and inv_right: "ipc_inv_but X sl s \<Longrightarrow> r \<in> k_rights s \<Longrightarrow> right_ok s r"
  and inv_shared: "ipc_inv_but X sl s \<Longrightarrow> h \<in> k_shared s \<Longrightarrow> shared_ok s h"
  and inv_port: "ipc_inv_but X sl s \<Longrightarrow> port_ok s p"
  and inv_group: "ipc_inv_but X sl s \<Longrightarrow> group_ok s g"
  and inv_lists: "ipc_inv_but X sl s \<Longrightarrow> lists_ok s"
  and inv_ids: "ipc_inv_but X sl s \<Longrightarrow> ids_ok s"
  and inv_msg: "ipc_inv_but X sl s \<Longrightarrow> msg_ok s"
  by (simp_all add: ipc_inv_but_def)

lemma ipc_invI:
  assumes "kindex (gv s) (gkey s)" "kindex (pv s) (rkey s)" "lindex (qv s) (qkey_but X s)"
    "lindex (sv s) (skey s)" "lindex sl (mkey s)" "lindex (mo_rights s) (okey s)"
    "\<And>r. r \<in> k_rights s \<Longrightarrow> right_ok s r" "\<And>h. h \<in> k_shared s \<Longrightarrow> shared_ok s h" "\<And>p. port_ok s p" "\<And>g. group_ok s g"
    "lists_ok s" "ids_ok s" "msg_ok s"
  shows "ipc_inv_but X sl s"
  using assms by (simp add: ipc_inv_but_def)

section \<open>The containers under the primitive operations\<close>

lemma view_eqs:
  "gv (group_insert g i r s) = (gv s)(g := (gv s g)(i \<mapsto> r))"
  "gv (group_erase g i s) = (gv s)(g := (gv s g)(i := None))"
  "pv (insert_right p i x s) = (pv s)(p := (pv s p)(i \<mapsto> x))"
  "pv (erase_right p i s) = (pv s)(p := (pv s p)(i := None))"
  "qv (enqueue p y s) = (qv s)(p := qv s p @ [y])"
  "mo_rights (mo_insert b r s) = (mo_rights s)(b := mo_rights s b @ [r])"
  "mo_rights (mo_remove b r s) = (mo_rights s)(b := remove1 r (mo_rights s b))"
  by (auto simp: gv_def group_insert_def upd_group_def group_erase_def pv_def insert_right_def upd_port_def erase_right_def
      qv_def enqueue_def mo_insert_def mo_remove_def)

text \<open>A tree of rights, and a list that rights or messages are appended to, as their users see them.\<close>

locale rights_tree =
  fixes view :: "'s \<Rightarrow> 'c \<Rightarrow> 'i \<rightharpoonup> 'x" and ins :: "'c \<Rightarrow> 'i \<Rightarrow> 'x \<Rightarrow> 's \<Rightarrow> 's" and del :: "'c \<Rightarrow> 'i \<Rightarrow> 's \<Rightarrow> 's"
  assumes view_ins: "view (ins c i x s) = (view s)(c := (view s c)(i \<mapsto> x))"
    and view_del: "view (del c i s) = (view s)(c := (view s c)(i := None))"
begin

lemma index_ins: "kindex (view s) K \<Longrightarrow> K x = None \<Longrightarrow> (\<And>y. K y \<noteq> Some (c, i)) \<Longrightarrow>
    kindex (view (ins c i x s)) (K(x := Some (c, i)))"
  unfolding view_ins by (rule kindex_insert)

lemma index_del: "kindex (view s) K \<Longrightarrow> K x = Some (c, i) \<Longrightarrow> kindex (view (del c i s)) (K(x := None))"
  unfolding view_del by (rule kindex_erase)

end

locale queue_list =
  fixes view :: "'s \<Rightarrow> 'c \<Rightarrow> 'x list" and add :: "'c \<Rightarrow> 'x \<Rightarrow> 's \<Rightarrow> 's"
  assumes view_add: "view (add c x s) = (view s)(c := view s c @ [x])"
begin

lemma index_add: "lindex (view s) K \<Longrightarrow> K x = None \<Longrightarrow> lindex (view (add c x s)) (K(x := Some c))"
  unfolding view_add by (rule lindex_append)

end

locale member_list = queue_list view add for view :: "'s \<Rightarrow> 'c \<Rightarrow> 'x list" and add +
  fixes rem :: "'c \<Rightarrow> 'x \<Rightarrow> 's \<Rightarrow> 's"
  assumes view_rem: "view (rem c x s) = (view s)(c := remove1 x (view s c))"
begin

lemma index_rem: "lindex (view s) K \<Longrightarrow> K x = Some c \<Longrightarrow> lindex (view (rem c x s)) (K(x := None))"
  unfolding view_rem by (rule lindex_remove)

end

interpretation gt: rights_tree gv group_insert group_erase
  by unfold_locales (rule view_eqs)+

interpretation pt: rights_tree pv insert_right erase_right
  by unfold_locales (rule view_eqs)+

interpretation mq: queue_list qv enqueue
  by unfold_locales (rule view_eqs)

interpretation ml: member_list mo_rights mo_insert mo_remove
  by unfold_locales (rule view_eqs)+

end
