(* ===== verification/Ipc_Destroy.thy ===== *)
theory Ipc_Destroy
  imports Ipc_Inv
begin

text \<open>Destroying a right keeps the invariant, whatever holds the right and whatever its kind.\<close>

section \<open>Consequences of the invariant for one right\<close>

lemma alive_right:
  assumes "ipc_inv_but X sl s" "r \<in> k_rights s" "r_alive (rights s r)"
  shows "r \<notin> set (rcu_rights s)" "\<not> r_sent (rights s r)"
  using inv_right[OF assms(1,2)] assms(3) by (auto simp: right_ok_def)

lemma parent_not_freed:
  assumes "ipc_inv_but X sl s" "rkey s x = Some (p, i)"
  shows "p \<notin> set (rcu_ports s)"
  using inv_port[OF assms(1), of p] assms(2) by (auto simp: port_ok_def)

lemma queue_key_free:
  assumes "ipc_inv_but X sl s" "\<not> r_sent (rights s r)"
  shows "qkey_but X s (QRight r) = None"
  using assms(2) by (simp add: qkey_but_def qkey_def)

text \<open>What the destruction of a right changes.\<close>

definition destroyed :: "nat \<Rightarrow> ipc \<Rightarrow> ipc \<Rightarrow> bool" where
  "destroyed r s s' \<longleftrightarrow>
     (\<exists>b. rights s' = (rights s)(r := (rights s r)\<lparr>r_alive := False, r_sent := b\<rparr>)) \<and>
     k_rights s' = k_rights s \<and> k_shared s' = k_shared s \<and> k_msgs s' = k_msgs s \<and> msgs s' = msgs s \<and>
     rcu_ports s' = rcu_ports s \<and> (\<forall>h. s_parent (shareds s' h) = s_parent (shareds s h))"

lemmas state_parts = right_ok_def shared_ok_def port_ok_def group_ok_def lists_ok_def ids_ok_def msg_ok_def

section \<open>Rights to memory objects\<close>

lemma gkey_destroyed:
  assumes "kindex (gv s) (gkey s)" "r \<in> k_rights s" "r_alive (rights s r)"
  shows "kindex (gv (leave_group r s)) ((gkey s)(r := None))"
proof (cases "of_message (rights s r)")
  case True
  then have "(gkey s)(r := None) = gkey s" by (auto simp: gkey_def)
  then show ?thesis using assms(1) True by (simp add: leave_group_def)
next
  case False
  then have "gkey s r = Some (parent_group (rights s r), right_sender_id (rights s r))"
    using assms by (simp add: gkey_def)
  from gt.index_del[OF assms(1) this] show ?thesis using False by (simp add: leave_group_def)
qed

lemma leave_group_frame [simp]:
  "rights (leave_group r s) = rights s" "shareds (leave_group r s) = shareds s" "msgs (leave_group r s) = msgs s"
  "ports (leave_group r s) = ports s" "mo_rights (leave_group r s) = mo_rights s"
  "k_rights (leave_group r s) = k_rights s" "k_shared (leave_group r s) = k_shared s"
  "k_msgs (leave_group r s) = k_msgs s" "k_ports (leave_group r s) = k_ports s" "k_groups (leave_group r s) = k_groups s"
  "rcu_rights (leave_group r s) = rcu_rights s" "rcu_shared (leave_group r s) = rcu_shared s"
  "rcu_ports (leave_group r s) = rcu_ports s" "rcu_groups (leave_group r s) = rcu_groups s"
  "pv (leave_group r s) = pv s" "qv (leave_group r s) = qv s" "sv (leave_group r s) = sv s"
  "g_alive (groups (leave_group r s) g) = g_alive (groups s g)"
  "g_current_right_id (groups (leave_group r s) g) = g_current_right_id (groups s g)"
  by (simp_all add: leave_group_def)

lemma gv_leave_group_cong:
  assumes "groups s = groups t" "of_message (rights s r) = of_message (rights t r)"
    "parent_group (rights s r) = parent_group (rights t r)" "right_sender_id (rights s r) = right_sender_id (rights t r)"
  shows "gv (leave_group r s) = gv (leave_group r t)"
  using assms by (auto simp: leave_group_def group_erase_def upd_group_def gv_def)

text \<open>
  The part of the argument that is the same for the three kinds: the right leaves its group, its memory
  is handed to read-copy-update or stays with the message or the queue that holds it.
\<close>

lemma destroy_common:
  assumes I: "ipc_inv_but X sl s" and k: "r \<in> k_rights s" and a: "r_alive (rights s r)"
    and f: "rights s' = (rights s)(r := (rights s r)\<lparr>r_alive := False, r_sent := b\<rparr>)"
      "k_rights s' = k_rights s" "k_shared s' = k_shared s" "k_msgs s' = k_msgs s" "msgs s' = msgs s"
      "k_groups s' = k_groups s" "rcu_groups s' = rcu_groups s" "rcu_shared s' = rcu_shared s" "rcu_ports s' = rcu_ports s"
      "rcu_rights s' = (if b \<or> of_message (rights s r) then rcu_rights s else r # rcu_rights s)"
      "gv s' = gv (leave_group r s)"
      "\<And>g. g_alive (groups s' g) = g_alive (groups s g)"
      "\<And>g. g_current_right_id (groups s' g) = g_current_right_id (groups s g)"
      "\<And>p. po_current_right_id (ports s' p) = po_current_right_id (ports s p)"
    and rk: "\<And>x. rkey s' x = rkey s x \<or> rkey s' x = None"
    and own: "kindex (pv s') (rkey s')" "lindex (qv s') (qkey_but X s')" "lindex (sv s') (skey s')"
      "lindex (mo_rights s') (okey s')" "\<And>h. h \<in> k_shared s \<Longrightarrow> shared_ok s' h" "\<And>p. port_ok s' p"
    and sh: "\<And>h. s_dying (shareds s' h) = s_dying (shareds s h)"
      "\<And>r' h. r' \<noteq> r \<Longrightarrow> skey s r' = Some h \<Longrightarrow> s_alive (shareds s' h) = s_alive (shareds s h)"
  shows "ipc_inv_but X sl s'"
proof (rule ipc_invI)
  note dead = alive_right[OF I k a]
  have g: "gkey s' = (gkey s)(r := None)" by (auto simp: gkey_def f)
  show "kindex (gv s') (gkey s')" unfolding f g by (rule gkey_destroyed[OF inv_gv[OF I] k a])
  have "mkey s' = mkey s" using dead by (auto simp: mkey_def f)
  then show "lindex sl (mkey s')" using inv_sl[OF I] by simp
  show "right_ok s' r'" if "r' \<in> k_rights s'" for r'
  proof (cases "r' = r")
    case True
    then show ?thesis using that inv_right[OF I, of r] dead by (auto simp: right_ok_def f)
  next
    case False
    then show ?thesis
      using that inv_right[OF I, of r'] sh(2)[of r'] by (auto simp: right_ok_def f sh(1) skey_def)
  qed
  show "group_ok s' g" for g using inv_group[OF I, of g] by (auto simp: group_ok_def f g)
  show "lists_ok s'" using inv_lists[OF I] dead k by (auto simp: lists_ok_def f)
  show "ids_ok s'" using inv_ids[OF I] rk unfolding ids_ok_def f g by (metis fun_upd_apply option.distinct(1))
  show "msg_ok s'" using inv_msg[OF I] by (auto simp: msg_ok_def f)
qed (use own f in auto)

lemma mem_destroy_inv:
  assumes I: "ipc_inv_but X sl s" and k: "r \<in> k_rights s" and a: "r_alive (rights s r)"
    and t: "r_type (rights s r) = MemObject"
    and s': "s' = (let s3 = leave_group r (remove_from_parent r (upd_right r (\<lambda>x. x\<lparr>r_alive := False\<rparr>) s)) in
                   if of_message (rights s r) then s3 else rcu_push r s3)"
  shows "ipc_inv_but X sl s' \<and> destroyed r s s'"
proof -
  have f: "rights s' = (rights s)(r := (rights s r)\<lparr>r_alive := False, r_sent := False\<rparr>)"
    "k_rights s' = k_rights s" "k_shared s' = k_shared s" "k_msgs s' = k_msgs s" "msgs s' = msgs s"
    "k_groups s' = k_groups s" "rcu_groups s' = rcu_groups s" "rcu_shared s' = rcu_shared s" "rcu_ports s' = rcu_ports s"
    "rcu_rights s' = (if False \<or> of_message (rights s r) then rcu_rights s else r # rcu_rights s)"
    using alive_right[OF I k a] by (auto simp: s' remove_from_parent_def t Let_def)
  have e: "k_ports s' = k_ports s" "shareds s' = shareds s" "sv s' = sv s" "ports s' = ports s" "pv s' = pv s" "qv s' = qv s"
    "mo_rights s' = mo_rights (mo_remove (mem_object (rights s r)) r s)"
    "\<And>g. g_alive (groups s' g) = g_alive (groups s g)"
    "\<And>g. g_current_right_id (groups s' g) = g_current_right_id (groups s g)"
    by (auto simp: s' remove_from_parent_def t Let_def view_eqs)
  have keys: "rkey s' = rkey s" "qkey_but X s' = qkey_but X s" "qkey s' = qkey s" "skey s' = skey s" "okey s' = (okey s)(r := None)"
    using t alive_right[OF I k a]
    by (auto simp: fun_eq_iff rkey_def qkey_but_def qkey_def skey_def okey_def f e split: recieve_right.splits generic_message.splits)
  have "gv s' = gv (leave_group r s)"
    by (simp add: s' remove_from_parent_def t Let_def) (rule gv_leave_group_cong, simp_all)
  then have "ipc_inv_but X sl s'"
  proof (rule destroy_common[OF I k a f])
    show "lindex (mo_rights s') (okey s')"
      unfolding e keys using inv_mo[OF I] k a t by (auto intro!: ml.index_rem simp: okey_def)
    show "shared_ok s' h" if "h \<in> k_shared s" for h
      using inv_shared[OF I that] by (simp add: shared_ok_def e f keys)
    show "port_ok s' p" for p using inv_port[OF I, of p] by (simp add: port_ok_def e f keys)
  qed (use I in \<open>simp_all add: e keys inv_pv inv_qv inv_sv\<close>)
  then show ?thesis using f e by (auto simp: destroyed_def)
qed

section \<open>Rights to send once\<close>

lemma once_destroy_inv:
  assumes I: "ipc_inv_but X sl s" and k: "r \<in> k_rights s" and a: "r_alive (rights s r)"
    and t: "r_type (rights s r) = SendOnce" and X: "X \<noteq> Some (QRight r)"
    and h: "b \<Longrightarrow> held \<noteq> Some (r_parent (rights s r))" and b: "b \<longleftrightarrow> reason = DeletedBySender"
    and m: "\<not> not_matching match (rights s r)"
  obtains s' where "send_once_destroy_nolock held r reason match s = Some (True, s')"
    "ipc_inv_but X sl s'" "destroyed r s s'"
proof -
  let ?p = "r_parent (rights s r)" and ?i = "right_parent_id (rights s r)"
  define s3 where "s3 = leave_group r (remove_from_parent r (upd_right r (\<lambda>x. x\<lparr>r_alive := False\<rparr>) s))"
  define s4 where "s4 = (if \<not> b \<and> \<not> of_message (rights s r) then rcu_push r s3 else s3)"
  define s' where "s' = (if b then upd_right r (\<lambda>x. x\<lparr>r_sent := True\<rparr>) (enqueue ?p (QRight r) s4) else s4)"
  note d = s'_def s4_def s3_def remove_from_parent_def t
  have rk: "rkey s (RR r) = Some (?p, ?i)" using k a t by (simp add: rkey_def)
  note dead = alive_right[OF I k a]
  have f: "rights s' = (rights s)(r := (rights s r)\<lparr>r_alive := False, r_sent := b\<rparr>)"
    "k_rights s' = k_rights s" "k_shared s' = k_shared s" "k_msgs s' = k_msgs s" "msgs s' = msgs s"
    "k_groups s' = k_groups s" "rcu_groups s' = rcu_groups s" "rcu_shared s' = rcu_shared s" "rcu_ports s' = rcu_ports s"
    "rcu_rights s' = (if b \<or> of_message (rights s r) then rcu_rights s else r # rcu_rights s)"
    using dead by (auto simp: d)
  have e: "k_ports s' = k_ports s" "shareds s' = shareds s" "sv s' = sv s" "mo_rights s' = mo_rights s"
    "pv s' = pv (erase_right ?p ?i s)" "qv s' = (if b then qv (enqueue ?p (QRight r) s) else qv s)"
    "\<And>p. po_alive (ports s' p) = po_alive (ports s p)"
    "\<And>p. po_current_right_id (ports s' p) = po_current_right_id (ports s p)"
    "\<And>g. g_alive (groups s' g) = g_alive (groups s g)"
    "\<And>g. g_current_right_id (groups s' g) = g_current_right_id (groups s g)"
    by (auto simp: d view_eqs)
  have keys: "rkey s' = (rkey s)(RR r := None)" "skey s' = skey s" "okey s' = okey s"
    "qkey s' = (if b then (qkey s)(QRight r := Some ?p) else qkey s)"
    using t dead k
    by (auto simp: fun_eq_iff rkey_def qkey_def skey_def okey_def f e split: recieve_right.splits generic_message.splits)
  have "gv s' = gv (leave_group r s)"
    by (simp add: d) (intro conjI impI gv_leave_group_cong, simp_all)
  then have I': "ipc_inv_but X sl s'"
  proof (rule destroy_common[OF I k a f])
    show "kindex (pv s') (rkey s')" unfolding e keys by (rule pt.index_del[OF inv_pv[OF I] rk])
    have "qkey_but X s' = (if b then (qkey_but X s)(QRight r := Some ?p) else qkey_but X s)"
      using X by (auto simp: qkey_but_def fun_eq_iff keys)
    then show "lindex (qv s') (qkey_but X s')"
      unfolding e using inv_qv[OF I] mq.index_add[OF inv_qv[OF I] queue_key_free[OF I dead(2)], of ?p] by simp
    show "shared_ok s' h" if "h \<in> k_shared s" for h
      using inv_shared[OF I that] by (simp add: shared_ok_def e f keys)
    show "port_ok s' p" for p
      using inv_port[OF I, of p] rk by (auto simp: port_ok_def e f keys)
  qed (use I in \<open>simp_all add: e keys inv_sv inv_mo\<close>)
  show ?thesis
  proof
    have "?p \<notin> set (rcu_ports s4)" using parent_not_freed[OF I rk] by (simp add: d)
    then show "send_once_destroy_nolock held r reason match s = Some (True, s')"
      using m h by (auto simp: send_once_destroy_nolock_def lock_port_def Let_def b s'_def s4_def s3_def)
    show "destroyed r s s'" using f e by (auto simp: destroyed_def)
  qed (rule I')
qed

section \<open>Rights to send many\<close>

text \<open>The right is the last one of its shared receive right, which its port still knows.\<close>

definition last_right :: "nat \<Rightarrow> ipc \<Rightarrow> bool" where
  "last_right r s \<longleftrightarrow>
     s_alive (shareds s (r_shared (rights s r))) \<and> remove1 r (send_many_rights (shareds s (r_shared (rights s r)))) = []"

definition many_destroyed :: "nat \<Rightarrow> ipc \<Rightarrow> ipc" where
  "many_destroyed r s =
     (let x = rights s r; h = r_shared x; y = shareds s h;
          s1 = upd_right r (\<lambda>x. x\<lparr>r_alive := False\<rparr>) s;
          s1' = upd_shared h (\<lambda>x. x\<lparr>send_many_rights := remove1 r (send_many_rights x)\<rparr>) s1;
          s2 = (if last_right r s then erase_right (s_parent y) (s_parent_id y)
                  (upd_shared h (\<lambda>x. x\<lparr>s_alive := False, s_queued := True\<rparr>) s1') else s1');
          s3 = (if notification_port x then erase_right (r_parent x) (right_parent_id x) s2 else s2);
          s4 = leave_group r s3;
          s5 = (if \<not> notification_port x \<and> \<not> of_message x then rcu_push r s4 else s4);
          s6 = (if notification_port x
                then upd_right r (\<lambda>x. x\<lparr>r_sent := True\<rparr>) (enqueue (r_parent x) (QRight r) s5) else s5) in
      if last_right r s then enqueue (s_parent y) (QShared h) s6 else s6)"

lemma many_in_list:
  assumes "ipc_inv_but X sl s" "r \<in> k_rights s" "r_alive (rights s r)" "r_type (rights s r) = SendMany"
  shows "skey s r = Some (r_shared (rights s r))" "r \<in> set (send_many_rights (shareds s (r_shared (rights s r))))"
    "r_shared (rights s r) \<in> k_shared s"
  using lindexD[OF inv_sv[OF assms(1)], of r "r_shared (rights s r)"] inv_right[OF assms(1,2)] assms(2-)
  by (auto simp: skey_def sv_def right_ok_def)

lemma last_right_alone:
  assumes "ipc_inv_but X sl s" "last_right r s" "skey s r' = Some (r_shared (rights s r))"
  shows "r' = r"
proof -
  have "r' \<in> set (send_many_rights (shareds s (r_shared (rights s r))))"
    using assms(3) lindexD[OF inv_sv[OF assms(1)], of r'] by (simp add: sv_def)
  then show ?thesis using assms(2) by (metis in_set_remove1 last_right_def list.set_cases list.distinct(1))
qed

lemma many_destroyed_fields:
  fixes s r
  assumes "\<not> r_sent (rights s r)"
  defines "x \<equiv> rights s r" and "h \<equiv> r_shared (rights s r)" and "s' \<equiv> many_destroyed r s"
  shows "rights s' = (rights s)(r := x\<lparr>r_alive := False, r_sent := notification_port x\<rparr>)"
    "k_rights s' = k_rights s" "k_shared s' = k_shared s" "k_msgs s' = k_msgs s" "msgs s' = msgs s"
    "k_groups s' = k_groups s" "rcu_groups s' = rcu_groups s" "rcu_shared s' = rcu_shared s" "rcu_ports s' = rcu_ports s"
    "rcu_rights s' = (if notification_port x \<or> of_message x then rcu_rights s else r # rcu_rights s)"
    "k_ports s' = k_ports s" "mo_rights s' = mo_rights s"
    "shareds s' = (shareds s)(h := (shareds s h)\<lparr>send_many_rights := remove1 r (send_many_rights (shareds s h)),
        s_alive := s_alive (shareds s h) \<and> \<not> last_right r s, s_queued := s_queued (shareds s h) \<or> last_right r s\<rparr>)"
    "po_alive (ports s' p) = po_alive (ports s p)"
    "po_current_right_id (ports s' p) = po_current_right_id (ports s p)"
    "g_alive (groups s' g) = g_alive (groups s g)"
    "g_current_right_id (groups s' g) = g_current_right_id (groups s g)"
    "gv s' = gv (leave_group r s)"
  using assms by (auto simp: many_destroyed_def Let_def last_right_def intro!: gv_leave_group_cong)

lemma many_destroyed_views:
  fixes s r
  defines "x \<equiv> rights s r" and "h \<equiv> r_shared (rights s r)" and "s' \<equiv> many_destroyed r s"
  shows "pv s' = pv (let s2 = if last_right r s then erase_right (s_parent (shareds s h)) (s_parent_id (shareds s h)) s else s in
                     if notification_port x then erase_right (r_parent x) (right_parent_id x) s2 else s2)"
    "qv s' = qv (let s2 = if notification_port x then enqueue (r_parent x) (QRight r) s else s in
                 if last_right r s then enqueue (s_parent (shareds s h)) (QShared h) s2 else s2)"
    "sv s' = (sv s)(h := remove1 r (sv s h))"
  unfolding assms by (auto simp: many_destroyed_def Let_def view_eqs sv_def)

lemma many_destroyed_keys:
  assumes I: "ipc_inv_but X sl s" and k: "r \<in> k_rights s" and a: "r_alive (rights s r)" and t: "r_type (rights s r) = SendMany"
  defines "x \<equiv> rights s r" and "h \<equiv> r_shared (rights s r)" and "s' \<equiv> many_destroyed r s"
  shows "rkey s' = (if last_right r s then (rkey s)(RS h := None, RR r := None) else (rkey s)(RR r := None))"
    "skey s' = (skey s)(r := None)" "okey s' = okey s"
    "qkey s' = (let K = if notification_port x then (qkey s)(QRight r := Some (r_parent x)) else qkey s in
                if last_right r s then K(QShared h := Some (s_parent (shareds s h))) else K)"
proof -
  note f = many_destroyed_fields[OF alive_right(2)[OF I k a]]
  note h = many_in_list(3)[OF I k a t]
  show "rkey s' = (if last_right r s then (rkey s)(RS h := None, RR r := None) else (rkey s)(RR r := None))"
    using t by (auto simp: fun_eq_iff rkey_def s'_def h_def f split: recieve_right.splits)
  show "skey s' = (skey s)(r := None)" "okey s' = okey s"
    using t by (auto simp: fun_eq_iff skey_def okey_def s'_def f)
  show "qkey s' = (let K = if notification_port x then (qkey s)(QRight r := Some (r_parent x)) else qkey s in
                if last_right r s then K(QShared h := Some (s_parent (shareds s h))) else K)"
    using k h alive_right(2)[OF I k a]
    by (auto simp: fun_eq_iff qkey_def s'_def h_def x_def f Let_def split: generic_message.splits)
qed

lemma many_shared_ok:
  assumes I: "ipc_inv_but X sl s" and k: "r \<in> k_rights s" and a: "r_alive (rights s r)" and t: "r_type (rights s r) = SendMany"
    and h': "h' \<in> k_shared s"
  shows "shared_ok (many_destroyed r s) h'"
proof -
  note f = many_destroyed_fields[OF alive_right(2)[OF I k a]] and e = many_destroyed_keys[OF I k a t]
  note L = many_in_list[OF I k a t]
  show ?thesis
  proof (cases "h' = r_shared (rights s r)")
    case False
    have "\<exists>r'. r' \<noteq> r \<and> skey s r' = Some h'" if "s_alive (shareds s h')"
      using inv_shared[OF I h'] that L(1) False by (metis option.inject shared_ok_def)
    then show ?thesis using inv_shared[OF I h'] False by (auto simp: shared_ok_def f e)
  next
    case True
    have "\<exists>r'. r' \<noteq> r \<and> skey s r' = Some h'" if "s_alive (shareds s h')" "\<not> last_right r s"
    proof -
      let ?L = "send_many_rights (shareds s h')"
      have "remove1 r ?L \<noteq> []" using that by (simp add: last_right_def True)
      then have "hd (remove1 r ?L) \<in> set (remove1 r ?L)" by simp
      moreover have "distinct ?L" using lindex_distinct[OF inv_sv[OF I], of h'] by (simp add: sv_def)
      ultimately show ?thesis using lindexD[OF inv_sv[OF I], of _ h'] by (auto simp: sv_def)
    qed
    then show ?thesis
      using inv_shared[OF I h'] True by (auto simp: shared_ok_def f e last_right_def)
  qed
qed

lemma many_destroyed_inv:
  assumes I: "ipc_inv_but X sl s" and k: "r \<in> k_rights s" and a: "r_alive (rights s r)" and t: "r_type (rights s r) = SendMany"
    and X: "X \<noteq> Some (QRight r)" "X \<noteq> Some (QShared (r_shared (rights s r)))"
  shows "ipc_inv_but X sl (many_destroyed r s)"
proof -
  let ?x = "rights s r" and ?h = "r_shared (rights s r)" and ?s' = "many_destroyed r s"
  note f = many_destroyed_fields[OF alive_right(2)[OF I k a]] and e = many_destroyed_keys[OF I k a t]
  note v = many_destroyed_views[of r s] and L = many_in_list[OF I k a t]
  have rS: "rkey s (RS ?h) = Some (s_parent (shareds s ?h), s_parent_id (shareds s ?h))" if "last_right r s"
    using that L(3) by (simp add: rkey_def last_right_def)
  have rR: "rkey s (RR r) = (if notification_port ?x then Some (r_parent ?x, right_parent_id ?x) else None)"
    using k a t by (simp add: rkey_def)
  show ?thesis
  proof (rule destroy_common[OF I k a f(1-10,18)])
    let ?s2 = "if last_right r s then erase_right (s_parent (shareds s ?h)) (s_parent_id (shareds s ?h)) s else s"
    let ?K = "if last_right r s then (rkey s)(RS ?h := None) else rkey s"
    have "kindex (pv ?s2) ?K" using inv_pv[OF I] pt.index_del[OF inv_pv[OF I] rS] by simp
    moreover have "?K (RR r) = rkey s (RR r)" by simp
    ultimately have "kindex (pv (if notification_port ?x then erase_right (r_parent ?x) (right_parent_id ?x) ?s2 else ?s2)) (?K(RR r := None))"
      using pt.index_del[of ?s2 ?K "RR r"] by (auto simp: rR fun_upd_idem)
    then show "kindex (pv ?s') (rkey ?s')" unfolding v(1) Let_def e(1) by (simp split: if_splits)
    let ?s2 = "if notification_port ?x then enqueue (r_parent ?x) (QRight r) s else s"
    let ?K = "if notification_port ?x then (qkey_but X s)(QRight r := Some (r_parent ?x)) else qkey_but X s"
    have q: "lindex (qv ?s2) ?K"
      using inv_qv[OF I] mq.index_add[OF inv_qv[OF I] queue_key_free[OF I alive_right(2)[OF I k a]]] by simp
    have "qkey_but X ?s' = (if last_right r s then ?K(QShared ?h := Some (s_parent (shareds s ?h))) else ?K)"
      using X by (auto simp: fun_eq_iff qkey_but_def e Let_def)
    moreover have "?K (QShared ?h) = None" if "last_right r s"
      using that inv_shared[OF I L(3)] by (auto simp: qkey_but_def qkey_def shared_ok_def last_right_def)
    ultimately show "lindex (qv ?s') (qkey_but X ?s')"
      unfolding v(2) Let_def using q mq.index_add[OF q] by simp
    show "lindex (sv ?s') (skey ?s')" unfolding v(3) e by (rule lindex_remove[OF inv_sv[OF I] L(1)])
    show "lindex (mo_rights ?s') (okey ?s')" unfolding f e by (rule inv_mo[OF I])
    show "shared_ok ?s' h" if "h \<in> k_shared s" for h by (rule many_shared_ok[OF I k a t that])
    show "port_ok ?s' p" for p
      using inv_port[OF I, of p] parent_not_freed[OF I rS] rR rS
      by (auto simp: port_ok_def f e Let_def split: if_splits)
    show "rkey ?s' x = rkey s x \<or> rkey ?s' x = None" for x by (auto simp: e)
    show "s_dying (shareds ?s' h) = s_dying (shareds s h)" for h by (simp add: f)
    show "s_alive (shareds ?s' h) = s_alive (shareds s h)" if "r' \<noteq> r" "skey s r' = Some h" for r' h
      using last_right_alone[OF I] that by (auto simp: f)
  qed (simp_all add: f)
qed

lemma many_destroy_eq:
  assumes I: "ipc_inv_but X sl s" and k: "r \<in> k_rights s" and a: "r_alive (rights s r)" and t: "r_type (rights s r) = SendMany"
    and h: "notification_port (rights s r) \<Longrightarrow> held \<noteq> Some (r_parent (rights s r))"
      "last_right r s \<Longrightarrow> held \<noteq> Some (s_parent (shareds s (r_shared (rights s r))))"
    and m: "\<not> not_matching match (rights s r)"
  shows "send_many_destroy_nolock held r match s = Some (True, many_destroyed r s)"
proof -
  let ?x = "rights s r" and ?h = "r_shared (rights s r)"
  note L = many_in_list[OF I k a t]
  have p: "s_parent (shareds s ?h) \<notin> set (rcu_ports s)"
    using parent_not_freed[OF I, of "RS ?h"] inv_right[OF I k] inv_shared[OF I L(3)] t a L(3)
    by (auto simp: rkey_def right_ok_def shared_ok_def)
  have n: "r_parent ?x \<notin> set (rcu_ports s)" if "notification_port ?x"
    using parent_not_freed[OF I, of "RR r"] that k a t by (simp add: rkey_def)
  show ?thesis
    using m h p n L(2) t
    by (auto simp: send_many_destroy_nolock_def leave_shared_def many_destroyed_def last_right_def Let_def lock_port_def
        remove_from_parent_def)
qed

section \<open>All kinds\<close>

text \<open>
  What the caller's lock must not be: the lock of a port this destruction notifies.
\<close>

definition lock_free :: "nat option \<Rightarrow> DestroyReason \<Rightarrow> nat \<Rightarrow> ipc \<Rightarrow> bool" where
  "lock_free held reason r s \<longleftrightarrow>
     (case r_type (rights s r) of
        SendOnce \<Rightarrow> reason = DeletedBySender \<longrightarrow> held \<noteq> Some (r_parent (rights s r))
      | SendMany \<Rightarrow> (notification_port (rights s r) \<longrightarrow> held \<noteq> Some (r_parent (rights s r))) \<and>
                    (last_right r s \<longrightarrow> held \<noteq> Some (s_parent (shareds s (r_shared (rights s r)))))
      | MemObject \<Rightarrow> True)"

lemma lock_free_None [simp]: "lock_free None reason r s"
  by (simp add: lock_free_def split: RightType.splits)

lemma destroy_nolock_dead:
  "not_matching match (rights s r) \<Longrightarrow> destroy_nolock held r reason match s = Some (False, s)"
  by (simp add: destroy_nolock_def send_once_destroy_nolock_def send_many_destroy_nolock_def right_destroy_nolock_def
      split: RightType.splits)

lemma destroy_nolock_inv:
  assumes I: "ipc_inv_but X sl s" and k: "r \<in> k_rights s"
    and X: "X \<noteq> Some (QRight r)" "\<And>h. X \<noteq> Some (QShared h)"
    and h: "r_alive (rights s r) \<Longrightarrow> lock_free held reason r s" and m: "\<not> not_matching match (rights s r)"
  obtains s' where "destroy_nolock held r reason match s = Some (True, s')" "ipc_inv_but X sl s'" "destroyed r s s'"
proof -
  have a: "r_alive (rights s r)" using m by (simp add: not_matching_def)
  show ?thesis
  proof (cases "r_type (rights s r)")
    case SendOnce
    from once_destroy_inv[where held = held and reason = reason, OF I k a SendOnce X(1) _ refl m] h[OF a] SendOnce that
    show ?thesis by (auto simp: lock_free_def destroy_nolock_def)
  next
    case SendMany
    note f = many_destroyed_fields[OF alive_right(2)[OF I k a]]
    have "destroyed r s (many_destroyed r s)" by (auto simp: destroyed_def f)
    with many_destroyed_inv[OF I k a SendMany X(1) X(2)] many_destroy_eq[where held = held, OF I k a SendMany _ _ m] h[OF a] SendMany that
    show ?thesis by (auto simp: lock_free_def destroy_nolock_def)
  next
    case MemObject
    from mem_destroy_inv[OF I k a MemObject refl] MemObject m that
    show ?thesis by (simp add: destroy_nolock_def right_destroy_nolock_def Let_def)
  qed
qed

corollary destroy_inv:
  assumes I: "ipc_inv_but X sl s" and k: "r \<in> k_rights s" and X: "X \<noteq> Some (QRight r)" "\<And>h. X \<noteq> Some (QShared h)"
  obtains b s' where "destroy r reason match s = Some (b, s')" "ipc_inv_but X sl s'" "b \<Longrightarrow> destroyed r s s'" "\<not> b \<Longrightarrow> s' = s"
proof (cases "not_matching match (rights s r)")
  case True
  then show ?thesis using that[of False s] destroy_nolock_dead[OF True] I by (simp add: destroy_def)
next
  case False
  obtain s' where "destroy_nolock None r reason match s = Some (True, s')" "ipc_inv_but X sl s'" "destroyed r s s'"
    using destroy_nolock_inv[OF I k X lock_free_None False] by blast
  then show ?thesis using that[of True s'] by (simp add: destroy_def)
qed

end
