(* ===== verification/Ipc_Ops.thy ===== *)
theory Ipc_Ops
  imports Ipc_Destroy
begin

text \<open>The other operations keep the invariant, and do not fail.\<close>

section \<open>Operations on messages\<close>

lemma message_step_inv:
  assumes I: "ipc_inv_but X sl s" and f: "rights s' = rights s" "shareds s' = shareds s" "groups s' = groups s" "mo_rights s' = mo_rights s"
      "k_rights s' = k_rights s" "k_shared s' = k_shared s" "k_ports s' = k_ports s" "k_groups s' = k_groups s"
      "rcu_rights s' = rcu_rights s" "rcu_shared s' = rcu_shared s" "rcu_ports s' = rcu_ports s" "rcu_groups s' = rcu_groups s"
      "\<And>p. po_alive (ports s' p) = po_alive (ports s p)" "\<And>p. po_rights (ports s' p) = po_rights (ports s p)"
      "\<And>p. po_current_right_id (ports s' p) = po_current_right_id (ports s p)"
    and q: "lindex (qv s') (qkey_but X' s')" "\<And>x p. qkey s' x = Some p \<Longrightarrow> qkey s x = Some p \<or> p \<in> k_ports s"
    and m: "lindex sl' (mkey s)" "msg_ok s'"
  shows "ipc_inv_but X' sl' s'"
proof (rule ipc_invI)
  have v: "gv s' = gv s" "pv s' = pv s" "sv s' = sv s" by (auto simp: gv_def pv_def sv_def f)
  have keys: "gkey s' = gkey s" "rkey s' = rkey s" "skey s' = skey s" "mkey s' = mkey s" "okey s' = okey s"
    by (auto simp: fun_eq_iff gkey_def rkey_def skey_def mkey_def okey_def f split: recieve_right.splits)
  show "kindex (gv s') (gkey s')" "kindex (pv s') (rkey s')" "lindex (sv s') (skey s')" "lindex sl' (mkey s')"
      "lindex (mo_rights s') (okey s')"
    using I m by (simp_all add: v keys f inv_gv inv_pv inv_sv inv_mo)
  show "right_ok s' r" if "r \<in> k_rights s'" for r using inv_right[OF I, of r] that by (simp add: right_ok_def f)
  show "shared_ok s' h" if "h \<in> k_shared s'" for h using inv_shared[OF I, of h] that by (simp add: shared_ok_def f keys)
  show "port_ok s' p" for p using inv_port[OF I, of p] q(2) by (auto simp: port_ok_def f keys)
  show "group_ok s' g" for g using inv_group[OF I, of g] by (simp add: group_ok_def f keys)
  show "lists_ok s'" using inv_lists[OF I] by (simp add: lists_ok_def f)
  show "ids_ok s'" using inv_ids[OF I] by (simp add: ids_ok_def f keys)
qed (use q m in auto)

section \<open>Dead rights\<close>

text \<open>An operation on a dead right that moves it between the queue, the message and read-copy-update.\<close>

lemma dead_right_inv:
  assumes I: "ipc_inv_but X sl s" and k: "r \<in> k_rights s" and d: "\<not> r_alive (rights s r)" "\<not> r_alive x"
    and s': "s' = s\<lparr>rights := (rights s)(r := x), rcu_rights := R, ports := P\<rparr>"
    and same: "r_parent x = r_parent (rights s r)" "r_type x = r_type (rights s r)" "r_shared x = r_shared (rights s r)"
      "right_parent_id x = right_parent_id (rights s r)"
    and P: "\<And>p. po_alive (P p) = po_alive (ports s p)" "\<And>p. po_rights (P p) = po_rights (ports s p)"
      "\<And>p. po_current_right_id (P p) = po_current_right_id (ports s p)"
    and R: "R = rcu_rights s \<or> R = r # rcu_rights s \<and> r \<notin> set (rcu_rights s)"
      "r_sent x \<Longrightarrow> r \<notin> set R" "r \<notin> set R \<Longrightarrow> r_sent x \<or> of_message x"
    and q: "r_sent x \<Longrightarrow> r_sent (rights s r)" "lindex (qv s') (qkey_but X' s')" and sl: "lindex sl' (mkey s')"
  shows "ipc_inv_but X' sl' s'"
proof (rule ipc_invI)
  have v: "gv s' = gv s" "pv s' = pv s" "sv s' = sv s" by (auto simp: s' gv_def pv_def sv_def P)
  have keys: "gkey s' = gkey s" "rkey s' = rkey s" "skey s' = skey s" "okey s' = okey s"
    using d by (auto simp: fun_eq_iff gkey_def rkey_def skey_def okey_def s' split: recieve_right.splits)
  show "kindex (gv s') (gkey s')" "kindex (pv s') (rkey s')" "lindex (sv s') (skey s')"
    using I by (simp_all add: v keys inv_gv inv_pv inv_sv)
  show "lindex (mo_rights s') (okey s')" using inv_mo[OF I] unfolding keys by (simp add: s')
  show "right_ok s' r'" if "r' \<in> k_rights s'" for r'
    using inv_right[OF I, of r'] that d R by (cases "r' = r") (auto simp: right_ok_def s' same)
  show "shared_ok s' h" if "h \<in> k_shared s'" for h
    using inv_shared[OF I, of h] that unfolding shared_ok_def keys by (simp add: s')
  have "qkey s' x = Some p \<Longrightarrow> qkey s x = Some p" for x p
    using q(1) k by (auto simp: qkey_def s' same split: generic_message.splits if_splits)
  then show "port_ok s' p" for p
    using inv_port[OF I, of p] unfolding port_ok_def keys by (auto simp: s' P)
  show "group_ok s' g" for g using inv_group[OF I, of g] unfolding group_ok_def keys by (simp add: s')
  show "lists_ok s'" using inv_lists[OF I] R(1) k by (auto simp: lists_ok_def s')
  show "ids_ok s'" using inv_ids[OF I] unfolding ids_ok_def keys by (simp add: s' P)
  show "msg_ok s'" using inv_msg[OF I] by (simp add: msg_ok_def s')
qed (use q sl in auto)

text \<open>A dead right is let go by the message that held it: the queue has it, or it is reclaimed.\<close>

lemma release_inv:
  assumes I: "ipc_inv_but X sl s" and m: "mkey s r = Some m" and sl: "lindex sl' ((mkey s)(r := None))" and d: "\<not> r_alive (rights s r)"
  shows "ipc_inv_but X sl' (if r_sent (rights s r) then upd_right r (\<lambda>x. x\<lparr>of_message := False\<rparr>) s else rcu_push r s)"
    and "\<not> r_sent (rights s r) \<Longrightarrow> ipc_inv_but X sl' (rcu_push r (upd_right r (\<lambda>x. x\<lparr>of_message := False\<rparr>) s))"
proof -
  have r: "r \<in> k_rights s" "of_message (rights s r)" "r \<notin> set (rcu_rights s)"
    using m by (auto simp: mkey_def split: if_splits)
  let ?s = "\<lambda>x R. s\<lparr>rights := (rights s)(r := x), rcu_rights := R, ports := ports s\<rparr>"
  have "ipc_inv_but X sl' (?s x R)"
    if x: "x = (rights s r)\<lparr>of_message := b\<rparr>" and R: "R = (if r_sent x then rcu_rights s else r # rcu_rights s)"
      and b: "b \<Longrightarrow> \<not> r_sent x" for x R b
  proof (rule dead_right_inv[OF I r(1) d _ refl])
    have "qkey_but X (?s x R) = qkey_but X s"
      by (auto simp: fun_eq_iff qkey_but_def qkey_def x split: generic_message.splits)
    then show "lindex (qv (?s x R)) (qkey_but X (?s x R))"
      using inv_qv[OF I] by (simp add: qv_def[abs_def])
    have "mkey (?s x R) = (mkey s)(r := None)" using b R by (auto simp: fun_eq_iff mkey_def x)
    then show "lindex sl' (mkey (?s x R))" using sl by simp
  qed (use x R b r d in \<open>auto split: if_splits\<close>)
  from this[OF refl refl, of True] this[OF refl refl, of False]
  show "ipc_inv_but X sl' (if r_sent (rights s r) then upd_right r (\<lambda>x. x\<lparr>of_message := False\<rparr>) s else rcu_push r s)"
    "\<not> r_sent (rights s r) \<Longrightarrow> ipc_inv_but X sl' (rcu_push r (upd_right r (\<lambda>x. x\<lparr>of_message := False\<rparr>) s))"
    using r(2) by (auto simp: upd_right_def rcu_push_def fun_upd_idem)
qed

section \<open>Deleting a message\<close>

text \<open>
  The port whose lock is held, if any, must not be one that a right of the message notifies when it is
  destroyed: the port of a shared receive right, or the port that watches a right.
\<close>

definition lock_safe :: "nat option \<Rightarrow> nat \<Rightarrow> ipc \<Rightarrow> bool" where
  "lock_safe held r s \<longleftrightarrow>
     (r_type (rights s r) = SendMany \<and> r_alive (rights s r) \<longrightarrow>
        (notification_port (rights s r) \<longrightarrow> held \<noteq> Some (r_parent (rights s r))) \<and>
        held \<noteq> Some (s_parent (shareds s (r_shared (rights s r)))))"

lemma lock_safe_free: "lock_safe held r s \<Longrightarrow> r_alive (rights s r) \<Longrightarrow> lock_free held DeletedByReceiver r s"
  by (auto simp: lock_safe_def lock_free_def split: RightType.splits)

lemma lock_safe_None [simp]: "lock_safe None r s"
  by (simp add: lock_safe_def)

text \<open>What the rest of the deletion needs of the state after one right of the message was destroyed.\<close>

definition others_same :: "nat \<Rightarrow> ipc \<Rightarrow> ipc \<Rightarrow> bool" where
  "others_same r s s' \<longleftrightarrow>
     (\<forall>r'. r' \<noteq> r \<longrightarrow> rights s' r' = rights s r') \<and> k_msgs s' = k_msgs s \<and> msgs s' = msgs s \<and>
     (\<forall>h. s_parent (shareds s' h) = s_parent (shareds s h))"

lemma destroyed_others: "destroyed r s s' \<Longrightarrow> others_same r s s'"
  by (auto simp: destroyed_def others_same_def)

lemma destroy_deleting_inv:
  assumes I: "ipc_inv_but X sl s" and sl: "sl m = r # xs" and X: "X \<noteq> Some (QRight r)" "\<And>h. X \<noteq> Some (QShared h)"
    and L: "lock_safe held r s"
  obtains s' where "destroy_deleting_message held r s = Some s'" "ipc_inv_but X (sl(m := xs)) s'" "others_same r s s'"
proof -
  have m: "mkey s r = Some m" using lindexD[OF inv_sl[OF I], of r m] sl by simp
  then have r: "r \<in> k_rights s" "of_message (rights s r)" "r \<notin> set (rcu_rights s)"
    by (auto simp: mkey_def split: if_splits)
  obtain b s1 where s1: "destroy_nolock held r DeletedByReceiver None s = Some (b, s1)" "ipc_inv_but X sl s1"
      "others_same r s s1" "\<not> r_alive (rights s1 r)" "of_message (rights s1 r)"
  proof (cases "r_alive (rights s r)")
    case True
    then have "\<not> not_matching None (rights s r)" by (simp add: not_matching_def)
    from destroy_nolock_inv[where held = held and reason = DeletedByReceiver, OF I r(1) X lock_safe_free[OF L] this]
    obtain s1 where "destroy_nolock held r DeletedByReceiver None s = Some (True, s1)" "ipc_inv_but X sl s1" "destroyed r s s1"
      by blast
    then show ?thesis using that r destroyed_others[of r s s1] by (auto simp: destroyed_def)
  next
    case False
    then have "not_matching None (rights s r)" by (simp add: not_matching_def)
    from destroy_nolock_dead[OF this] show ?thesis
      using that[of False s] I False r by (simp add: others_same_def)
  qed
  have m1: "mkey s1 r = Some m" using lindexD[OF inv_sl[OF s1(2)], of r m] sl by simp
  let ?u = "upd_right r (\<lambda>x. x\<lparr>of_message := False\<rparr>) s1"
  let ?s' = "if \<not> r_sent (rights s1 r) then rcu_push r ?u else ?u"
  show ?thesis
  proof
    show "destroy_deleting_message held r s = Some ?s'"
      by (simp add: destroy_deleting_message_def s1 Let_def)
    have "lindex (sl(m := xs)) ((mkey s1)(r := None))" by (rule lindex_tl[OF inv_sl[OF s1(2)] sl])
    from release_inv[OF s1(2) m1 this s1(4)] show "ipc_inv_but X (sl(m := xs)) ?s'" by auto
    show "others_same r s ?s'" using s1(3) by (simp add: others_same_def)
  qed
qed

lemma delete_rights_inv:
  assumes "ipc_inv_but (Some (QMessage m)) sl s" "sl m = somes L" "\<And>r. r \<in> set (somes L) \<Longrightarrow> lock_safe held r s"
  obtains s' where "delete_rights held L s = Some s'" "ipc_inv_but (Some (QMessage m)) (sl(m := [])) s'"
    "k_msgs s' = k_msgs s" "msgs s' = msgs s"
  using assms
proof (induction L arbitrary: s sl thesis)
  case Nil
  show ?case using Nil.prems(1)[of s] Nil.prems(2,3) fun_upd_idem[of sl m "[]"] by simp
next
  case (Cons x L)
  show ?case
  proof (cases x)
    case None
    then show ?thesis using Cons.IH[OF Cons.prems(1) Cons.prems(2)] Cons.prems(3,4) by simp
  next
    case (Some r)
    have sl: "sl m = r # somes L" using Cons.prems(3) Some by simp
    have d: "r \<notin> set (somes L)" using lindex_distinct[OF inv_sl[OF Cons.prems(2)], of m] sl by simp
    obtain s1 where s1: "destroy_deleting_message held r s = Some s1"
        "ipc_inv_but (Some (QMessage m)) (sl(m := somes L)) s1" "others_same r s s1"
      using destroy_deleting_inv[where held = held, OF Cons.prems(2) sl] Cons.prems(4)[of r] Some by auto
    have "lock_safe held r' s1" if "r' \<in> set (somes L)" for r'
    proof -
      have "r' \<noteq> r" using that d by blast
      then show ?thesis using s1(3) Cons.prems(4)[of r'] that Some by (simp add: lock_safe_def others_same_def)
    qed
    then obtain s2 where s2: "delete_rights held L s1 = Some s2"
        "ipc_inv_but (Some (QMessage m)) ((sl(m := somes L))(m := [])) s2" "k_msgs s2 = k_msgs s1" "msgs s2 = msgs s1"
      using Cons.IH[OF _ s1(2)] by (metis fun_upd_same)
    show ?thesis
    proof (rule Cons.prems(1)[of s2])
      show "ipc_inv_but (Some (QMessage m)) (sl(m := [])) s2" using s2(2) by (simp only: fun_upd_upd)
    qed (use s1 s2 Some in \<open>simp_all add: others_same_def\<close>)
  qed
qed

lemma message_delete_self_inv:
  assumes I: "ipc_inv_but (Some (QMessage m)) (slots s) s" and k: "m \<in> k_msgs s"
    and L: "\<And>r. r \<in> set (slots s m) \<Longrightarrow> lock_safe held r s"
  obtains s' where "message_delete_self held m s = Some s'" "ipc_inv s'"
proof -
  let ?L = "m_reply_right (msgs s m) # m_rights (msgs s m)"
  have sl: "slots s m = somes ?L" using k by (simp add: slots_def)
  obtain s1 where s1: "delete_rights held ?L s = Some s1" "ipc_inv_but (Some (QMessage m)) ((slots s)(m := [])) s1"
      "k_msgs s1 = k_msgs s" "msgs s1 = msgs s"
    using delete_rights_inv[OF I sl, of held] L sl by auto
  let ?s' = "s1\<lparr>k_msgs := k_msgs s1 - {m}\<rparr>"
  have q: "qkey_but None ?s' = qkey_but (Some (QMessage m)) s1" "\<And>x p. qkey ?s' x = Some p \<Longrightarrow> qkey s1 x = Some p"
    by (auto simp: fun_eq_iff qkey_but_def qkey_def split: generic_message.splits if_splits)
  have sl': "slots ?s' = (slots s)(m := [])" by (auto simp: slots_def s1)
  have "ipc_inv ?s'"
    unfolding sl'
  proof (rule message_step_inv[OF s1(2)])
    show "lindex (qv ?s') (qkey_but None ?s')" using inv_qv[OF s1(2)] unfolding q(1) by (simp add: qv_def[abs_def])
    show "msg_ok ?s'" using inv_msg[OF s1(2)] by (simp add: msg_ok_def)
  qed (use q(2) inv_sl[OF s1(2)] in auto)
  then show ?thesis using that[of ?s'] by (simp add: message_delete_self_def s1(1))
qed

section \<open>Taking the front of a queue\<close>

lemma dequeue_inv:
  assumes I: "ipc_inv s" and q: "msg_queue (ports s p) = x # xs"
  shows "ipc_inv_but (Some x) (slots s) (upd_port p (\<lambda>q. q\<lparr>msg_queue := xs\<rparr>) s)" "qkey s x = Some p"
proof -
  let ?s' = "upd_port p (\<lambda>q. q\<lparr>msg_queue := xs\<rparr>) s"
  have v: "qv ?s' = (qv s)(p := xs)" "qv s p = x # xs" using q by (auto simp: qv_def)
  have k: "qkey_but (Some x) ?s' = (qkey_but None s)(x := None)" "qkey ?s' = qkey s"
    by (auto simp: fun_eq_iff qkey_but_def qkey_def split: generic_message.splits)
  show "ipc_inv_but (Some x) (slots s) ?s'"
  proof (rule message_step_inv[OF I])
    show "lindex (qv ?s') (qkey_but (Some x) ?s')" unfolding v(1) k by (rule lindex_tl[OF inv_qv[OF I] v(2)])
    show "msg_ok ?s'" using inv_msg[OF I] by (simp add: msg_ok_def)
  qed (use inv_sl[OF I] k in auto)
  show "qkey s x = Some p" using lindexD[OF inv_qv[OF I], of x p] v(2) by (simp add: qkey_but_def)
qed

lemma right_delete_self_inv:
  assumes I: "ipc_inv_but (Some (QRight r)) sl s" and k: "r \<in> k_rights s" "r_sent (rights s r)"
  obtains s' where "right_delete_self r s = Some s'" "ipc_inv_but None sl s'" "slots s' = slots s"
proof -
  have d: "\<not> r_alive (rights s r)" "r \<notin> set (rcu_rights s)" using inv_right[OF I k(1)] k(2) by (auto simp: right_ok_def)
  let ?x = "(rights s r)\<lparr>r_sent := False\<rparr>"
  let ?R = "if of_message (rights s r) then rcu_rights s else r # rcu_rights s"
  let ?s' = "s\<lparr>rights := (rights s)(r := ?x), rcu_rights := ?R, ports := ports s\<rparr>"
  have "ipc_inv_but None sl ?s'"
  proof (rule dead_right_inv[OF I k(1) d(1) _ refl])
    have "qkey_but None ?s' = qkey_but (Some (QRight r)) s"
      by (auto simp: fun_eq_iff qkey_but_def qkey_def split: generic_message.splits)
    then show "lindex (qv ?s') (qkey_but None ?s')" using inv_qv[OF I] by (simp add: qv_def[abs_def])
    have "mkey ?s' r' = mkey s r'" for r' by (cases "r' = r") (simp_all add: mkey_def)
    then have "mkey ?s' = mkey s" by blast
    then show "lindex sl (mkey ?s')" using inv_sl[OF I] by simp
  qed (use d in \<open>auto split: if_splits\<close>)
  then show ?thesis using that[of ?s'] d k slots_cong[of ?s' s] by (simp add: right_delete_self_def Let_def upd_right_def rcu_push_def)
qed

text \<open>Steps that only move a dead shared receive right towards its end.\<close>

lemma dead_shared_inv:
  assumes I: "ipc_inv_but X sl s" and k: "h \<in> k_shared s" and d: "\<not> s_alive (shareds s h)"
    and y: "\<not> s_alive y" "send_many_rights y = send_many_rights (shareds s h)" "s_parent y = s_parent (shareds s h)"
      "s_parent_id y = s_parent_id (shareds s h)" "s_dying y \<Longrightarrow> s_dying (shareds s h) \<and> \<not> s_queued y"
      "\<not> s_dying y \<Longrightarrow> sv s h = []"
    and R: "R = rcu_shared s \<or> R = h # rcu_shared s \<and> h \<notin> set (rcu_shared s)" "h \<in> set R \<longleftrightarrow> \<not> s_dying y \<and> \<not> s_queued y"
    and s': "s' = s\<lparr>shareds := (shareds s)(h := y), rcu_shared := R\<rparr>"
    and q: "qkey_but X' s' = qkey_but X s" "s_queued y \<Longrightarrow> s_queued (shareds s h)"
  shows "ipc_inv_but X' sl s'"
proof (rule ipc_invI)
  have v: "gv s' = gv s" "pv s' = pv s" "qv s' = qv s" "sv s' = sv s"
    by (auto simp: s' gv_def pv_def qv_def sv_def y)
  have keys: "gkey s' = gkey s" "rkey s' = rkey s" "skey s' = skey s" "mkey s' = mkey s" "okey s' = okey s"
    using d y by (auto simp: fun_eq_iff gkey_def rkey_def skey_def mkey_def okey_def s' split: recieve_right.splits)
  show "kindex (gv s') (gkey s')" "kindex (pv s') (rkey s')" "lindex (qv s') (qkey_but X' s')" "lindex (sv s') (skey s')" "lindex sl (mkey s')"
    using I by (simp_all add: v keys q inv_gv inv_pv inv_qv inv_sv inv_sl)
  show "lindex (mo_rights s') (okey s')" unfolding keys using inv_mo[OF I] by (simp add: s')
  show "right_ok s' r" if r: "r \<in> k_rights s'" for r
  proof -
    have "s_dying y" if "skey s r = Some h"
      using that lindexD[OF inv_sv[OF I], of r h] y(6) by (cases "s_dying y") auto
    then show ?thesis using inv_right[OF I, of r] r d y by (auto simp: right_ok_def s' skey_def)
  qed
  show "shared_ok s' h'" if "h' \<in> k_shared s'" for h'
    using inv_shared[OF I, of h'] that d y R by (cases "h' = h") (auto simp: shared_ok_def s' keys[unfolded s'])
  have "qkey s' x = Some p \<Longrightarrow> qkey s x = Some p" for x p
    using q(2) k by (auto simp: qkey_def s' y split: generic_message.splits if_splits)
  then show "port_ok s' p" for p using inv_port[OF I, of p] unfolding port_ok_def keys by (auto simp: s')
  show "group_ok s' g" for g using inv_group[OF I, of g] unfolding group_ok_def keys by (simp add: s')
  show "lists_ok s'" using inv_lists[OF I] R(1) k by (auto simp: lists_ok_def s')
  show "ids_ok s'" using inv_ids[OF I] unfolding ids_ok_def keys by (simp add: s')
  show "msg_ok s'" using inv_msg[OF I] by (simp add: msg_ok_def s')
qed

lemma empty_shared:
  assumes I: "ipc_inv_but X sl s" and k: "h \<in> k_shared s" and d: "\<not> s_alive (shareds s h)" "\<not> s_dying (shareds s h)"
  shows "sv s h = []"
proof (rule ccontr)
  assume "sv s h \<noteq> []"
  then have "hd (sv s h) \<in> set (sv s h)" by simp
  then have "skey s (hd (sv s h)) = Some h" using lindexD[OF inv_sv[OF I]] by blast
  then show False using inv_right[OF I, of "hd (sv s h)"] d by (auto simp: skey_def right_ok_def split: if_splits)
qed

lemma shared_delete_self_inv:
  assumes I: "ipc_inv_but (Some (QShared h)) sl s" and k: "h \<in> k_shared s" "s_queued (shareds s h)"
  obtains s' where "shared_delete_self h s = Some s'" "ipc_inv_but None sl s'" "slots s' = slots s"
proof -
  have d: "\<not> s_alive (shareds s h)" "\<not> s_dying (shareds s h)" "h \<notin> set (rcu_shared s)"
    using inv_shared[OF I k(1)] k(2) by (auto simp: shared_ok_def)
  note e = empty_shared[OF I k(1) d(1,2)]
  let ?y = "(shareds s h)\<lparr>s_queued := False\<rparr>"
  let ?s' = "s\<lparr>shareds := (shareds s)(h := ?y), rcu_shared := h # rcu_shared s\<rparr>"
  have "qkey_but None ?s' = qkey_but (Some (QShared h)) s"
    by (auto simp: fun_eq_iff qkey_but_def qkey_def split: generic_message.splits)
  then have "ipc_inv_but None sl ?s'"
    by (intro dead_shared_inv[OF I k(1) d(1) _ _ _ _ _ _ _ _ refl]) (use d e in auto)
  then show ?thesis
    using that[of ?s'] d e slots_cong[of ?s' s] by (simp add: shared_delete_self_def Let_def upd_shared_def shared_rcu_push_def sv_def)
qed

lemma remove_front_inv:
  assumes I: "ipc_inv s" and q: "msg_queue (ports s p) = x # xs"
    and L: "\<And>m r. x = QMessage m \<Longrightarrow> r \<in> set (slots s m) \<Longrightarrow> lock_safe held r s"
  obtains s' where "remove_front held p s = Some s'" "ipc_inv s'"
proof -
  let ?s = "upd_port p (\<lambda>q. q\<lparr>msg_queue := xs\<rparr>) s"
  note D = dequeue_inv[OF I q]
  have sl: "slots ?s = slots s" by (rule slots_cong) simp_all
  show ?thesis
  proof (cases x)
    case (QMessage m)
    have m: "m \<in> k_msgs ?s" using D(2) QMessage by (auto simp: qkey_def split: if_splits)
    have "lock_safe held r ?s" if "r \<in> set (slots ?s m)" for r
      using L[OF QMessage, of r] that unfolding sl by (simp add: lock_safe_def)
    moreover have "ipc_inv_but (Some (QMessage m)) (slots ?s) ?s" using D(1) unfolding sl QMessage .
    ultimately obtain s' where "message_delete_self held m ?s = Some s'" "ipc_inv s'"
      using message_delete_self_inv[OF _ m] by metis
    then show ?thesis using that[of s'] QMessage q by (simp add: remove_front_def delete_self_def)
  next
    case (QRight r)
    have m: "r \<in> k_rights ?s" "r_sent (rights ?s r)" using D(2) QRight by (auto simp: qkey_def split: if_splits)
    obtain s' where "right_delete_self r ?s = Some s'" "ipc_inv_but None (slots s) s'" "slots s' = slots ?s"
      using right_delete_self_inv[OF D(1)[unfolded QRight] m] by metis
    then show ?thesis using that[of s'] QRight q by (simp add: remove_front_def delete_self_def sl)
  next
    case (QShared h)
    have m: "h \<in> k_shared ?s" "s_queued (shareds ?s h)" using D(2) QShared by (auto simp: qkey_def split: if_splits)
    obtain s' where "shared_delete_self h ?s = Some s'" "ipc_inv_but None (slots s) s'" "slots s' = slots ?s"
      using shared_delete_self_inv[OF D(1)[unfolded QShared] m] by metis
    then show ?thesis using that[of s'] QShared q by (simp add: remove_front_def delete_self_def sl)
  qed
qed

section \<open>New rights\<close>

text \<open>
  A new right is held by a task group or by a message, and it has a receiver: a port, a shared receive
  right that is new or has other rights already, or a memory object. The two are independent.
\<close>

definition joins_holder :: "(nat \<Rightarrow> nat list) \<Rightarrow> (nat \<Rightarrow> nat list) \<Rightarrow> nat \<Rightarrow> right \<Rightarrow> ipc \<Rightarrow> ipc \<Rightarrow> bool" where
  "joins_holder sl sl' r x s s' \<longleftrightarrow>
     (if of_message x
      then gv s' = gv s \<and> lindex sl' ((mkey s)(r := Some (parent_message x)))
      else sl' = sl \<and> gv s' = gv (group_insert (parent_group x) (right_sender_id x) r s) \<and>
           g_alive (groups s (parent_group x)) \<and> (\<forall>y. gkey s y \<noteq> Some (parent_group x, right_sender_id x)) \<and>
           right_sender_id x \<le> g_current_right_id (groups s' (parent_group x)))"

definition joins_receiver :: "nat \<Rightarrow> right \<Rightarrow> ipc \<Rightarrow> ipc \<Rightarrow> bool" where
  "joins_receiver r x s s' \<longleftrightarrow>
     (case r_type x of
        SendOnce \<Rightarrow>
          pv s' = pv (insert_right (r_parent x) (right_parent_id x) (RR r) s) \<and> po_alive (ports s (r_parent x)) \<and>
          right_parent_id x \<noteq> 0 \<and> (\<forall>y. rkey s y \<noteq> Some (r_parent x, right_parent_id x)) \<and>
          right_parent_id x \<le> po_current_right_id (ports s' (r_parent x)) \<and>
          shareds s' = shareds s \<and> k_shared s' = k_shared s \<and> mo_rights s' = mo_rights s
      | SendMany \<Rightarrow>
          \<not> notification_port x \<and> mo_rights s' = mo_rights s \<and>
          (let h = r_shared x in
           if h \<in> k_shared s
           then pv s' = pv s \<and> k_shared s' = k_shared s \<and> s_alive (shareds s h) \<and>
                shareds s' = (shareds s)(h := (shareds s h)\<lparr>send_many_rights := send_many_rights (shareds s h) @ [r]\<rparr>)
           else \<exists>p i. shareds s' = (shareds s)(h := new_shared r p i) \<and> k_shared s' = insert h (k_shared s) \<and>
                pv s' = pv (insert_right p i (RS h) s) \<and> po_alive (ports s p) \<and> i \<noteq> 0 \<and>
                (\<forall>y. rkey s y \<noteq> Some (p, i)) \<and> i \<le> po_current_right_id (ports s' p))
      | MemObject \<Rightarrow>
          pv s' = pv s \<and> shareds s' = shareds s \<and> k_shared s' = k_shared s \<and>
          mo_rights s' = mo_rights (mo_insert (mem_object x) r s))"

text \<open>The state of everything else.\<close>

definition birth :: "nat \<Rightarrow> right \<Rightarrow> ipc \<Rightarrow> ipc \<Rightarrow> bool" where
  "birth r x s s' \<longleftrightarrow>
     r \<notin> k_rights s \<and> r_alive x \<and> \<not> r_sent x \<and>
     rights s' = (rights s)(r := x) \<and> k_rights s' = insert r (k_rights s) \<and> msgs s' = msgs s \<and> k_msgs s' = k_msgs s \<and>
     k_ports s' = k_ports s \<and> k_groups s' = k_groups s \<and> rcu_rights s' = rcu_rights s \<and> rcu_shared s' = rcu_shared s \<and>
     rcu_ports s' = rcu_ports s \<and> rcu_groups s' = rcu_groups s \<and> qv s' = qv s \<and>
     (\<forall>p. po_alive (ports s' p) = po_alive (ports s p) \<and>
          po_current_right_id (ports s p) \<le> po_current_right_id (ports s' p)) \<and>
     (\<forall>g. g_alive (groups s' g) = g_alive (groups s g) \<and>
          g_current_right_id (groups s g) \<le> g_current_right_id (groups s' g))"

lemma birth_keys:
  assumes I: "ipc_inv_but X sl s" and B: "birth r x s s'"
  shows "gkey s' = (gkey s)(r := if of_message x then None else Some (parent_group x, right_sender_id x))"
    "mkey s' = (mkey s)(r := if of_message x then Some (parent_message x) else None)"
    "skey s' = (skey s)(r := if r_type x = SendMany then Some (r_shared x) else None)"
    "okey s' = (okey s)(r := if r_type x = MemObject then Some (mem_object x) else None)"
    "gkey s r = None" "mkey s r = None" "skey s r = None" "okey s r = None" "r \<notin> set (rcu_rights s)"
proof -
  show "r \<notin> set (rcu_rights s)" using inv_lists[OF I] B by (auto simp: lists_ok_def birth_def)
  then show "mkey s' = (mkey s)(r := if of_message x then Some (parent_message x) else None)"
    using B by (auto simp: fun_eq_iff mkey_def birth_def)
qed (use B in \<open>auto simp: fun_eq_iff gkey_def skey_def okey_def mkey_def birth_def\<close>)

lemma holder_parts:
  assumes I: "ipc_inv_but X sl s" and B: "birth r x s s'" and H: "joins_holder sl sl' r x s s'"
  shows "kindex (gv s') (gkey s')" "lindex sl' (mkey s')" "group_ok s' g"
    "gkey s' y = Some (g, i) \<Longrightarrow> i \<le> g_current_right_id (groups s' g)"
proof -
  note K = birth_keys[OF I B]
  show "kindex (gv s') (gkey s')"
    using H inv_gv[OF I] gt.index_ins[OF inv_gv[OF I] K(5)] K(5)
    by (cases "of_message x") (simp_all add: joins_holder_def K(1) fun_upd_idem)
  show "lindex sl' (mkey s')"
    using H inv_sl[OF I] K(6) by (cases "of_message x") (simp_all add: joins_holder_def K(2) fun_upd_idem)
  show "group_ok s' g"
    using inv_group[OF I, of g] H B by (auto simp: group_ok_def K(1) birth_def joins_holder_def split: if_splits)
  show "gkey s' y = Some (g, i) \<Longrightarrow> i \<le> g_current_right_id (groups s' g)"
  proof (cases "y = r")
    case True
    then show "gkey s' y = Some (g, i) \<Longrightarrow> i \<le> g_current_right_id (groups s' g)"
      using H by (auto simp: K(1) joins_holder_def split: if_splits)
  next
    case False
    assume "gkey s' y = Some (g, i)"
    then have "i \<le> g_current_right_id (groups s g)" using inv_ids[OF I] False by (auto simp: K(1) ids_ok_def)
    also have "\<dots> \<le> g_current_right_id (groups s' g)" using B by (simp add: birth_def)
    finally show "i \<le> g_current_right_id (groups s' g)" .
  qed
qed

lemma sv_unknown:
  assumes "ipc_inv_but X sl s" "h \<notin> k_shared s"
  shows "sv s h = []" "skey s r \<noteq> Some h"
proof -
  show *: "skey s r \<noteq> Some h" for r
    using assms(2) inv_right[OF assms(1), of r] by (auto simp: skey_def right_ok_def)
  have "x \<notin> set (sv s h)" for x using lindexD[OF inv_sv[OF assms(1)], of x h] * by simp
  then show "sv s h = []" by (metis hd_in_set)
qed

lemma birth_rkey:
  assumes B: "birth r x s s'" and J: "joins_receiver r x s s'"
  obtains y k where "rkey s y = None" "rkey s' = (rkey s)(y := k)"
    "k = None \<longrightarrow> pv s' = pv s"
    "\<And>p i. k = Some (p, i) \<Longrightarrow> pv s' = pv (insert_right p i y s) \<and> po_alive (ports s p) \<and> (\<forall>z. rkey s z \<noteq> Some (p, i)) \<and>
       i \<le> po_current_right_id (ports s' p)"
proof -
  have r: "rkey s (RR r) = None" using B by (simp add: rkey_def birth_def)
  show ?thesis
  proof (cases "r_type x")
    case SendOnce
    have "rkey s' = (rkey s)(RR r := Some (r_parent x, right_parent_id x))"
      using B J SendOnce by (auto simp: fun_eq_iff rkey_def birth_def joins_receiver_def split: recieve_right.splits)
    then show ?thesis using that[of "RR r" "Some (r_parent x, right_parent_id x)"] r J SendOnce by (simp add: joins_receiver_def)
  next
    case MemObject
    have "rkey s' = (rkey s)(RR r := None)"
      using B J MemObject by (auto simp: fun_eq_iff rkey_def birth_def joins_receiver_def split: recieve_right.splits)
    then show ?thesis using that[of "RR r" None] r J MemObject by (simp add: joins_receiver_def)
  next
    case SendMany
    let ?h = "r_shared x"
    show ?thesis
    proof (cases "?h \<in> k_shared s")
      case True
      have "rkey s' = (rkey s)(RR r := None)"
        using B J SendMany True
        by (auto simp: fun_eq_iff rkey_def birth_def joins_receiver_def Let_def split: recieve_right.splits)
      then show ?thesis using that[of "RR r" None] r J SendMany True by (simp add: joins_receiver_def Let_def)
    next
      case False
      obtain p i where p: "shareds s' = (shareds s)(?h := new_shared r p i)" "k_shared s' = insert ?h (k_shared s)"
          "pv s' = pv (insert_right p i (RS ?h) s)" "po_alive (ports s p)" "\<forall>y. rkey s y \<noteq> Some (p, i)"
          "i \<le> po_current_right_id (ports s' p)" "\<not> notification_port x"
        using J SendMany False by (auto simp: joins_receiver_def Let_def)
      have "rkey s (RS ?h) = None" using False by (simp add: rkey_def)
      moreover have "rkey s' = (rkey s)(RS ?h := Some (p, i))"
        using B SendMany False p
        by (auto simp: fun_eq_iff rkey_def birth_def new_shared_def split: recieve_right.splits)
      ultimately show ?thesis using that[of "RS ?h" "Some (p, i)"] p by simp
    qed
  qed
qed

lemma receiver_ports:
  assumes I: "ipc_inv_but X sl s" and B: "birth r x s s'" and J: "joins_receiver r x s s'"
  shows "kindex (pv s') (rkey s')" "\<And>z p i. rkey s' z = Some (p, i) \<Longrightarrow> i \<le> po_current_right_id (ports s' p)"
    "\<And>p z i. p \<in> set (rcu_ports s) \<or> p \<notin> k_ports s \<Longrightarrow> rkey s' z \<noteq> Some (p, i)"
proof -
  obtain y k where y: "rkey s y = None" "rkey s' = (rkey s)(y := k)" "k = None \<longrightarrow> pv s' = pv s"
    and new: "\<And>p i. k = Some (p, i) \<Longrightarrow> pv s' = pv (insert_right p i y s) \<and> po_alive (ports s p) \<and>
       (\<forall>z. rkey s z \<noteq> Some (p, i)) \<and> i \<le> po_current_right_id (ports s' p)"
    using birth_rkey[OF B J] by blast
  show "kindex (pv s') (rkey s')"
  proof (cases k)
    case None
    then show ?thesis using y inv_pv[OF I] by (simp add: fun_upd_idem)
  next
    case (Some pi)
    then obtain p i where k: "k = Some (p, i)" by (cases pi) simp
    then show ?thesis using new[OF k] pt.index_ins[OF inv_pv[OF I] y(1)] by (simp add: y(2))
  qed
  show "\<And>z p i. rkey s' z = Some (p, i) \<Longrightarrow> i \<le> po_current_right_id (ports s' p)"
    using inv_ids[OF I] new B unfolding y(2) birth_def ids_ok_def by (metis fun_upd_apply le_trans)
  show "\<And>p z i. p \<in> set (rcu_ports s) \<or> p \<notin> k_ports s \<Longrightarrow> rkey s' z \<noteq> Some (p, i)"
    using inv_port[OF I] new unfolding y(2) port_ok_def by (metis fun_upd_apply)
qed

lemma receiver_lists:
  assumes I: "ipc_inv_but X sl s" and B: "birth r x s s'" and J: "joins_receiver r x s s'"
  shows "lindex (sv s') (skey s')" "lindex (mo_rights s') (okey s')"
proof -
  note K = birth_keys[OF I B]
  show "lindex (mo_rights s') (okey s')"
    using J inv_mo[OF I] ml.index_add[OF inv_mo[OF I] K(8)] K(8)
    by (cases "r_type x") (simp_all add: joins_receiver_def K(4) fun_upd_idem Let_def)
  show "lindex (sv s') (skey s')"
  proof (cases "r_type x = SendMany")
    case True
    have "sv s' = (sv s)(r_shared x := sv s (r_shared x) @ [r])"
    proof (cases "r_shared x \<in> k_shared s")
      case True
      then show ?thesis using J \<open>r_type x = SendMany\<close> by (auto simp: joins_receiver_def Let_def sv_def)
    next
      case False
      then show ?thesis
        using J True sv_unknown(1)[OF I False] by (auto simp: joins_receiver_def Let_def sv_def new_shared_def)
    qed
    then show ?thesis using lindex_append[OF inv_sv[OF I] K(7)] True by (simp add: K(3))
  next
    case False
    then have "sv s' = sv s" using J by (auto simp: joins_receiver_def sv_def split: RightType.splits)
    then show ?thesis using inv_sv[OF I] False K(7) by (simp add: K(3) fun_upd_idem)
  qed
qed

lemma receiver_shared:
  assumes I: "ipc_inv_but X sl s" and B: "birth r x s s'" and J: "joins_receiver r x s s'"
  shows "\<And>h. h \<in> k_shared s' \<Longrightarrow> shared_ok s' h" "k_shared s \<subseteq> k_shared s'"
    "\<And>h. h \<in> k_shared s \<Longrightarrow> s_alive (shareds s' h) = s_alive (shareds s h) \<and> s_dying (shareds s' h) = s_dying (shareds s h)"
    "r_type x = SendMany \<Longrightarrow> r_shared x \<in> k_shared s' \<and> s_alive (shareds s' (r_shared x))"
    "\<And>h. h \<in> k_shared s' \<Longrightarrow> s_queued (shareds s' h) \<Longrightarrow>
       h \<in> k_shared s \<and> s_queued (shareds s h) \<and> s_parent (shareds s' h) = s_parent (shareds s h)"
    "\<And>h. h \<in> k_shared s \<Longrightarrow> s_queued (shareds s' h) = s_queued (shareds s h) \<and> s_parent (shareds s' h) = s_parent (shareds s h)"
proof -
  note K = birth_keys[OF I B]
  have s': "shareds s' h = shareds s h \<or> h = r_shared x \<and> r_type x = SendMany \<and> s_alive (shareds s h) \<and>
      shareds s' h = (shareds s h)\<lparr>send_many_rights := send_many_rights (shareds s h) @ [r]\<rparr>" if "h \<in> k_shared s" for h
    using J that by (auto simp: joins_receiver_def Let_def split: RightType.splits if_splits)
  have new: "h = r_shared x \<and> r_type x = SendMany \<and> (\<exists>p i. shareds s' h = new_shared r p i \<and> i \<noteq> 0)"
    if "h \<in> k_shared s'" "h \<notin> k_shared s" for h
    using J that by (auto simp: joins_receiver_def Let_def split: RightType.splits if_splits) blast
  show "k_shared s \<subseteq> k_shared s'"
    using J by (auto simp: joins_receiver_def Let_def split: RightType.splits if_splits)
  show *: "s_alive (shareds s' h) = s_alive (shareds s h) \<and> s_dying (shareds s' h) = s_dying (shareds s h)"
    "s_queued (shareds s' h) = s_queued (shareds s h) \<and> s_parent (shareds s' h) = s_parent (shareds s h)"
    if "h \<in> k_shared s" for h
    using s'[OF that] by auto
  show "r_shared x \<in> k_shared s' \<and> s_alive (shareds s' (r_shared x))" if "r_type x = SendMany"
    using J that by (auto simp: joins_receiver_def Let_def new_shared_def split: if_splits)
  show "h \<in> k_shared s \<and> s_queued (shareds s h) \<and> s_parent (shareds s' h) = s_parent (shareds s h)"
    if "h \<in> k_shared s'" "s_queued (shareds s' h)" for h
    using new[OF that(1)] *(2)[of h] that(2) by (cases "h \<in> k_shared s") (auto simp: new_shared_def)
  have sk: "\<exists>r'. skey s' r' = Some h" if "\<exists>r'. skey s r' = Some h" for h
    using that K(3,7) by (metis fun_upd_apply option.distinct(1))
  show "shared_ok s' h" if "h \<in> k_shared s'" for h
  proof (cases "h \<in> k_shared s")
    case True
    have "s_parent_id (shareds s' h) = s_parent_id (shareds s h)" using s'[OF True] by auto
    then show ?thesis
      using inv_shared[OF I True] *[OF True] sk[of h] B by (auto simp: shared_ok_def birth_def)
  next
    case False
    have "h \<notin> set (rcu_shared s')" using False inv_lists[OF I] B by (auto simp: lists_ok_def birth_def)
    moreover have "skey s' r = Some h" using new[OF that False] by (simp add: K(3))
    ultimately show ?thesis using new[OF that False] by (auto simp: shared_ok_def new_shared_def)
  qed
qed

lemma birth_inv:
  assumes I: "ipc_inv_but X sl s" and B: "birth r x s s'" and H: "joins_holder sl sl' r x s s'" and J: "joins_receiver r x s s'"
  shows "ipc_inv_but X sl' s'"
proof (rule ipc_invI)
  note K = birth_keys[OF I B] and S = receiver_shared[OF I B J] and P = receiver_ports[OF I B J]
  have q: "qkey s' = qkey s"
  proof
    fix y
    show "qkey s' y = qkey s y"
    proof (cases y)
      case (QShared h)
      show ?thesis
      proof (cases "h \<in> k_shared s")
        case True
        then have "h \<in> k_shared s'" using S(2) by blast
        then show ?thesis using True S(6)[OF True] QShared by (simp add: qkey_def)
      next
        case False
        then have "\<not> (h \<in> k_shared s' \<and> s_queued (shareds s' h))" using S(5)[of h] by blast
        then show ?thesis using False QShared by (simp add: qkey_def)
      qed
    qed (use B in \<open>auto simp: qkey_def birth_def\<close>)
  qed
  then have "qkey_but X s' = qkey_but X s" by (simp add: qkey_but_def fun_eq_iff)
  then show "lindex (qv s') (qkey_but X s')" using inv_qv[OF I] B by (simp add: birth_def)
  show "right_ok s' r'" if r': "r' \<in> k_rights s'" for r'
  proof (cases "r' = r")
    case True
    then show ?thesis using B J S(4) K(9) by (auto simp: right_ok_def birth_def joins_receiver_def)
  next
    case False
    then have "right_ok s r'" using inv_right[OF I, of r'] r' B by (simp add: birth_def)
    moreover have "r_shared (rights s r') \<in> k_shared s'" "s_alive (shareds s' (r_shared (rights s r'))) = s_alive (shareds s (r_shared (rights s r')))"
        "s_dying (shareds s' (r_shared (rights s r'))) = s_dying (shareds s (r_shared (rights s r')))"
      if "r_shared (rights s r') \<in> k_shared s"
      using S(2) S(3)[OF that] that by auto
    ultimately show ?thesis using False B by (simp add: right_ok_def birth_def)
  qed
  show "port_ok s' p" for p
    using inv_port[OF I, of p] P(3)[of p] B by (auto simp: port_ok_def birth_def q)
  show "lists_ok s'" using inv_lists[OF I] B S(2) by (auto simp: lists_ok_def birth_def)
  show "ids_ok s'" using holder_parts(4)[OF I B H] P(2) by (simp add: ids_ok_def)
  show "msg_ok s'" using inv_msg[OF I] B by (simp add: msg_ok_def birth_def)
  show "shared_ok s' h" if "h \<in> k_shared s'" for h using S(1)[OF that] .
  show "group_ok s' g" for g by (rule holder_parts(3)[OF I B H])
qed (rule receiver_ports(1)[OF I B J] receiver_lists[OF I B J] holder_parts(1,2)[OF I B H])+

end
