(* ===== verification/Ipc_Create.thy ===== *)
theory Ipc_Create
  imports Ipc_Ops
begin

text \<open>Creation, watching, transfer and duplication of rights keep the invariant.\<close>

section \<open>Operations that return\<close>

text \<open>The operation returns, with a state that satisfies the invariant.\<close>

definition keeps :: "('a \<times> ipc) option \<Rightarrow> bool" where
  "keeps res \<longleftrightarrow> (\<exists>a s'. res = Some (a, s') \<and> ipc_inv s')"

lemma keeps_simps [simp]: "\<not> keeps None" "keeps (Some (a, s)) \<longleftrightarrow> ipc_inv s"
  by (simp_all add: keeps_def)

section \<open>Identifiers\<close>

text \<open>Handing out an identifier changes nothing but the counter, and the identifier is new.\<close>

lemma counters_inv:
  assumes I: "ipc_inv_but X sl s"
    and s': "s' = s\<lparr>groups := G, ports := P\<rparr>"
    and G: "\<And>g. g_alive (G g) = g_alive (groups s g)" "\<And>g. g_rights (G g) = g_rights (groups s g)"
      "\<And>g. g_current_right_id (groups s g) \<le> g_current_right_id (G g)"
    and P: "\<And>p. po_alive (P p) = po_alive (ports s p)" "\<And>p. po_rights (P p) = po_rights (ports s p)"
      "\<And>p. msg_queue (P p) = msg_queue (ports s p)" "\<And>p. po_current_right_id (ports s p) \<le> po_current_right_id (P p)"
  shows "ipc_inv_but X sl s'"
proof (rule ipc_invI)
  have v: "gv s' = gv s" "pv s' = pv s" "qv s' = qv s" "sv s' = sv s"
    by (auto simp: s' gv_def pv_def qv_def sv_def G P)
  have keys: "gkey s' = gkey s" "rkey s' = rkey s" "qkey s' = qkey s" "qkey_but X s' = qkey_but X s" "skey s' = skey s"
      "mkey s' = mkey s" "okey s' = okey s"
    by (auto simp: fun_eq_iff key_defs qkey_but_def s' split: recieve_right.splits generic_message.splits)
  show "kindex (gv s') (gkey s')" "kindex (pv s') (rkey s')" "lindex (qv s') (qkey_but X s')" "lindex (sv s') (skey s')"
      "lindex sl (mkey s')"
    using I by (simp_all add: v keys inv_gv inv_pv inv_qv inv_sv inv_sl)
  show "lindex (mo_rights s') (okey s')" unfolding keys using inv_mo[OF I] by (simp add: s')
  show "right_ok s' r" if "r \<in> k_rights s'" for r using inv_right[OF I, of r] that by (simp add: right_ok_def s')
  show "shared_ok s' h" if "h \<in> k_shared s'" for h
    using inv_shared[OF I, of h] that unfolding shared_ok_def keys by (simp add: s')
  show "port_ok s' p" for p using inv_port[OF I, of p] unfolding port_ok_def keys by (simp add: s' P)
  show "group_ok s' g" for g using inv_group[OF I, of g] unfolding group_ok_def keys by (simp add: s' G)
  show "lists_ok s'" using inv_lists[OF I] by (simp add: lists_ok_def s')
  show "ids_ok s'" using inv_ids[OF I] G(3) P(4) unfolding ids_ok_def keys by (simp add: s') (meson order_trans)
  show "msg_ok s'" using inv_msg[OF I] by (simp add: msg_ok_def s')
qed

lemma next_right_id_inv:
  assumes I: "ipc_inv_but X sl s" and n: "next_right_id g s = (i, s1)"
  shows "ipc_inv_but X sl s1" "\<And>y. gkey s1 y \<noteq> Some (g, i)" "i = g_current_right_id (groups s1 g)" "i \<noteq> 0"
    "s1 = upd_group g (\<lambda>q. q\<lparr>g_current_right_id := i\<rparr>) s"
proof -
  have s1: "s1 = upd_group g (\<lambda>q. q\<lparr>g_current_right_id := i\<rparr>) s" and i: "i = g_current_right_id (groups s g) + 1"
    using n by (auto simp: next_right_id_def Let_def)
  show "s1 = upd_group g (\<lambda>q. q\<lparr>g_current_right_id := i\<rparr>) s" "i = g_current_right_id (groups s1 g)" "i \<noteq> 0"
    using s1 i by simp_all
  have "gkey s1 = gkey s" by (simp add: fun_eq_iff gkey_def s1)
  then show "\<And>y. gkey s1 y \<noteq> Some (g, i)" using inv_ids[OF I] i by (fastforce simp: ids_ok_def)
  show "ipc_inv_but X sl s1"
    by (rule counters_inv[OF I, of _ "ports s" "groups s1"]) (use i in \<open>auto simp: s1 upd_group_def\<close>)
qed

lemma new_port_right_id_inv:
  assumes I: "ipc_inv_but X sl s" and n: "new_port_right_id p s = (i, s1)"
  shows "ipc_inv_but X sl s1" "\<And>y. rkey s1 y \<noteq> Some (p, i)" "i = po_current_right_id (ports s1 p)" "i \<noteq> 0"
    "s1 = upd_port p (\<lambda>q. q\<lparr>po_current_right_id := i\<rparr>) s"
proof -
  have s1: "s1 = upd_port p (\<lambda>q. q\<lparr>po_current_right_id := i\<rparr>) s" and i: "i = po_current_right_id (ports s p) + 1"
    using n by (auto simp: new_port_right_id_def Let_def)
  show "s1 = upd_port p (\<lambda>q. q\<lparr>po_current_right_id := i\<rparr>) s" "i = po_current_right_id (ports s1 p)" "i \<noteq> 0"
    using s1 i by simp_all
  have "rkey s1 = rkey s" by (simp add: fun_eq_iff rkey_def s1 split: recieve_right.splits)
  then show "\<And>y. rkey s1 y \<noteq> Some (p, i)" using inv_ids[OF I] i by (fastforce simp: ids_ok_def)
  show "ipc_inv_but X sl s1"
    by (rule counters_inv[OF I, of _ "ports s1" "groups s"]) (use i in \<open>auto simp: s1 upd_port_def\<close>)
qed

section \<open>Creation for a group\<close>

text \<open>The identifier a port hands out before the right is created: in range and not used.\<close>

definition fresh_id :: "nat \<Rightarrow> nat \<Rightarrow> ipc \<Rightarrow> bool" where
  "fresh_id p i s \<longleftrightarrow> i \<noteq> 0 \<and> i \<le> po_current_right_id (ports s p) \<and> (\<forall>y. rkey s y \<noteq> Some (p, i))"

lemma next_right_id_frame:
  assumes "next_right_id g s = (i, s1)"
  shows "rights s1 = rights s" "shareds s1 = shareds s" "ports s1 = ports s" "k_rights s1 = k_rights s" "k_shared s1 = k_shared s"
    "rkey s1 = rkey s" "msgs s1 = msgs s" "k_msgs s1 = k_msgs s" "slots s1 = slots s" "g_alive (groups s1 g') = g_alive (groups s g')"
proof -
  have s1: "s1 = upd_group g (\<lambda>q. q\<lparr>g_current_right_id := i\<rparr>) s" using assms by (auto simp: next_right_id_def Let_def)
  then show "slots s1 = slots s" by (intro slots_cong) simp_all
  show "rights s1 = rights s" "shareds s1 = shareds s" "ports s1 = ports s" "k_rights s1 = k_rights s" "k_shared s1 = k_shared s"
    "rkey s1 = rkey s" "msgs s1 = msgs s" "k_msgs s1 = k_msgs s" "g_alive (groups s1 g') = g_alive (groups s g')"
    using s1 by (simp_all add: fun_eq_iff rkey_def split: recieve_right.splits)
qed

lemma slots_prims [simp]:
  "slots (group_insert g i r s) = slots s" "slots (group_erase g i s) = slots s" "slots (insert_right p i x s) = slots s"
  "slots (add_right r y s) = slots s" "slots (add_shared h z s) = slots s" "slots (mo_insert b r s) = slots s"
  "slots (upd_right r fr s) = slots s" "slots (upd_shared h fs s) = slots s" "slots (rcu_push r s) = slots s"
  "slots (shared_rcu_push h s) = slots s" "slots (upd_port p fp s) = slots s" "slots (upd_group g fg s) = slots s"
  "slots (erase_right p i s) = slots s"
  by (rule slots_cong; simp)+

lemma send_once_create_inv:
  assumes I: "ipc_inv s" and i: "fresh_id p i s" and r: "\<And>r. alloc = Some r \<Longrightarrow> r \<notin> k_rights s"
  shows "keeps (send_once_create_for_group alloc p g i s)"
proof (cases "alloc = None \<or> \<not> po_alive (ports s p) \<or> \<not> g_alive (groups s g)")
  case True
  then show ?thesis using I i by (cases alloc) (auto simp: send_once_create_for_group_def fresh_id_def)
next
  case False
  then obtain r where a: "alloc = Some r" by auto
  obtain j s1 where n: "next_right_id g s = (j, s1)" by fastforce
  note N = next_right_id_inv[OF I n] and F = next_right_id_frame[OF n]
  let ?x = "(new_right SendOnce g)\<lparr>right_sender_id := j, r_parent := p, right_parent_id := i\<rparr>"
  let ?s' = "group_insert g j r (insert_right p i (RR r) (add_right r ?x s1))"
  have "birth r ?x s1 ?s'" using r a by (simp add: birth_def new_right_def F)
  moreover have "joins_holder (slots s) (slots s) r ?x s1 ?s'"
    using N(2) eq_refl[OF N(3)] False by (simp add: joins_holder_def new_right_def view_eqs F)
  moreover have "joins_receiver r ?x s1 ?s'"
    using False i by (simp add: joins_receiver_def new_right_def view_eqs F fresh_id_def)
  ultimately have "ipc_inv_but None (slots s) ?s'" using birth_inv[OF N(1)] by blast
  then show ?thesis
    using False a i n by (simp add: send_once_create_for_group_def fresh_id_def F(9))
qed

lemma send_many_create_inv:
  assumes I: "ipc_inv s" and i: "fresh_id p i s" and r: "\<And>r. alloc = Some r \<Longrightarrow> r \<notin> k_rights s"
    and h: "\<And>h. alloc_shared = Some h \<Longrightarrow> h \<notin> k_shared s"
  shows "keeps (send_many_create_for_group alloc alloc_shared p g i s)"
proof (cases "alloc = None \<or> alloc_shared = None \<or> \<not> po_alive (ports s p) \<or> \<not> g_alive (groups s g)")
  case True
  then show ?thesis using I i by (cases alloc; cases alloc_shared) (auto simp: send_many_create_for_group_def fresh_id_def)
next
  case False
  then obtain r h where a: "alloc = Some r" "alloc_shared = Some h" by auto
  obtain j s1 where n: "next_right_id g s = (j, s1)" by fastforce
  note N = next_right_id_inv[OF I n] and F = next_right_id_frame[OF n]
  let ?x = "(new_right SendMany g)\<lparr>right_sender_id := j, r_shared := h\<rparr>"
  let ?s' = "group_insert g j r (insert_right p i (RS h) (add_shared h (new_shared r p i) (add_right r ?x s1)))"
  have "birth r ?x s1 ?s'" using r a by (simp add: birth_def new_right_def F)
  moreover have "joins_holder (slots s) (slots s) r ?x s1 ?s'"
    using N(2) eq_refl[OF N(3)] False by (simp add: joins_holder_def new_right_def view_eqs F)
  moreover have "joins_receiver r ?x s1 ?s'"
    using False i h a by (auto simp: joins_receiver_def new_right_def view_eqs F fresh_id_def)
  ultimately have "ipc_inv_but None (slots s) ?s'" using birth_inv[OF N(1)] by blast
  then show ?thesis
    using False a i n by (simp add: send_many_create_for_group_def fresh_id_def F(9))
qed

lemma mem_object_create_inv:
  assumes I: "ipc_inv s" and r: "\<And>r. alloc = Some r \<Longrightarrow> r \<notin> k_rights s"
  shows "keeps (mem_object_create_for_group alloc b g perms s)"
proof (cases "alloc = None \<or> \<not> g_alive (groups s g)")
  case True
  then show ?thesis using I by (cases alloc) (auto simp: mem_object_create_for_group_def)
next
  case False
  then obtain r where a: "alloc = Some r" by auto
  obtain j s1 where n: "next_right_id g s = (j, s1)" by fastforce
  note N = next_right_id_inv[OF I n] and F = next_right_id_frame[OF n]
  let ?x = "(new_right MemObject g)\<lparr>right_sender_id := j, mem_object := b, permission_mask := perms mod 32\<rparr>"
  let ?s' = "group_insert g j r (mo_insert b r (add_right r ?x s1))"
  have "birth r ?x s1 ?s'" using r a by (simp add: birth_def new_right_def F)
  moreover have "joins_holder (slots s) (slots s) r ?x s1 ?s'"
    using N(2) eq_refl[OF N(3)] False by (simp add: joins_holder_def new_right_def view_eqs F)
  moreover have "joins_receiver r ?x s1 ?s'"
    by (simp add: joins_receiver_def new_right_def view_eqs F)
  ultimately have "ipc_inv_but None (slots s) ?s'" using birth_inv[OF N(1)] by blast
  then show ?thesis using False a n by (simp add: mem_object_create_for_group_def F(9))
qed

section \<open>Duplication\<close>

lemma duplicate_mem_inv:
  assumes I: "ipc_inv s" and r': "r' \<notin> k_rights s" and t: "r_type (rights s r) = MemObject"
  shows "ipc_inv (snd (duplicate (Some r') r g s))"
proof (cases "\<not> r_alive (rights s r) \<or> of_message (rights s r) \<or> parent_group (rights s r) \<noteq> g \<or> \<not> g_alive (groups s g)")
  case True
  then show ?thesis using I t by (auto simp: duplicate_def mem_object_duplicate_def Let_def)
next
  case False
  obtain j s1 where n: "next_right_id g s = (j, s1)" by fastforce
  note N = next_right_id_inv[OF I n] and F = next_right_id_frame[OF n]
  let ?x = "rights s r"
  let ?y = "(new_right MemObject g)\<lparr>right_sender_id := j, mem_object := mem_object ?x, permission_mask := permission_mask ?x\<rparr>"
  let ?s' = "group_insert g j r' (mo_insert (mem_object ?x) r' (add_right r' ?y s1))"
  have "birth r' ?y s1 ?s'" using r' by (simp add: birth_def new_right_def F)
  moreover have "joins_holder (slots s) (slots s) r' ?y s1 ?s'"
    using N(2) eq_refl[OF N(3)] False by (simp add: joins_holder_def new_right_def view_eqs F)
  moreover have "joins_receiver r' ?y s1 ?s'"
    by (simp add: joins_receiver_def new_right_def view_eqs F)
  ultimately have "ipc_inv_but None (slots s) ?s'" using birth_inv[OF N(1)] by blast
  then show ?thesis using False n t by (simp add: duplicate_def mem_object_duplicate_def Let_def F(9))
qed

lemma duplicate_many_inv:
  assumes I: "ipc_inv s" and k: "r \<in> k_rights s" and r': "r' \<notin> k_rights s" and t: "r_type (rights s r) = SendMany"
  shows "ipc_inv (snd (duplicate (Some r') r g s))"
proof -
  let ?x = "rights s r" and ?h = "r_shared (rights s r)"
  let ?f = "\<lambda>z. z\<lparr>send_many_rights := send_many_rights z @ [r']\<rparr>"
  show ?thesis
  proof (cases "\<not> r_alive ?x \<or> of_message ?x \<or> parent_group ?x \<noteq> g \<or> \<not> g_alive (groups s g) \<or>
      \<not> s_alive (shareds s ?h) \<or> \<not> po_alive (ports s (s_parent (shareds s ?h)))")
    case True
    then show ?thesis using I t by (auto simp: duplicate_def send_many_duplicate_def Let_def)
  next
    case False
    obtain j s1 where n: "next_right_id g s = (j, s1)" by fastforce
    note N = next_right_id_inv[OF I n] and F = next_right_id_frame[OF n]
    let ?y = "(new_right SendMany g)\<lparr>right_sender_id := j, r_shared := ?h\<rparr>"
    let ?s' = "group_insert g j r' (add_right r' ?y (upd_shared ?h ?f s1))"
    have h: "?h \<in> k_shared s" using inv_right[OF I k] t by (simp add: right_ok_def)
    have n': "next_right_id g (upd_shared ?h ?f s) = (j, upd_shared ?h ?f s1)"
      using n by (auto simp: next_right_id_def Let_def upd_shared_def upd_group_def)
    have "birth r' ?y s1 ?s'" using r' by (simp add: birth_def new_right_def F)
    moreover have "joins_holder (slots s) (slots s) r' ?y s1 ?s'"
      using N(2) eq_refl[OF N(3)] False by (simp add: joins_holder_def new_right_def view_eqs F)
    moreover have "joins_receiver r' ?y s1 ?s'"
      using False h by (simp add: joins_receiver_def new_right_def view_eqs F)
    ultimately have "ipc_inv_but None (slots s) ?s'" using birth_inv[OF N(1)] by blast
    then show ?thesis using False n' t by (simp add: duplicate_def send_many_duplicate_def Let_def F(9))
  qed
qed

lemma duplicate_inv:
  assumes "ipc_inv s" "r \<in> k_rights s" "\<And>r'. alloc = Some r' \<Longrightarrow> r' \<notin> k_rights s"
  shows "ipc_inv (snd (duplicate alloc r g s))"
  using assms duplicate_mem_inv[of s _ r g] duplicate_many_inv[of s r _ g]
  by (cases alloc; cases "r_type (rights s r)") (auto simp: duplicate_def mem_object_duplicate_def send_many_duplicate_def)

section \<open>Live rights that change hands\<close>

text \<open>
  A right that stays alive is changed: who holds it, or the port that watches it. Its type, its shared
  receive right and its memory object stay.
\<close>

lemma live_right_inv:
  assumes I: "ipc_inv_but X sl s" and k: "r \<in> k_rights s" and a: "r_alive (rights s r)"
    and f: "rights s' = (rights s)(r := x)" "r_alive x" "r_sent x = r_sent (rights s r)" "r_type x = r_type (rights s r)"
      "r_shared x = r_shared (rights s r)" "mem_object x = mem_object (rights s r)"
      "r_type x = SendOnce \<Longrightarrow> right_parent_id x \<noteq> 0"
      "k_rights s' = k_rights s" "shareds s' = shareds s" "k_shared s' = k_shared s" "mo_rights s' = mo_rights s"
      "k_ports s' = k_ports s" "k_groups s' = k_groups s" "k_msgs s' = k_msgs s"
      "rcu_rights s' = rcu_rights s" "rcu_shared s' = rcu_shared s" "rcu_ports s' = rcu_ports s" "rcu_groups s' = rcu_groups s"
      "qv s' = qv s" "\<And>p. po_alive (ports s' p) = po_alive (ports s p)" "\<And>g. g_alive (groups s' g) = g_alive (groups s g)"
      "\<And>m. m \<in> k_msgs s \<Longrightarrow> m_port (msgs s' m) = m_port (msgs s m) \<and> length (m_rights (msgs s' m)) = length (m_rights (msgs s m))"
    and own: "kindex (gv s') (gkey s')" "kindex (pv s') (rkey s')" "lindex sl' (mkey s')" "ids_ok s'"
      "\<And>p. p \<in> set (rcu_ports s) \<or> p \<notin> k_ports s \<Longrightarrow> (\<forall>y i. rkey s' y \<noteq> Some (p, i))"
      "\<And>g. g \<in> set (rcu_groups s) \<or> g \<notin> k_groups s \<Longrightarrow> (\<forall>y i. gkey s' y \<noteq> Some (g, i))"
  shows "ipc_inv_but X sl' s'"
proof (rule ipc_invI)
  note sent = alive_right[OF I k a]
  have keys: "skey s' = skey s" "okey s' = okey s" using a f by (auto simp: fun_eq_iff skey_def okey_def)
  have q: "qkey s' = qkey s"
    using sent f by (auto simp: fun_eq_iff qkey_def split: generic_message.splits)
  then have "qkey_but X s' = qkey_but X s" by (simp add: fun_eq_iff qkey_but_def)
  then show "lindex (qv s') (qkey_but X s')" using inv_qv[OF I] f by simp
  have "sv s' = sv s" by (simp add: fun_eq_iff sv_def f)
  then show "lindex (sv s') (skey s')" using inv_sv[OF I] by (simp add: keys)
  show "lindex (mo_rights s') (okey s')" using inv_mo[OF I] by (simp add: keys f)
  show "right_ok s' r'" if "r' \<in> k_rights s'" for r'
    using inv_right[OF I, of r'] that a sent f by (cases "r' = r") (simp_all add: right_ok_def)
  show "shared_ok s' h" if "h \<in> k_shared s'" for h using inv_shared[OF I, of h] that by (simp add: shared_ok_def keys f)
  show "port_ok s' p" for p using inv_port[OF I, of p] own(5)[of p] by (simp add: port_ok_def f q)
  show "group_ok s' g" for g using inv_group[OF I, of g] own(6)[of g] by (simp add: group_ok_def f)
  show "lists_ok s'" using inv_lists[OF I] by (simp add: lists_ok_def f)
  show "msg_ok s'" using inv_msg[OF I] f by (simp add: msg_ok_def)
qed (use own in auto)

lemma alive_port: "ipc_inv_but X sl s \<Longrightarrow> po_alive (ports s p) \<Longrightarrow> p \<notin> set (rcu_ports s) \<and> p \<in> k_ports s"
  using inv_port[of X sl s p] by (auto simp: port_ok_def)

lemma alive_group: "ipc_inv_but X sl s \<Longrightarrow> g_alive (groups s g) \<Longrightarrow> g \<notin> set (rcu_groups s) \<and> g \<in> k_groups s"
  using inv_group[of X sl s g] by (auto simp: group_ok_def)

lemma atomic_watch_inv:
  assumes I: "ipc_inv s" and k: "r \<in> k_rights s" and t: "r_type (rights s r) = SendMany"
  shows "ipc_inv (snd (atomic_watch r p s))"
proof (cases "r_alive (rights s r) \<and> \<not> notification_port (rights s r) \<and> po_alive (ports s p)")
  case False
  then show ?thesis using I by (auto simp: atomic_watch_def)
next
  case True
  obtain i s1 where n: "new_port_right_id p s = (i, s1)" by fastforce
  note N = new_port_right_id_inv[OF I n]
  let ?x = "(rights s r)\<lparr>notification_port := True, right_parent_id := i, r_parent := p\<rparr>"
  let ?s' = "insert_right p i (RR r) (upd_right r (\<lambda>x. x\<lparr>notification_port := True, right_parent_id := i, r_parent := p\<rparr>) s1)"
  have F: "rights s1 = rights s" "k_rights s1 = k_rights s" "po_alive (ports s1 p) = po_alive (ports s p)" "slots s1 = slots s"
    by (simp_all add: N(5))
  have rn: "rkey s1 (RR r) = None" using True t by (simp add: rkey_def F)
  have rk: "rkey ?s' = (rkey s1)(RR r := Some (p, i))"
    using True t k by (auto simp: fun_eq_iff rkey_def F split: recieve_right.splits)
  have gk: "gkey ?s' = gkey s1" by (auto simp: fun_eq_iff gkey_def)
  have mk: "mkey ?s' = mkey s1" by (auto simp: fun_eq_iff mkey_def)
  have "ipc_inv_but None (slots s) ?s'"
  proof (rule live_right_inv[OF N(1), where r = r and x = ?x])
    show "kindex (gv ?s') (gkey ?s')" using inv_gv[OF N(1)] by (simp add: gk)
    show "kindex (pv ?s') (rkey ?s')" unfolding rk
      using pt.index_ins[OF inv_pv[OF N(1)] rn N(2)] by (simp add: view_eqs)
    show "lindex (slots s) (mkey ?s')" using inv_sl[OF N(1)] by (simp add: mk)
    show "ids_ok ?s'" using inv_ids[OF N(1)] eq_refl[OF N(3)] by (simp add: ids_ok_def gk rk)
    show "\<forall>y j. rkey ?s' y \<noteq> Some (q, j)" if "q \<in> set (rcu_ports s1) \<or> q \<notin> k_ports s1" for q
      using inv_port[OF N(1), of q] that alive_port[OF N(1), of p] True by (auto simp: rk port_ok_def F)
    show "\<forall>y j. gkey ?s' y \<noteq> Some (g, j)" if "g \<in> set (rcu_groups s1) \<or> g \<notin> k_groups s1" for g
      using inv_group[OF N(1), of g] that by (auto simp: gk group_ok_def)
  qed (use k True N(4) t in \<open>simp_all add: F\<close>)
  then show ?thesis using True n by (simp add: atomic_watch_def F(4))
qed

lemma atomic_transfer_inv:
  assumes I: "ipc_inv s" and k: "r \<in> k_rights s"
  shows "ipc_inv (snd (atomic_transfer_to_group r from to s))"
proof (cases "r_alive (rights s r) \<and> \<not> of_message (rights s r) \<and> parent_group (rights s r) = from \<and> from \<noteq> to \<and> g_alive (groups s to)")
  case False
  then show ?thesis using I by (auto simp: atomic_transfer_to_group_def)
next
  case True
  obtain i s1 where n: "next_right_id to s = (i, s1)" by fastforce
  note N = next_right_id_inv[OF I n] and F = next_right_id_frame[OF n]
  let ?x = "(rights s r)\<lparr>parent_group := to, right_sender_id := i\<rparr>" and ?j = "right_sender_id (rights s r)"
  let ?s' = "group_insert to i r (upd_right r (\<lambda>x. x\<lparr>parent_group := to, right_sender_id := i\<rparr>) (group_erase from ?j s1))"
  have gn: "gkey s1 r = Some (from, ?j)" using True k by (simp add: gkey_def F)
  have gk: "gkey ?s' = ((gkey s1)(r := None))(r := Some (to, i))"
    using True k by (auto simp: fun_eq_iff gkey_def F)
  have rk: "rkey ?s' = rkey s1" by (auto simp: fun_eq_iff rkey_def F split: recieve_right.splits)
  have mk: "mkey ?s' = mkey s1" by (auto simp: fun_eq_iff mkey_def F)
  have "ipc_inv_but None (slots s) ?s'"
  proof (rule live_right_inv[OF N(1), where r = r and x = ?x])
    have "kindex (gv (group_erase from ?j s1)) ((gkey s1)(r := None))" by (rule gt.index_del[OF inv_gv[OF N(1)] gn])
    from gt.index_ins[OF this, of r to i] N(2) show "kindex (gv ?s') (gkey ?s')"
      unfolding gk by (simp add: view_eqs)
    show "kindex (pv ?s') (rkey ?s')" using inv_pv[OF N(1)] by (simp add: rk)
    show "lindex (slots s) (mkey ?s')" using inv_sl[OF N(1)] by (simp add: mk)
    show "ids_ok ?s'" using inv_ids[OF N(1)] eq_refl[OF N(3)] by (simp add: ids_ok_def gk rk)
    show "\<forall>y j. rkey ?s' y \<noteq> Some (q, j)" if "q \<in> set (rcu_ports s1) \<or> q \<notin> k_ports s1" for q
      using inv_port[OF N(1), of q] that by (auto simp: rk port_ok_def)
    show "\<forall>y j. gkey ?s' y \<noteq> Some (g, j)" if "g \<in> set (rcu_groups s1) \<or> g \<notin> k_groups s1" for g
      using inv_group[OF N(1), of g] that alive_group[OF N(1), of to] True by (auto simp: gk group_ok_def F)
    show "right_parent_id ?x \<noteq> 0" if "r_type ?x = SendOnce" using inv_right[OF I k] that by (simp add: right_ok_def)
  qed (use k True in \<open>simp_all add: F\<close>)
  then show ?thesis using True n by (simp add: atomic_transfer_to_group_def F(9))
qed

text \<open>The mark of right 0 is no part of the invariant.\<close>

lemma right0_inv:
  assumes I: "ipc_inv s"
  shows "ipc_inv ((upd_right r (\<lambda>x. x\<lparr>right_0 := True\<rparr>) s)\<lparr>right0_id := i\<rparr>)"
proof -
  let ?s' = "(upd_right r (\<lambda>x. x\<lparr>right_0 := True\<rparr>) s)\<lparr>right0_id := i\<rparr>"
  have v: "gv ?s' = gv s" "pv ?s' = pv s" "qv ?s' = qv s" "sv ?s' = sv s"
    by (simp_all add: fun_eq_iff gv_def pv_def qv_def sv_def)
  have keys: "gkey ?s' = gkey s" "rkey ?s' = rkey s" "qkey ?s' = qkey s" "skey ?s' = skey s" "mkey ?s' = mkey s" "okey ?s' = okey s"
    by (auto simp: fun_eq_iff key_defs split: recieve_right.splits generic_message.splits)
  have sl: "slots ?s' = slots s" by (rule slots_cong) simp_all
  have q: "qkey_but None ?s' = qkey_but None s" by (simp add: fun_eq_iff qkey_but_def keys)
  show ?thesis
    using I unfolding ipc_inv_but_def v keys sl q right_ok_def shared_ok_def port_ok_def group_ok_def lists_ok_def ids_ok_def msg_ok_def
    by simp
qed

lemma set_right0_inv:
  assumes "ipc_inv s" "r \<in> k_rights s"
  shows "ipc_inv (snd (set_right0 r g s))"
proof (cases "atomic_transfer_to_group r g kernel_tasks s")
  case (Pair res s1)
  have I: "ipc_inv s1" using atomic_transfer_inv[OF assms, of g kernel_tasks] Pair by simp
  show ?thesis using assms(1) I right0_inv[OF I] Pair by (cases res) (simp_all add: set_right0_def)
qed

end
