(* ===== verification/Ipc_Send.thy ===== *)
theory Ipc_Send
  imports Ipc_Create
begin

text \<open>Sending and receiving messages keep the invariant.\<close>

lemma destroy_keeps:
  assumes I: "ipc_inv s" and k: "r \<in> k_rights s"
  shows "keeps (destroy r reason match s)"
proof (rule destroy_inv[OF I k, where reason = reason and match = match])
  fix b s'
  assume d: "destroy r reason match s = Some (b, s')" "ipc_inv_but None (slots s) s'"
    "b \<Longrightarrow> destroyed r s s'" "\<not> b \<Longrightarrow> s' = s"
  have "slots s' = slots s" using d(3,4) by (cases b) (auto simp: destroyed_def intro: slots_cong)
  then show "keeps (destroy r reason match s)" using d(1,2) by simp
qed simp_all

section \<open>Rights that move into a message\<close>

lemma lindex_cons:
  assumes "lindex l key" "key x = None"
  shows "lindex (l(c := x # l c)) (key(x := Some c))"
  using assms by (auto simp: lindex_def)

text \<open>A right of a group that can go with a message.\<close>

definition sendable :: "nat \<Rightarrow> ipc \<Rightarrow> nat \<Rightarrow> bool" where
  "sendable g s r \<longleftrightarrow> r \<in> k_rights s \<and> r_alive (rights s r) \<and> of_group (rights s r) g"

lemma take_right_inv:
  assumes I: "ipc_inv_but X sl s" and r: "sendable g s r"
  shows "ipc_inv_but X (sl(m := sl m @ [r]))
    (upd_right r (\<lambda>x. x\<lparr>of_message := True, parent_message := m\<rparr>) (group_erase g (right_sender_id (rights s r)) s))"
    (is "ipc_inv_but X ?sl ?s'")
proof -
  have k: "r \<in> k_rights s" and a: "r_alive (rights s r)" and g: "\<not> of_message (rights s r)" "parent_group (rights s r) = g"
    using r by (simp_all add: sendable_def of_group_def)
  let ?x = "(rights s r)\<lparr>of_message := True, parent_message := m\<rparr>"
  have gn: "gkey s r = Some (g, right_sender_id (rights s r))" using k a g by (simp add: gkey_def)
  have gk: "gkey ?s' = (gkey s)(r := None)" by (auto simp: fun_eq_iff gkey_def)
  have rk: "rkey ?s' = rkey s" by (auto simp: fun_eq_iff rkey_def split: recieve_right.splits)
  have mk: "mkey ?s' = (mkey s)(r := Some m)" using k alive_right[OF I k a] by (auto simp: fun_eq_iff mkey_def)
  have mn: "mkey s r = None" using g by (simp add: mkey_def)
  show ?thesis
  proof (rule live_right_inv[OF I k a, where x = ?x])
    show "kindex (gv ?s') (gkey ?s')" unfolding gk using gt.index_del[OF inv_gv[OF I] gn] by simp
    show "kindex (pv ?s') (rkey ?s')" using inv_pv[OF I] by (simp add: rk)
    show "lindex ?sl (mkey ?s')" unfolding mk by (rule lindex_append[OF inv_sl[OF I] mn])
    show "ids_ok ?s'" using inv_ids[OF I] by (simp add: ids_ok_def gk rk)
    show "\<forall>y j. rkey ?s' y \<noteq> Some (q, j)" if "q \<in> set (rcu_ports s) \<or> q \<notin> k_ports s" for q
      using inv_port[OF I, of q] that by (auto simp: rk port_ok_def)
    show "\<forall>y j. gkey ?s' y \<noteq> Some (h, j)" if "h \<in> set (rcu_groups s) \<or> h \<notin> k_groups s" for h
      using inv_group[OF I, of h] that by (auto simp: gk group_ok_def)
    show "right_parent_id ?x \<noteq> 0" if "r_type ?x = SendOnce" using inv_right[OF I k] that by (simp add: right_ok_def)
  qed (use a in simp_all)
qed

text \<open>What the move of rights into a message leaves as it was.\<close>

definition moved :: "nat set \<Rightarrow> nat \<Rightarrow> ipc \<Rightarrow> ipc \<Rightarrow> bool" where
  "moved R m s s' \<longleftrightarrow>
     rights s' = (\<lambda>r. if r \<in> R then (rights s r)\<lparr>of_message := True, parent_message := m\<rparr> else rights s r) \<and>
     k_rights s' = k_rights s \<and> k_shared s' = k_shared s \<and> shareds s' = shareds s \<and> ports s' = ports s \<and>
     k_msgs s' = k_msgs s \<and> msgs s' = msgs s \<and> rcu_ports s' = rcu_ports s \<and> k_ports s' = k_ports s"

lemma take_rights_inv:
  assumes "ipc_inv_but X sl s" "\<And>r. r \<in> set (somes xs) \<Longrightarrow> sendable g s r" "distinct (somes xs)"
  obtains s' where "take_rights g m xs s = Some s'" "ipc_inv_but X (sl(m := sl m @ somes xs)) s'" "moved (set (somes xs)) m s s'"
  using assms
proof (induction xs arbitrary: s sl thesis)
  case Nil
  show ?case by (rule Nil.prems(1)[of s]) (use Nil.prems(2) in \<open>simp_all add: moved_def fun_upd_idem\<close>)
next
  case (Cons x xs)
  show ?case
  proof (cases x)
    case None
    then show ?thesis using Cons.IH[OF Cons.prems(1) Cons.prems(2)] Cons.prems(3,4) by simp
  next
    case (Some r)
    let ?s1 = "upd_right r (\<lambda>x. x\<lparr>of_message := True, parent_message := m\<rparr>) (group_erase g (right_sender_id (rights s r)) s)"
    let ?sl1 = "sl(m := sl m @ [r])"
    have r: "sendable g s r" using Cons.prems(3) Some by simp
    have "sendable g ?s1 r'" if "r' \<in> set (somes xs)" for r'
      using Cons.prems(3)[of r'] Cons.prems(4) that Some by (auto simp: sendable_def)
    then obtain s' where s': "take_rights g m xs ?s1 = Some s'" "ipc_inv_but X (?sl1(m := ?sl1 m @ somes xs)) s'"
        "moved (set (somes xs)) m ?s1 s'"
      using Cons.IH[OF _ take_right_inv[OF Cons.prems(2) r, of m]] Cons.prems(4) Some by (metis distinct.simps(2) somes.simps(3))
    show ?thesis
    proof (rule Cons.prems(1)[of s'])
      show "take_rights g m (x # xs) s = Some s'"
        using s'(1) r Some by (simp add: sendable_def of_group_def)
      show "ipc_inv_but X (sl(m := sl m @ somes (x # xs))) s'" using s'(2) Some by simp
      show "moved (set (somes (x # xs))) m s s'" using s'(3) Some by (auto simp: moved_def fun_eq_iff)
    qed
  qed
qed

section \<open>The reply right\<close>

lemma add_reply_inv:
  assumes I: "ipc_inv_but X sl s" and p: "po_alive (ports s p)" and r: "r \<notin> k_rights s"
    and t: "new_type = SendOnce \<or> new_type = SendMany \<and> h \<notin> k_shared s"
    and n: "add_reply m r h p new_type s = (i, s')"
  shows "ipc_inv_but X (sl(m := r # sl m)) s'" "i \<noteq> 0" "msgs s' = msgs s" "k_msgs s' = k_msgs s" "k_rights s \<subseteq> k_rights s'"
    "r' \<noteq> r \<Longrightarrow> rights s' r' = rights s r'" "rcu_ports s' = rcu_ports s" "k_ports s' = k_ports s"
    "h' \<in> k_shared s \<Longrightarrow> shareds s' h' = shareds s h'" "msg_queue (ports s' p') = msg_queue (ports s p')"
proof -
  obtain j s1 where j: "new_port_right_id p s = (j, s1)" by fastforce
  note N = new_port_right_id_inv[OF I j]
  have F: "rights s1 = rights s" "k_rights s1 = k_rights s" "po_alive (ports s1 p) = po_alive (ports s p)" "msgs s1 = msgs s"
      "k_msgs s1 = k_msgs s" "k_shared s1 = k_shared s" "shareds s1 = shareds s" "rcu_ports s1 = rcu_ports s" "k_ports s1 = k_ports s"
      "\<And>q. msg_queue (ports s1 q) = msg_queue (ports s q)"
    by (simp_all add: N(5))
  have mn: "mkey s1 r = None" using r by (simp add: mkey_def F)
  note L = lindex_cons[OF inv_sl[OF N(1)] mn, of m]
  let ?x = "(new_right new_type 0)\<lparr>of_message := True, parent_message := m\<rparr>"
  have e: "i = j" "s' = (if new_type = SendMany
      then insert_right p j (RS h) (add_shared h (new_shared r p j) (add_right r (?x\<lparr>r_shared := h\<rparr>) s1))
      else insert_right p j (RR r) (add_right r (?x\<lparr>r_parent := p, right_parent_id := j\<rparr>) s1))"
    using n j by (auto simp: add_reply_def Let_def split: if_splits)
  show "i \<noteq> 0" "msgs s' = msgs s" "k_msgs s' = k_msgs s" "k_rights s \<subseteq> k_rights s'" "r' \<noteq> r \<Longrightarrow> rights s' r' = rights s r'"
      "rcu_ports s' = rcu_ports s" "k_ports s' = k_ports s" "msg_queue (ports s' p') = msg_queue (ports s p')"
    using N(4) e by (auto simp: F)
  show "h' \<in> k_shared s \<Longrightarrow> shareds s' h' = shareds s h'" using e t by (auto simp: F)
  let ?y = "if new_type = SendMany then ?x\<lparr>r_shared := h\<rparr> else ?x\<lparr>r_parent := p, right_parent_id := j\<rparr>"
  show "ipc_inv_but X (sl(m := r # sl m)) s'"
  proof (rule birth_inv[OF N(1)])
    show "birth r ?y s1 s'" using r by (auto simp: birth_def e new_right_def F)
    show "joins_holder sl (sl(m := r # sl m)) r ?y s1 s'" using L by (auto simp: joins_holder_def e new_right_def)
    show "joins_receiver r ?y s1 s'"
      using t p N(2,4) eq_refl[OF N(3)] by (auto simp: joins_receiver_def e new_right_def view_eqs F) (rule exI[of _ p], rule exI[of _ j], simp add: F)
  qed
qed

section \<open>Sending\<close>

lemma parent_port_ok:
  assumes I: "ipc_inv_but X sl s" and k: "r \<in> k_rights s" and a: "r_alive (rights s r)" and t: "r_type (rights s r) \<noteq> MemObject"
  shows "parent_port r s \<notin> set (rcu_ports s)" "parent_port r s \<in> k_ports s"
proof -
  have P: "p \<notin> set (rcu_ports s) \<and> p \<in> k_ports s" if "rkey s x = Some (p, i)" for x p i
    using inv_port[OF I, of p] that by (auto simp: port_ok_def)
  have "parent_port r s \<notin> set (rcu_ports s) \<and> parent_port r s \<in> k_ports s"
  proof (cases "r_type (rights s r)")
    case SendOnce
    then show ?thesis using P[of "RR r"] k a by (simp add: rkey_def parent_port_def)
  next
    case SendMany
    let ?h = "r_shared (rights s r)"
    have h: "?h \<in> k_shared s" "s_alive (shareds s ?h) \<or> s_dying (shareds s ?h)"
      using inv_right[OF I k] SendMany a by (auto simp: right_ok_def)
    then show ?thesis
      using P[of "RS ?h"] inv_shared[OF I h(1)] SendMany by (auto simp: rkey_def parent_port_def shared_ok_def)
  qed (use t in simp)
  then show "parent_port r s \<notin> set (rcu_ports s)" "parent_port r s \<in> k_ports s" by auto
qed

lemma right_id_nonzero:
  assumes I: "ipc_inv_but X sl s" and k: "r \<in> k_rights s" and t: "r_type (rights s r) \<noteq> MemObject"
  shows "right_id_in_reciever r s \<noteq> 0"
  using inv_right[OF I k] inv_shared[OF I, of "r_shared (rights s r)"] t
  by (cases "r_type (rights s r)") (auto simp: right_id_in_reciever_def right_ok_def shared_ok_def)

text \<open>The finished message enters the queue.\<close>

lemma enqueue_message_inv:
  assumes I: "ipc_inv_but None sl s" and m: "m \<notin> k_msgs s" and p: "p \<in> k_ports s" and x: "m_port msg = p" "length (m_rights msg) = 4"
    and s': "s' = enqueue p (QMessage m) (s\<lparr>msgs := (msgs s)(m := msg), k_msgs := insert m (k_msgs s)\<rparr>)"
    and sl': "lindex sl' (mkey s)"
  shows "ipc_inv_but None sl' s'"
proof (rule message_step_inv[OF I])
  have qn: "qkey_but None s (QMessage m) = None" using m by (simp add: qkey_but_def qkey_def)
  have e: "qv s' = qv (enqueue p (QMessage m) s)" by (auto simp: s' view_eqs qv_def)
  have qk: "qkey s' = (qkey s)(QMessage m := Some p)"
    using x by (auto simp: fun_eq_iff qkey_def s' split: generic_message.splits)
  then have "qkey_but None s' = (qkey_but None s)(QMessage m := Some p)" by (auto simp: fun_eq_iff qkey_but_def)
  then show "lindex (qv s') (qkey_but None s')" unfolding e using mq.index_add[OF inv_qv[OF I] qn] by simp
  show "qkey s y = Some q \<or> q \<in> k_ports s" if "qkey s' y = Some q" for y q
    using that p by (auto simp: qk split: if_splits)
  show "msg_ok s'" using inv_msg[OF I] x by (auto simp: msg_ok_def s')
qed (use sl' in \<open>simp_all add: s'\<close>)

lemma slots_enqueue:
  assumes "s' = enqueue p y (s\<lparr>msgs := (msgs s)(m := msg), k_msgs := insert m (k_msgs s)\<rparr>)"
  shows "slots s' = (slots s)(m := somes (m_reply_right msg # m_rights msg))"
  using assms by (auto simp: slots_def fun_eq_iff)

lemma first_bad_None:
  assumes "first_bad g s n xs = None" "r \<in> set (somes xs)"
  shows "r_alive (rights s r) \<and> of_group (rights s r) g"
  using assms by (induction g s n xs rule: first_bad.induct) (auto split: if_splits)

lemma post_inv:
  assumes I: "ipc_inv s" and p: "p \<in> k_ports s" and m: "m \<notin> k_msgs s"
  shows "ipc_inv (post m task p data s)"
proof -
  have "slots (post m task p data s) = (slots s)(m := [])"
    using slots_enqueue[OF refl] by (simp add: post_def numeral_eq_Suc)
  then have sl: "slots (post m task p data s) = slots s" using m by (simp add: fun_upd_idem slots_def)
  show ?thesis
    unfolding sl by (rule enqueue_message_inv[OF I m p _ _ post_def inv_sl[OF I]]) simp_all
qed

lemma atomic_send_from_system_inv:
  assumes "ipc_inv s" "p \<in> k_ports s" "p \<notin> set (rcu_ports s)" "\<And>m. alloc = Some m \<Longrightarrow> m \<notin> k_msgs s" "data \<noteq> []"
  shows "keeps (atomic_send_from_system resized alloc p data s)"
  using assms post_inv[OF assms(1,2), of _ 0 data]
  by (cases alloc) (simp_all add: atomic_send_from_system_def send_from_system_def lock_port_def)

lemma atomic_send_from_user_inv:
  assumes "ipc_inv s" "p \<in> k_ports s" "p \<notin> set (rcu_ports s)" "\<And>m. alloc = Some m \<Longrightarrow> m \<notin> k_msgs s"
  shows "keeps (atomic_send_from_user resized copied alloc task p s)"
  using assms post_inv[OF assms(1,2), of _ task]
  by (cases alloc) (auto simp: atomic_send_from_user_def lock_port_def split: sum.splits option.splits)

text \<open>The part of a send that cannot fail any more: the message is put together and queued.\<close>

lemma send_commit_inv:
  assumes I: "ipc_inv s" and m: "m \<notin> k_msgs s" and array: "length array = 4" "distinct (somes array)"
      "\<And>r. r \<in> set (somes array) \<Longrightarrow> sendable g s r"
    and right: "right \<in> k_rights s" "r_alive (rights s right)" "r_type (rights s right) \<noteq> MemObject" "right \<notin> set (somes array)"
    and reply: "\<And>p. reply_port = Some p \<Longrightarrow> po_alive (ports s p) \<and> (\<exists>r. alloc_reply = Some r \<and> r \<notin> k_rights s) \<and>
        (new_type = SendOnce \<or> new_type = SendMany \<and> (\<exists>h. alloc_shared = Some h \<and> h \<notin> k_shared s))"
  obtains s1 i s2 s3 where "take_rights g m array s = Some s1"
    "(case reply_port of None \<Rightarrow> Some (0, s1)
      | Some p \<Rightarrow> do { kassert (po_alive (ports s1 p));
                      Some (add_reply m (the alloc_reply) (the alloc_shared) p new_type s1) }) = Some (i, s2)"
    "s3 = enqueue (parent_port right s) (QMessage m) (s2\<lparr>msgs := (msgs s2)(m := \<lparr>task_id_from = sender,
        m_sent_with_right = w, m_content = data, m_reply_right = (if reply_port = None then None else alloc_reply),
        m_rights = array, m_port = parent_port right s\<rparr>), k_msgs := insert m (k_msgs s2)\<rparr>)"
    "ipc_inv s3" "rights s3 right = rights s right" "k_rights s \<subseteq> k_rights s3" "rcu_ports s2 = rcu_ports s"
    "reply_port \<noteq> None \<longrightarrow> i \<noteq> 0" "\<forall>p. msg_queue (ports s2 p) = msg_queue (ports s p)"
    "\<forall>x. x \<in> set (somes array) \<longrightarrow> rights s2 x = (rights s x)\<lparr>of_message := True, parent_message := m\<rparr>"
proof -
  let ?p = "parent_port right s" and ?msg = "\<lparr>task_id_from = sender, m_sent_with_right = w, m_content = data,
      m_reply_right = (if reply_port = None then None else alloc_reply), m_rights = array, m_port = parent_port right s\<rparr>"
  have sm: "slots s m = []" using m by (simp add: slots_def)
  obtain s1 where s1: "take_rights g m array s = Some s1" "ipc_inv_but None ((slots s)(m := somes array)) s1"
      "moved (set (somes array)) m s s1"
    using take_rights_inv[OF I array(3,2), of m] sm by auto
  obtain i s2 sl where s2: "(case reply_port of None \<Rightarrow> Some (0, s1)
      | Some p \<Rightarrow> do { kassert (po_alive (ports s1 p));
                      Some (add_reply m (the alloc_reply) (the alloc_shared) p new_type s1) }) = Some (i, s2)"
      "ipc_inv_but None sl s2" "sl = (slots s)(m := somes (m_reply_right ?msg # array))" "msgs s2 = msgs s" "k_msgs s2 = k_msgs s"
      "k_rights s \<subseteq> k_rights s2" "rights s2 right = rights s right" "rcu_ports s2 = rcu_ports s" "k_ports s2 = k_ports s"
      "reply_port \<noteq> None \<longrightarrow> i \<noteq> 0" "\<forall>p. msg_queue (ports s2 p) = msg_queue (ports s p)"
      "\<forall>x. x \<in> set (somes array) \<longrightarrow> rights s2 x = (rights s x)\<lparr>of_message := True, parent_message := m\<rparr>"
  proof (cases reply_port)
    case None
    show ?thesis
      by (rule that[of 0 s1 "(slots s)(m := somes array)"]) (use None s1 right(4) in \<open>auto simp: moved_def\<close>)
  next
    case (Some p)
    then obtain r where r: "alloc_reply = Some r" "r \<notin> k_rights s" and p: "po_alive (ports s p)"
        and t: "new_type = SendOnce \<or> new_type = SendMany \<and> (\<exists>h. alloc_shared = Some h \<and> h \<notin> k_shared s)"
      using reply by blast
    have new: "x \<noteq> r" if "x \<in> set (somes array)" for x using array(3)[OF that] r(2) by (auto simp: sendable_def)
    have rn: "right \<noteq> r" using right(1) r(2) by blast
    obtain i s2 where n: "add_reply m r (the alloc_shared) p new_type s1 = (i, s2)" by fastforce
    have "ipc_inv_but None (((slots s)(m := somes array))(m := r # ((slots s)(m := somes array)) m)) s2"
      and f: "i \<noteq> 0" "msgs s2 = msgs s1" "k_msgs s2 = k_msgs s1" "k_rights s1 \<subseteq> k_rights s2"
        "right \<noteq> r \<Longrightarrow> rights s2 right = rights s1 right" "rcu_ports s2 = rcu_ports s1" "k_ports s2 = k_ports s1"
        "\<forall>q. msg_queue (ports s2 q) = msg_queue (ports s1 q)" "\<forall>x. x \<noteq> r \<longrightarrow> rights s2 x = rights s1 x"
      using add_reply_inv[OF s1(2) _ _ _ n] p r t s1(3) by (auto simp: moved_def)
    then have "ipc_inv_but None ((slots s)(m := r # somes array)) s2" by simp
    then show ?thesis
      by (rule that[rotated]) (use Some n r p right rn s1(3) f new in \<open>auto simp: moved_def\<close>)
  qed
  let ?s3 = "enqueue ?p (QMessage m) (s2\<lparr>msgs := (msgs s2)(m := ?msg), k_msgs := insert m (k_msgs s2)\<rparr>)"
  have sl3: "slots ?s3 = sl"
    unfolding s2(3) using slots_enqueue[where p = ?p and y = "QMessage m" and s = s2 and m = m and msg = ?msg, OF refl] slots_cong[of s2 s] s2(4,5) by simp
  have p: "?p \<in> k_ports s2" using parent_port_ok(2)[OF I right(1-3)] s2(9) by simp
  have m2: "m \<notin> k_msgs s2" using m s2(5) by simp
  have "ipc_inv ?s3"
    unfolding sl3 by (rule enqueue_message_inv[OF s2(2) m2 p _ _ refl inv_sl[OF s2(2)]]) (use array in simp_all)
  then show ?thesis
    by (rule that[OF s1(1) s2(1) refl]) (use s2 in auto)
qed

text \<open>The conditions under which a message is refused, and the state after it was sent.\<close>

definition send_refused ::
    "nat option \<Rightarrow> nat option \<Rightarrow> nat option \<Rightarrow> nat \<Rightarrow> nat \<Rightarrow> nat option \<Rightarrow> nat option list \<Rightarrow> RightType \<Rightarrow> bool \<Rightarrow> ipc \<Rightarrow> bool" where
  "send_refused alloc_msg alloc_reply alloc_shared right g reply_port array new_type always s \<longleftrightarrow>
     r_type (rights s right) = MemObject \<or> alloc_msg = None \<or>
     reply_port \<noteq> None \<and> (alloc_reply = None \<or> new_type = SendMany \<and> alloc_shared = None) \<or>
     \<not> distinct (right # somes array) \<or> \<not> r_alive (rights s right) \<or> \<not> (of_group (rights s right) g \<or> right_0 (rights s right)) \<or>
     first_bad g s 0 array \<noteq> None \<or> right_0 (rights s right) \<and> always"

lemma send_refused_eq:
  assumes "ipc_inv s" "right \<in> k_rights s" "new_type = SendOnce \<or> new_type = SendMany"
    and "send_refused alloc_msg alloc_reply alloc_shared right g reply_port array new_type always s"
  shows "\<exists>e. send_message_right alloc_msg alloc_reply alloc_shared right g reply_port array data sender new_type always s = Some (Inl e, s)"
  using assms right_id_nonzero[OF assms(1,2)]
  by (cases alloc_msg; cases "first_bad g s 0 array") (auto simp: send_message_right_def send_refused_def Let_def)

lemma send_done:
  assumes I: "ipc_inv s" and k: "right \<in> k_rights s" "\<And>r. r \<in> set (somes array) \<Longrightarrow> r \<in> k_rights s" and array: "length array = 4"
    and alloc: "\<And>m. alloc_msg = Some m \<Longrightarrow> m \<notin> k_msgs s" "\<And>r. alloc_reply = Some r \<Longrightarrow> r \<notin> k_rights s"
      "\<And>h. alloc_shared = Some h \<Longrightarrow> h \<notin> k_shared s"
    and p: "\<And>p. reply_port = Some p \<Longrightarrow> po_alive (ports s p)" "new_type = SendOnce \<or> new_type = SendMany"
    and ok: "\<not> send_refused alloc_msg alloc_reply alloc_shared right g reply_port array new_type always s"
  obtains m i s2 s3 b s4 where "alloc_msg = Some m"
    "send_message_right alloc_msg alloc_reply alloc_shared right g reply_port array data sender new_type always s
      = Some (Inr (if reply_port = None then None else alloc_reply, i),
              if r_type (rights s right) = SendOnce \<or> always then s4 else s3)"
    "s3 = enqueue (parent_port right s) (QMessage m) (s2\<lparr>msgs := (msgs s2)(m := \<lparr>task_id_from = sender,
        m_sent_with_right = right_id_in_reciever right s, m_content = data, m_reply_right = (if reply_port = None then None else alloc_reply),
        m_rights = array, m_port = parent_port right s\<rparr>), k_msgs := insert m (k_msgs s2)\<rparr>)"
    "ipc_inv s3" "right \<in> k_rights s3" "rights s3 right = rights s right" "destroy right SendingMessage None s3 = Some (b, s4)" "ipc_inv s4"
    "reply_port \<noteq> None \<longrightarrow> i \<noteq> 0" "\<forall>p. msg_queue (ports s2 p) = msg_queue (ports s p)"
    "\<forall>x. x \<in> set (somes array) \<longrightarrow> rights s3 x = (rights s x)\<lparr>of_message := True, parent_message := m\<rparr>"
proof -
  obtain m where m: "alloc_msg = Some m" using ok by (auto simp: send_refused_def)
  have right: "r_alive (rights s right)" "r_type (rights s right) \<noteq> MemObject" "right \<notin> set (somes array)"
    and d: "distinct (somes array)" and fb: "first_bad g s 0 array = None"
    using ok by (auto simp: send_refused_def)
  have sendable: "sendable g s r" if "r \<in> set (somes array)" for r
    using first_bad_None[OF fb that] k(2)[OF that] by (auto simp: sendable_def)
  have reply: "po_alive (ports s q) \<and> (\<exists>r. alloc_reply = Some r \<and> r \<notin> k_rights s) \<and>
      (new_type = SendOnce \<or> new_type = SendMany \<and> (\<exists>h. alloc_shared = Some h \<and> h \<notin> k_shared s))" if "reply_port = Some q" for q
    using p alloc ok that by (cases alloc_reply; cases alloc_shared) (auto simp: send_refused_def)
  obtain s1 i s2 s3 where S: "take_rights g m array s = Some s1"
    "(case reply_port of None \<Rightarrow> Some (0, s1)
      | Some p \<Rightarrow> do { kassert (po_alive (ports s1 p));
                      Some (add_reply m (the alloc_reply) (the alloc_shared) p new_type s1) }) = Some (i, s2)"
    "s3 = enqueue (parent_port right s) (QMessage m) (s2\<lparr>msgs := (msgs s2)(m := \<lparr>task_id_from = sender,
        m_sent_with_right = right_id_in_reciever right s, m_content = data, m_reply_right = (if reply_port = None then None else alloc_reply),
        m_rights = array, m_port = parent_port right s\<rparr>), k_msgs := insert m (k_msgs s2)\<rparr>)"
    "ipc_inv s3" "rights s3 right = rights s right" "k_rights s \<subseteq> k_rights s3" "rcu_ports s2 = rcu_ports s"
    "reply_port \<noteq> None \<longrightarrow> i \<noteq> 0" "\<forall>p. msg_queue (ports s2 p) = msg_queue (ports s p)"
    "\<forall>x. x \<in> set (somes array) \<longrightarrow> rights s2 x = (rights s x)\<lparr>of_message := True, parent_message := m\<rparr>"
    by (rule send_commit_inv[where reply_port = reply_port and sender = sender and data = data and w = "right_id_in_reciever right s",
          OF I alloc(1)[OF m] array d sendable k(1) right reply]) blast
  have k3: "right \<in> k_rights s3" using S(6) k(1) by blast
  obtain b s4 where D: "destroy right SendingMessage None s3 = Some (b, s4)" "ipc_inv s4"
    using destroy_keeps[OF S(4) k3, of SendingMessage None] by (auto simp: keeps_def)
  have L: "lock_port None (parent_port right s) s2 = Some ()"
    using parent_port_ok(1)[OF I k(1) right(1,2)] S(7) by (simp add: lock_port_def)
  have "send_message_right alloc_msg alloc_reply alloc_shared right g reply_port array data sender new_type always s
      = Some (Inr (if reply_port = None then None else alloc_reply, i),
              if r_type (rights s right) = SendOnce \<or> always then s4 else s3)"
    using ok m p(2) right_id_nonzero[OF I k(1)] S(1,2) L D(1) S(3)[symmetric]
    by (auto simp: send_message_right_def send_refused_def Let_def destroy_def)
  moreover have "\<forall>x. x \<in> set (somes array) \<longrightarrow> rights s3 x = (rights s x)\<lparr>of_message := True, parent_message := m\<rparr>"
    using S(10) by (simp add: S(3))
  ultimately show ?thesis using that[OF m _ S(3,4) k3 S(5) D S(8,9)] by blast
qed

lemma send_message_right_inv:
  assumes I: "ipc_inv s" and k: "right \<in> k_rights s" "\<And>r. r \<in> set (somes array) \<Longrightarrow> r \<in> k_rights s" and array: "length array = 4"
    and alloc: "\<And>m. alloc_msg = Some m \<Longrightarrow> m \<notin> k_msgs s" "\<And>r. alloc_reply = Some r \<Longrightarrow> r \<notin> k_rights s"
      "\<And>h. alloc_shared = Some h \<Longrightarrow> h \<notin> k_shared s"
    and p: "\<And>p. reply_port = Some p \<Longrightarrow> po_alive (ports s p)" "new_type = SendOnce \<or> new_type = SendMany"
  shows "keeps (send_message_right alloc_msg alloc_reply alloc_shared right g reply_port array data sender new_type always s)"
proof (cases "send_refused alloc_msg alloc_reply alloc_shared right g reply_port array new_type always s")
  case True
  from send_refused_eq[OF I k(1) p(2) True, of data sender] show ?thesis using I by (auto simp: keeps_def)
next
  case False
  obtain m i s2 s3 b s4 where "send_message_right alloc_msg alloc_reply alloc_shared right g reply_port array data sender new_type always s
      = Some (Inr (if reply_port = None then None else alloc_reply, i),
              if r_type (rights s right) = SendOnce \<or> always then s4 else s3)" "ipc_inv s3" "ipc_inv s4"
    by (rule send_done[where data = data and sender = sender, OF I k array alloc p False])
  then show ?thesis by simp
qed

end
