(* ===== verification/Ipc_Receive.thy ===== *)
theory Ipc_Receive
  imports Ipc_Send
begin

text \<open>Receiving a message, accepting its rights, and the end of ports, groups and shared receive rights.\<close>

section \<open>Accepting the reply right\<close>

text \<open>A live right of a message becomes a right of a group under a new identifier.\<close>

lemma accept_right_inv:
  assumes I: "ipc_inv s" and m: "m \<in> k_msgs s" and r: "r \<in> set (slots s m)" and a: "r_alive (rights s r)"
    and g: "g_alive (groups s g)" "\<And>y. gkey s y \<noteq> Some (g, i)" "i \<le> g_current_right_id (groups s g)"
    and s': "s' = upd_msg m f (upd_right r (\<lambda>x. x\<lparr>right_sender_id := i, of_message := False, parent_group := g\<rparr>) (group_insert g i r s))"
    and f: "m_port (f (msgs s m)) = m_port (msgs s m)" "length (m_rights (f (msgs s m))) = length (m_rights (msgs s m))"
      "somes (m_reply_right (f (msgs s m)) # m_rights (f (msgs s m))) = remove1 r (slots s m)"
  shows "ipc_inv s'"
proof -
  have mk: "mkey s r = Some m" using lindexD[OF inv_sl[OF I]] r by blast
  then have k: "r \<in> k_rights s" "of_message (rights s r)" by (auto simp: mkey_def split: if_splits)
  let ?x = "(rights s r)\<lparr>right_sender_id := i, of_message := False, parent_group := g\<rparr>"
  have sl: "slots s' = (slots s)(m := remove1 r (slots s m))"
    using m f(3) by (auto simp: fun_eq_iff slots_def s')
  have gn: "gkey s r = None" using k by (simp add: gkey_def)
  have gk: "gkey s' = (gkey s)(r := Some (g, i))" using k a by (auto simp: fun_eq_iff gkey_def s')
  have rk: "rkey s' = rkey s" by (auto simp: fun_eq_iff rkey_def s' split: recieve_right.splits)
  have mk': "mkey s' = (mkey s)(r := None)" by (auto simp: fun_eq_iff mkey_def s')
  show ?thesis
    unfolding sl
  proof (rule live_right_inv[OF I k(1) a, where x = ?x])
    show "kindex (gv s') (gkey s')" unfolding gk using gt.index_ins[OF inv_gv[OF I] gn g(2)] by (simp add: s')
    show "kindex (pv s') (rkey s')" using inv_pv[OF I] by (simp add: rk) (simp add: s')
    show "lindex ((slots s)(m := remove1 r (slots s m))) (mkey s')"
      unfolding mk' by (rule lindex_remove[OF inv_sl[OF I] mk])
    show "ids_ok s'" using inv_ids[OF I] g(3) unfolding ids_ok_def gk rk by (simp add: s')
    show "\<forall>y j. rkey s' y \<noteq> Some (q, j)" if "q \<in> set (rcu_ports s) \<or> q \<notin> k_ports s" for q
      using inv_port[OF I, of q] that by (auto simp: rk port_ok_def)
    show "\<forall>y j. gkey s' y \<noteq> Some (h, j)" if "h \<in> set (rcu_groups s) \<or> h \<notin> k_groups s" for h
      using inv_group[OF I, of h] that alive_group[OF I g(1)] by (auto simp: gk group_ok_def)
    show "right_parent_id ?x \<noteq> 0" if "r_type ?x = SendOnce" using inv_right[OF I k(1)] that by (simp add: right_ok_def)
  qed (use a f in \<open>auto simp: s'\<close>)
qed

lemma accept_reply_inv:
  assumes I: "ipc_inv s" and m: "m \<in> k_msgs s" "m_reply_right (msgs s m) = Some r"
  shows "ipc_inv (snd (accept_reply m r g s))"
proof -
  obtain i s1 where n: "next_right_id g s = (i, s1)" by fastforce
  note N = next_right_id_inv[OF I n] and F = next_right_id_frame[OF n]
  have I1: "ipc_inv s1" using N(1) F(9) by simp
  show ?thesis
  proof (cases "r_alive (rights s r) \<and> g_alive (groups s g)")
    case True
    have sl: "slots s1 m = r # somes (m_rights (msgs s m))" using m by (simp add: slots_def F)
    have "ipc_inv (upd_msg m (\<lambda>x. x\<lparr>m_reply_right := None\<rparr>)
        (upd_right r (\<lambda>x. x\<lparr>right_sender_id := i, of_message := False, parent_group := g\<rparr>) (group_insert g i r s1)))"
      by (rule accept_right_inv[OF I1 _ _ _ _ N(2) eq_refl[OF N(3)] refl]) (use m sl True in \<open>auto simp: F\<close>)
    then show ?thesis using True n by (simp add: accept_reply_def)
  next
    case False
    then show ?thesis using n I1 by (auto simp: accept_reply_def)
  qed
qed

section \<open>Receiving\<close>

text \<open>
  The condition under which the front message can be popped while the lock of its port is held: none
  of the rights that go down with it notifies this port.
\<close>

definition pop_safe :: "nat \<Rightarrow> bool \<Rightarrow> ipc \<Rightarrow> bool" where
  "pop_safe p reject s \<longleftrightarrow>
     (case msg_queue (ports s p) of
        QMessage m # _ \<Rightarrow>
          (\<forall>r\<in>set (slots s m). lock_safe (Some p) r s \<or> \<not> reject \<and> m_reply_right (msgs s m) = Some r)
      | _ \<Rightarrow> True)"

lemma pop_front_inv:
  assumes I: "ipc_inv s" and q: "msg_queue (ports s p) = x # xs"
    and L: "\<And>m r. x = QMessage m \<Longrightarrow> r \<in> set (slots s m) \<Longrightarrow> lock_safe (Some p) r s"
  shows "\<exists>s'. pop_front p s = Some s' \<and> ipc_inv s'"
  using remove_front_inv[OF I q, where held = "Some p"] L unfolding pop_front_def by metis

lemma queue_front_message:
  assumes I: "ipc_inv s" and q: "msg_queue (ports s p) = QMessage m # xs"
  shows "m \<in> k_msgs s"
  using dequeue_inv(2)[OF I q] by (simp add: qkey_def split: if_splits)

lemma get_first_message_reply_inv:
  assumes I: "ipc_inv s" and q: "msg_queue (ports s p) = QMessage m # xs" and r: "m_reply_right (msgs s m) = Some r"
    and P: "pop_safe p False s" and e: "accept_reply m r g s = (Inr i, s1)"
  shows "\<exists>s'. pop_front p s1 = Some s' \<and> ipc_inv s'"
proof -
  have m: "m \<in> k_msgs s" by (rule queue_front_message[OF I q])
  have I1: "ipc_inv s1" using accept_reply_inv[OF I m r, of g] e by simp
  obtain j s0 where n: "next_right_id g s = (j, s0)" by fastforce
  note N = next_right_id_frame[OF n]
  have d: "distinct (slots s m)" using lindex_distinct[OF inv_sl[OF I]] .
  have sl: "slots s m = r # somes (m_rights (msgs s m))" using m r by (simp add: slots_def)
  have s1: "s1 = (if r_alive (rights s r) then upd_msg m (\<lambda>x. x\<lparr>m_reply_right := None\<rparr>)
      (upd_right r (\<lambda>x. x\<lparr>right_sender_id := j, of_message := False, parent_group := g\<rparr>) (group_insert g j r s0)) else s0)"
    using e n by (auto simp: accept_reply_def split: if_splits)
  have L: "lock_safe (Some p) r' s1" if "r' \<in> set (slots s1 m)" for r'
  proof (cases "r_alive (rights s r)")
    case True
    have "slots s1 m = somes (m_rights (msgs s m))" using True m by (simp add: s1 slots_def N)
    then have "r' \<in> set (slots s m)" "r' \<noteq> r" using that d sl by auto
    then show ?thesis using P q r True by (auto simp: pop_safe_def lock_safe_def s1 N)
  next
    case False
    then have "r' \<in> set (slots s m)" using that by (simp add: s1 N)
    then have "lock_safe (Some p) r' s \<or> r' = r" using P q r by (auto simp: pop_safe_def)
    then show ?thesis using False by (auto simp: lock_safe_def s1 N)
  qed
  have q1: "msg_queue (ports s1 p) = QMessage m # xs" using q by (simp add: s1 N)
  show ?thesis by (rule pop_front_inv[OF I1 q1]) (use L in auto)
qed

lemma get_first_message_inv:
  assumes I: "ipc_inv s" and P: "pop_safe p reject s"
  shows "keeps (get_first_message current p ns copied nopop reject s)"
proof (cases "msg_queue (ports s p)")
  case Nil
  then show ?thesis using I by (simp add: get_first_message_def)
next
  case (Cons x xs)
  have pop: "\<exists>s'. pop_front p s = Some s' \<and> ipc_inv s'"
    if "\<And>m. x = QMessage m \<Longrightarrow> reject \<or> m_reply_right (msgs s m) = None"
  proof (rule pop_front_inv[OF I Cons])
    fix m r
    assume "x = QMessage m" "r \<in> set (slots s m)"
    then show "lock_safe (Some p) r s" using P Cons that[of m] by (auto simp: pop_safe_def)
  qed
  show ?thesis
  proof (cases "\<exists>m r. x = QMessage m \<and> m_reply_right (msgs s m) = Some r \<and> \<not> reject")
    case False
    obtain s' where "pop_front p s = Some s'" "ipc_inv s'" using pop False by fastforce
    then show ?thesis
      using I Cons False
      by (auto simp: get_first_message_def get_reply_right_def split: sum.splits bool.splits generic_message.splits option.splits)
  next
    case True
    then obtain m r where x: "x = QMessage m" "m_reply_right (msgs s m) = Some r" "\<not> reject" by blast
    have q: "msg_queue (ports s p) = QMessage m # xs" using Cons x by simp
    have m: "m \<in> k_msgs s" by (rule queue_front_message[OF I q])
    show ?thesis
    proof (cases ns)
      case None
      then show ?thesis
        using I q x by (auto simp: get_first_message_def get_reply_right_def split: sum.splits bool.splits)
    next
      case (Some g)
      obtain res s1 where e: "accept_reply m r g s = (res, s1)" by fastforce
      have I1: "ipc_inv s1" using accept_reply_inv[OF I m x(2), of g] e by simp
      have P': "pop_safe p False s" using P x(3) by simp
      show ?thesis
        using I I1 q x e Some get_first_message_reply_inv[OF I q x(2) P', of g]
        by (cases res) (auto simp: get_first_message_def get_reply_right_def split: sum.splits bool.splits)
    qed
  qed
qed

section \<open>Accepting the other rights\<close>

lemma set_somes: "r \<in> set (somes xs) \<longleftrightarrow> Some r \<in> set xs"
  by (induction xs rule: somes.induct) auto

lemma somes_update:
  assumes "n < length xs" "xs ! n = Some r" "distinct (somes xs)"
  shows "somes (xs[n := None]) = remove1 r (somes xs)"
  using assms
proof (induction xs arbitrary: n)
  case (Cons x xs)
  have "r \<in> set (somes xs)" if "n < length xs" "xs ! n = Some r" for n
    using that by (metis nth_mem set_somes)
  then show ?case using Cons by (cases n; cases x) auto
qed simp

text \<open>Identifiers for the rights in the slots \<open>xs\<close>: new in the group, and different.\<close>

fun fresh_ids :: "nat \<Rightarrow> nat option list \<Rightarrow> nat list \<Rightarrow> ipc \<Rightarrow> bool" where
  "fresh_ids g [] [] s \<longleftrightarrow> True"
| "fresh_ids g (None # xs) (i # ids) s \<longleftrightarrow> fresh_ids g xs ids s"
| "fresh_ids g (Some r # xs) (i # ids) s \<longleftrightarrow>
     i \<noteq> 0 \<and> i \<le> g_current_right_id (groups s g) \<and> (\<forall>y. gkey s y \<noteq> Some (g, i)) \<and> i \<notin> set ids \<and> fresh_ids g xs ids s"
| "fresh_ids g _ _ s \<longleftrightarrow> False"

lemma fresh_ids_mono:
  assumes "fresh_ids g xs ids s" "g_current_right_id (groups s g) \<le> g_current_right_id (groups s' g)"
    "\<And>y j. j \<in> set ids \<Longrightarrow> gkey s' y = Some (g, j) \<Longrightarrow> \<exists>y. gkey s y = Some (g, j)"
  shows "fresh_ids g xs ids s'"
  using assms by (induction g xs ids s rule: fresh_ids.induct) fastforce+

lemma new_right_ids_inv:
  assumes "ipc_inv s" "new_right_ids g xs s = (ids, s')"
  shows "ipc_inv s' \<and> fresh_ids g xs ids s' \<and> gkey s' = gkey s \<and> msgs s' = msgs s \<and> k_msgs s' = k_msgs s \<and>
    (\<forall>g'. g_alive (groups s' g') = g_alive (groups s g')) \<and> ports s' = ports s \<and>
    (\<forall>i\<in>set ids. i = 0 \<or> g_current_right_id (groups s g) < i) \<and>
    g_current_right_id (groups s g) \<le> g_current_right_id (groups s' g)"
  using assms
proof (induction g xs s arbitrary: ids rule: new_right_ids.induct)
  case (2 g xs s)
  obtain ids' where e: "new_right_ids g xs s = (ids', s')" "ids = 0 # ids'"
    using "2.prems"(2) by (auto split: prod.splits)
  show ?case using "2.IH"[OF "2.prems"(1) e(1)] e(2) by simp
next
  case (3 g r xs s)
  obtain i s1 where n: "next_right_id g s = (i, s1)" by fastforce
  obtain ids' where e: "new_right_ids g xs s1 = (ids', s')" "ids = i # ids'"
    using "3.prems"(2) n by (auto split: prod.splits)
  note N = next_right_id_inv[OF "3.prems"(1) n] and F = next_right_id_frame[OF n]
  have I1: "ipc_inv s1" using N(1) F(9) by simp
  note IH = "3.IH"[OF n[symmetric] refl I1 e(1)]
  have gk: "gkey s1 = gkey s" using F by (simp add: fun_eq_iff gkey_def)
  have i: "i = g_current_right_id (groups s g) + 1" using n by (auto simp: next_right_id_def Let_def)
  have "i \<notin> set ids'" using IH N(3,4) by fastforce
  then show ?case using IH N(2,4) eq_refl[OF N(3)] gk F i e(2) by (auto simp: less_Suc_eq_le intro: order_trans)
qed auto

lemma transfer_slot_inv:
  assumes I: "ipc_inv s" and m: "m \<in> k_msgs s" and n: "n < 4" and g: "g_alive (groups s g)"
    and i: "fresh_ids g (m_rights (msgs s m) ! n # xs) (i # ids) s"
  shows "\<exists>s'. transfer_slot g m n i s = Some s' \<and> ipc_inv s' \<and> k_msgs s' = k_msgs s \<and>
    g_alive (groups s' g) \<and> m_rights (msgs s' m) = (m_rights (msgs s m))[n := None] \<and> fresh_ids g xs ids s'"
proof (cases "m_rights (msgs s m) ! n")
  case None
  have "m_rights (msgs s m) = (m_rights (msgs s m))[n := None]" using None by (metis list_update_id)
  then show ?thesis using None I g i by (auto simp: transfer_slot_def)
next
  case (Some r)
  let ?f = "\<lambda>x. x\<lparr>m_rights := (m_rights x)[n := None]\<rparr>"
  have len: "length (m_rights (msgs s m)) = 4" using inv_msg[OF I] m by (simp add: msg_ok_def)
  have d: "distinct (slots s m)" using lindex_distinct[OF inv_sl[OF I]] .
  let ?L = "m_reply_right (msgs s m) # m_rights (msgs s m)"
  have sl: "slots s m = somes ?L" using m by (simp add: slots_def)
  have upd: "somes (m_reply_right (?f (msgs s m)) # m_rights (?f (msgs s m))) = remove1 r (slots s m)"
    using somes_update[of "Suc n" ?L r] d sl len n Some by simp
  have "Some r \<in> set ?L" using len n Some by (auto simp: in_set_conv_nth intro!: exI[of _ n])
  then have r: "r \<in> set (slots s m)" by (simp add: sl set_somes del: somes.simps)
  have mk: "mkey s r = Some m" using lindexD[OF inv_sl[OF I]] r by blast
  then have o: "of_message (rights s r)" by (simp add: mkey_def split: if_splits)
  show ?thesis
  proof (cases "r_alive (rights s r)")
    case True
    let ?s' = "upd_msg m ?f (upd_right r (\<lambda>x. x\<lparr>right_sender_id := i, of_message := False, parent_group := g\<rparr>) (group_insert g i r s))"
    have "ipc_inv ?s'"
      by (rule accept_right_inv[OF I m r True g _ _ refl]) (use i Some upd in simp_all)
    moreover have "transfer_slot g m n i s = Some ?s'"
      using Some True o i
      by (auto simp: transfer_slot_def Let_def upd_msg_def upd_right_def group_insert_def upd_group_def fun_eq_iff
          intro!: ipc.equality right.equality)
    moreover have "fresh_ids g xs ids ?s'"
      by (rule fresh_ids_mono[of g xs ids s]) (use i Some in \<open>auto simp: gkey_def split: if_splits\<close>)
    ultimately show ?thesis using g by simp
  next
    case False
    let ?s1 = "if r_sent (rights s r) then upd_right r (\<lambda>x. x\<lparr>of_message := False\<rparr>) s else rcu_push r s"
    let ?sl = "(slots s)(m := remove1 r (slots s m))" and ?s' = "upd_msg m ?f ?s1"
    have I1: "ipc_inv_but None ?sl ?s1"
      by (rule release_inv(1)[OF I mk lindex_remove[OF inv_sl[OF I] mk] False])
    have "slots ?s' = ?sl" using m upd by (auto simp: fun_eq_iff slots_def)
    moreover have "ipc_inv_but None ?sl ?s'"
    proof (rule message_step_inv[OF I1])
      have "qkey_but None ?s' = qkey_but None ?s1" by (auto simp: fun_eq_iff qkey_but_def qkey_def split: generic_message.splits)
      then show "lindex (qv ?s') (qkey_but None ?s')" using inv_qv[OF I1] by simp
      show "qkey ?s1 x = Some p \<or> p \<in> k_ports ?s1" if "qkey ?s' x = Some p" for x p
        using that by (auto simp: qkey_def split: generic_message.splits if_splits)
      show "msg_ok ?s'" using inv_msg[OF I] by (auto simp: msg_ok_def)
    qed (use inv_sl[OF I1] in simp_all)
    ultimately have "ipc_inv ?s'" by simp
    moreover have "transfer_slot g m n i s = Some ?s'"
      using Some False o i by (simp add: transfer_slot_def Let_def upd_msg_def upd_right_def rcu_push_def)
    moreover have "fresh_ids g xs ids ?s'"
      by (rule fresh_ids_mono[of g xs ids s]) (use i Some False in \<open>auto simp: gkey_def split: if_splits\<close>)
    ultimately show ?thesis using g by simp
  qed
qed

lemma transfer_loop_inv:
  assumes "ipc_inv s" "m \<in> k_msgs s" "n + length ids = 4" "g_alive (groups s g)" "fresh_ids g (drop n (m_rights (msgs s m))) ids s"
  shows "\<exists>s'. transfer_loop g m n ids s = Some s' \<and> ipc_inv s'"
  using assms
proof (induction ids arbitrary: n s)
  case (Cons i ids)
  have len: "length (m_rights (msgs s m)) = 4" using inv_msg[OF Cons.prems(1)] Cons.prems(2) by (simp add: msg_ok_def)
  have n: "n < 4" using Cons.prems(3) by simp
  have "drop n (m_rights (msgs s m)) = m_rights (msgs s m) ! n # drop (Suc n) (m_rights (msgs s m))"
    using n len by (simp add: Cons_nth_drop_Suc)
  then have "fresh_ids g (m_rights (msgs s m) ! n # drop (Suc n) (m_rights (msgs s m))) (i # ids) s"
    using Cons.prems(5) by simp
  from transfer_slot_inv[OF Cons.prems(1,2) n Cons.prems(4) this]
  obtain s1 where s1: "transfer_slot g m n i s = Some s1" "ipc_inv s1" "k_msgs s1 = k_msgs s" "g_alive (groups s1 g)"
      "m_rights (msgs s1 m) = (m_rights (msgs s m))[n := None]" "fresh_ids g (drop (Suc n) (m_rights (msgs s m))) ids s1"
    by blast
  have "fresh_ids g (drop (Suc n) (m_rights (msgs s1 m))) ids s1" using s1(5,6) by simp
  from Cons.IH[OF s1(2) _ _ s1(4) this] show ?case using s1(1,3) Cons.prems(2,3) by simp
qed simp

lemma transfer_rights_inv:
  assumes I: "ipc_inv s" and q: "msg_queue (ports s p) = x # xs" and i: "fresh_ids g (get_rights x s) ids s"
  shows "keeps (transfer_rights g x ids s)"
proof (cases x)
  case (QMessage m)
  have m: "m \<in> k_msgs s" using queue_front_message[OF I] q QMessage by simp
  have len: "length (m_rights (msgs s m)) = 4" using inv_msg[OF I] m by (simp add: msg_ok_def)
  have "length xs = length ids" if "fresh_ids g xs ids s" for xs
    using that by (induction g xs ids s rule: fresh_ids.induct) auto
  then have "length ids = 4" using i len QMessage by (fastforce simp: get_rights_def)
  with transfer_loop_inv[OF I m, of 0 ids g] show ?thesis
    using I i QMessage by (auto simp: transfer_rights_def get_rights_def)
qed (use I in \<open>auto simp: transfer_rights_def\<close>)

section \<open>The end of a shared receive right\<close>

lemma shared_destroy_begin_inv:
  assumes I: "ipc_inv s" and k: "h \<in> k_shared s"
  shows "keeps (shared_destroy_begin h s)"
proof (cases "s_alive (shareds s h)")
  case False
  then show ?thesis using I by (simp add: shared_destroy_begin_def)
next
  case True
  let ?y = "(shareds s h)\<lparr>s_alive := False, s_dying := True\<rparr>"
  let ?p = "s_parent (shareds s h)" and ?i = "s_parent_id (shareds s h)"
  let ?s' = "erase_right ?p ?i (upd_shared h (\<lambda>x. x\<lparr>s_alive := False, s_dying := True\<rparr>) s)"
  have rk: "rkey s (RS h) = Some (?p, ?i)" using k True by (simp add: rkey_def)
  have P: "?p \<notin> set (rcu_ports s)" "?p \<in> k_ports s" using inv_port[OF I, of ?p] rk by (auto simp: port_ok_def)
  have keys: "gkey ?s' = gkey s" "rkey ?s' = (rkey s)(RS h := None)" "skey ?s' = skey s" "mkey ?s' = mkey s" "okey ?s' = okey s"
      "qkey ?s' = qkey s"
    by (auto simp: fun_eq_iff key_defs split: recieve_right.splits generic_message.splits)
  have v: "gv ?s' = gv s" "qv ?s' = qv s" "sv ?s' = sv s" by (auto simp: sv_def fun_eq_iff)
  have q: "qkey_but None ?s' = qkey_but None s" by (simp add: fun_eq_iff qkey_but_def keys)
  have "ipc_inv ?s'"
  proof (rule ipc_invI)
    show "kindex (pv ?s') (rkey ?s')" unfolding keys using pt.index_del[OF inv_pv[OF I] rk] by (simp add: view_eqs)
    show "lindex (sv ?s') (skey ?s')" unfolding v keys by (rule inv_sv[OF I])
    show "right_ok ?s' r" if "r \<in> k_rights ?s'" for r using inv_right[OF I, of r] that by (simp add: right_ok_def)
    show "shared_ok ?s' h'" if "h' \<in> k_shared ?s'" for h'
      using inv_shared[OF I, of h'] that True P by (cases "h' = h") (auto simp: shared_ok_def keys)
    show "port_ok ?s' p" for p using inv_port[OF I, of p] by (auto simp: port_ok_def keys)
    show "group_ok ?s' g" for g using inv_group[OF I, of g] by (simp add: group_ok_def keys)
    show "lists_ok ?s'" using inv_lists[OF I] by (simp add: lists_ok_def)
    show "ids_ok ?s'" using inv_ids[OF I] by (simp add: ids_ok_def keys)
    show "msg_ok ?s'" using inv_msg[OF I] by (simp add: msg_ok_def)
  qed (use inv_gv[OF I] inv_qv[OF I] inv_sv[OF I] inv_sl[OF I] inv_mo[OF I] in \<open>simp_all add: v keys q\<close>)
  then show ?thesis using True by (simp add: shared_destroy_begin_def)
qed

lemma shared_destroy_step_inv:
  assumes I: "ipc_inv s"
  shows "\<exists>s'. shared_destroy_step h s = Some s' \<and> ipc_inv s'"
proof (cases "send_many_rights (shareds s h)")
  case Nil
  then show ?thesis using I by (simp add: shared_destroy_step_def)
next
  case (Cons r rs)
  then have "r \<in> set (sv s h)" by (simp add: sv_def)
  then have "r \<in> k_rights s" using lindexD[OF inv_sv[OF I], of r h] by (auto simp: skey_def split: if_splits)
  from destroy_keeps[OF I this, of DeletedBySender None] show ?thesis
    using Cons by (auto simp: shared_destroy_step_def keeps_def)
qed

lemma shared_destroy_end_inv:
  assumes I: "ipc_inv s" and k: "h \<in> k_shared s" "s_dying (shareds s h)" and e: "send_many_rights (shareds s h) = []"
  shows "ipc_inv (shared_destroy_end h s)"
proof -
  let ?y = "(shareds s h)\<lparr>s_dying := False\<rparr>"
  let ?s' = "s\<lparr>shareds := (shareds s)(h := ?y), rcu_shared := h # rcu_shared s\<rparr>"
  have d: "\<not> s_alive (shareds s h)" "\<not> s_queued (shareds s h)" "h \<notin> set (rcu_shared s)"
    using inv_shared[OF I k(1)] k(2) by (auto simp: shared_ok_def)
  have q: "qkey_but None ?s' = qkey_but None s"
    by (auto simp: fun_eq_iff qkey_but_def qkey_def split: generic_message.splits)
  have "ipc_inv_but None (slots s) ?s'"
    by (rule dead_shared_inv[OF I k(1) d(1) _ _ _ _ _ _ _ _ refl q]) (use d e in \<open>auto simp: sv_def\<close>)
  moreover have "slots ?s' = slots s" by (rule slots_cong) simp_all
  ultimately show ?thesis by (simp add: shared_destroy_end_def upd_shared_def shared_rcu_push_def)
qed

lemma destroy_recieve_right_inv:
  assumes I: "ipc_inv s" and x: "po_rights (ports s p) i = Some x"
  shows "keeps (destroy_recieve_right x s)"
proof -
  have "rkey s x = Some (p, i)" using kindexD[OF inv_pv[OF I], of p i x] x by (simp add: pv_def)
  then show ?thesis
    using destroy_keeps[OF I] shared_destroy_begin_inv[OF I]
    by (auto simp: destroy_recieve_right_def rkey_def split: recieve_right.splits if_splits)
qed

section \<open>The end of ports and groups\<close>

lemma port_group_step_inv:
  assumes I: "ipc_inv s"
    and s': "s' = s\<lparr>ports := P, groups := G, k_ports := KP, k_groups := KG, rcu_ports := RP, rcu_groups := RG\<rparr>"
    and P: "\<And>p. po_rights (P p) = po_rights (ports s p)" "\<And>p. msg_queue (P p) = msg_queue (ports s p)"
      "\<And>p x i. rkey s x = Some (p, i) \<Longrightarrow> po_current_right_id (P p) = po_current_right_id (ports s p)"
    and G: "\<And>g. g_rights (G g) = g_rights (groups s g)"
      "\<And>g r i. gkey s r = Some (g, i) \<Longrightarrow> g_current_right_id (G g) = g_current_right_id (groups s g)"
    and K: "\<And>p. port_ok s' p" "\<And>g. group_ok s' g" "k_ports s \<subseteq> KP" "distinct RP" "distinct RG"
      "\<And>h. h \<in> k_shared s \<Longrightarrow> s_dying (shareds s h) \<Longrightarrow> s_parent (shareds s h) \<notin> set RP"
  shows "ipc_inv s'"
proof -
  have v: "gv s' = gv s" "pv s' = pv s" "qv s' = qv s" "sv s' = sv s"
    by (auto simp: s' gv_def pv_def qv_def sv_def G P)
  have keys: "gkey s' = gkey s" "rkey s' = rkey s" "qkey_but None s' = qkey_but None s" "skey s' = skey s" "mkey s' = mkey s" "okey s' = okey s"
    by (auto simp: fun_eq_iff key_defs qkey_but_def s' split: recieve_right.splits generic_message.splits)
  have sl: "slots s' = slots s" by (rule slots_cong) (simp_all add: s')
  show ?thesis
  proof (rule ipc_invI)
    show "kindex (gv s') (gkey s')" "kindex (pv s') (rkey s')" "lindex (qv s') (qkey_but None s')" "lindex (sv s') (skey s')"
      using I by (simp_all add: v keys inv_gv inv_pv inv_qv inv_sv)
    show "lindex (slots s') (mkey s')" unfolding sl keys by (rule inv_sl[OF I])
    show "lindex (mo_rights s') (okey s')" unfolding keys using inv_mo[OF I] by (simp add: s')
    show "right_ok s' r" if "r \<in> k_rights s'" for r using inv_right[OF I, of r] that by (simp add: right_ok_def s')
    show "shared_ok s' h" if "h \<in> k_shared s'" for h
      using inv_shared[OF I, of h] that K(3,6) unfolding shared_ok_def keys by (auto simp: s')
    show "lists_ok s'" using inv_lists[OF I] K(4,5) by (simp add: lists_ok_def s')
    show "ids_ok s'" using inv_ids[OF I] P(3) G(2) unfolding ids_ok_def keys by (simp add: s')
    show "msg_ok s'" using inv_msg[OF I] by (simp add: msg_ok_def s')
  qed (use K in auto)
qed

end
