(* ===== verification/Ipc_Sys.thy ===== *)
theory Ipc_Sys
  imports Ipc_Receive
begin

text \<open>
  The system of rights, ports and messages: the operations as events that any task can cause in any
  order. An event names a right by its address: the task looked it up earlier, and by now the right may be
  dead or reclaimed, or belong to somebody else.
\<close>

section \<open>Ports and groups come and go\<close>

lemma unknown_port:
  assumes I: "ipc_inv s" and p: "p \<notin> k_ports s"
  shows "po_rights (ports s p) = Map.empty" "msg_queue (ports s p) = []" "rkey s x \<noteq> Some (p, i)"
proof -
  have n: "\<not> po_alive (ports s p)" "\<And>x i. rkey s x \<noteq> Some (p, i)" "\<And>x. qkey s x \<noteq> Some p"
    using inv_port[OF I, of p] p by (auto simp: port_ok_def)
  show "rkey s x \<noteq> Some (p, i)" by (rule n)
  have "po_rights (ports s p) i = None" for i
    using kindexD[OF inv_pv[OF I], of p i] n(2) by (cases "po_rights (ports s p) i") (auto simp: pv_def)
  then show "po_rights (ports s p) = Map.empty" by blast
  have "x \<notin> set (msg_queue (ports s p))" for x
    using lindexD[OF inv_qv[OF I], of x p] n(3) by (simp add: qv_def qkey_but_def)
  then show "msg_queue (ports s p) = []" by (metis hd_in_set)
qed

lemma unknown_group:
  assumes I: "ipc_inv s" and g: "g \<notin> k_groups s"
  shows "g_rights (groups s g) = Map.empty" "gkey s r \<noteq> Some (g, i)"
proof -
  have n: "\<And>r i. gkey s r \<noteq> Some (g, i)" using inv_group[OF I, of g] g by (auto simp: group_ok_def)
  then show "gkey s r \<noteq> Some (g, i)" .
  have "g_rights (groups s g) i = None" for i
    using kindexD[OF inv_gv[OF I], of g i] n by (cases "g_rights (groups s g) i") (auto simp: gv_def)
  then show "g_rights (groups s g) = Map.empty" by blast
qed

lemmas step_keys = fun_eq_iff key_defs

lemma create_port_inv:
  assumes I: "ipc_inv s" and p: "p \<notin> k_ports s"
  shows "keeps (atomic_create_port (Some p) task dying s)"
proof (cases dying)
  case False
  note U = unknown_port[OF I p]
  let ?q = "\<lparr>po_alive = True, po_owner = task, msg_queue = [], po_rights = Map.empty, po_current_right_id = 0\<rparr>"
  let ?s' = "s\<lparr>ports := (ports s)(p := ?q), groups := groups s, k_ports := insert p (k_ports s), k_groups := k_groups s,
      rcu_ports := rcu_ports s, rcu_groups := rcu_groups s\<rparr>"
  have keys: "rkey ?s' = rkey s" "qkey ?s' = qkey s" "gkey ?s' = gkey s"
    by (auto simp: step_keys split: recieve_right.splits generic_message.splits)
  have "ipc_inv ?s'"
  proof (rule port_group_step_inv[OF I refl])
    have r: "p \<notin> set (rcu_ports s)" using inv_port[OF I, of p] p by (auto simp: port_ok_def)
    show "port_ok ?s' q" for q using inv_port[OF I, of q] r unfolding port_ok_def keys by auto
    show "group_ok ?s' g" for g using inv_group[OF I, of g] unfolding group_ok_def keys by simp
    show "s_parent (shareds s h) \<notin> set (rcu_ports s)" if "h \<in> k_shared s" "s_dying (shareds s h)" for h
      using inv_shared[OF I that(1)] that(2) by (simp add: shared_ok_def)
  qed (use U inv_lists[OF I] in \<open>auto simp: lists_ok_def\<close>)
  then show ?thesis using False by (simp add: atomic_create_port_def)
qed (use I in \<open>simp add: atomic_create_port_def\<close>)

lemma create_for_task_inv:
  assumes I: "ipc_inv s" and g: "\<And>g. alloc = Some g \<Longrightarrow> g \<notin> k_groups s"
  shows "ipc_inv (snd (create_for_task alloc task dying s))"
proof (cases alloc)
  case (Some g)
  note U = unknown_group[OF I g[OF Some]]
  let ?q = "\<lparr>g_tasks = (if dying then {} else {task}), g_rights = Map.empty, g_current_right_id = 0\<rparr>"
  let ?s' = "s\<lparr>ports := ports s, groups := (groups s)(g := ?q), k_ports := k_ports s, k_groups := insert g (k_groups s),
      rcu_ports := rcu_ports s, rcu_groups := if dying then g # rcu_groups s else rcu_groups s\<rparr>"
  have keys: "rkey ?s' = rkey s" "qkey ?s' = qkey s" "gkey ?s' = gkey s"
    by (auto simp: step_keys split: recieve_right.splits generic_message.splits)
  have r: "g \<notin> set (rcu_groups s)" using inv_group[OF I, of g] g[OF Some] by (auto simp: group_ok_def)
  have "ipc_inv ?s'"
  proof (rule port_group_step_inv[OF I refl])
    show "port_ok ?s' q" for q using inv_port[OF I, of q] unfolding port_ok_def keys by simp
    show "group_ok ?s' h" for h
      using inv_group[OF I, of h] r U(2) unfolding group_ok_def keys by (auto simp: g_alive_def)
    show "s_parent (shareds s h) \<notin> set (rcu_ports s)" if "h \<in> k_shared s" "s_dying (shareds s h)" for h
      using inv_shared[OF I that(1)] that(2) by (simp add: shared_ok_def)
  qed (use U r inv_lists[OF I] in \<open>auto simp: lists_ok_def\<close>)
  then show ?thesis using Some by (cases dying) (simp_all add: create_for_task_def)
qed (use I in \<open>simp add: create_for_task_def\<close>)

text \<open>Steps that mark a port or a group as dead, or hand it to read-copy-update when nothing is left in it.\<close>

lemma ending_inv:
  assumes I: "ipc_inv s"
    and s': "s' = s\<lparr>ports := P, groups := G, k_ports := k_ports s, k_groups := k_groups s, rcu_ports := RP, rcu_groups := RG\<rparr>"
    and P: "\<And>p. P p = ports s p \<or> P p = (ports s p)\<lparr>po_alive := False\<rparr>"
    and G: "\<And>g. g_rights (G g) = g_rights (groups s g)" "\<And>g. g_current_right_id (G g) = g_current_right_id (groups s g)"
      "\<And>g. g_alive (G g) \<Longrightarrow> g_alive (groups s g)"
    and RP: "distinct RP" "\<And>p. p \<in> set RP \<Longrightarrow> p \<in> set (rcu_ports s) \<or> p \<in> k_ports s \<and> \<not> po_alive (P p) \<and>
        po_rights (ports s p) = Map.empty \<and> (\<forall>h\<in>k_shared s. s_dying (shareds s h) \<longrightarrow> s_parent (shareds s h) \<noteq> p)"
    and RG: "distinct RG" "\<And>g. g \<in> set RG \<Longrightarrow> g \<in> set (rcu_groups s) \<or> g \<in> k_groups s \<and> \<not> g_alive (G g) \<and>
        g_rights (groups s g) = Map.empty"
  shows "ipc_inv s'"
proof (rule port_group_step_inv[OF I s'])
  have keys: "rkey s' = rkey s" "qkey s' = qkey s" "gkey s' = gkey s"
    by (auto simp: step_keys s' split: recieve_right.splits generic_message.splits)
  have aP: "po_alive (P p) \<Longrightarrow> po_alive (ports s p)" "po_rights (P p) = po_rights (ports s p)" "msg_queue (P p) = msg_queue (ports s p)"
      "po_current_right_id (P p) = po_current_right_id (ports s p)" for p
    using P[of p] by auto
  have aG: "g_alive (G g) \<Longrightarrow> g_alive (groups s g)" "g_rights (G g) = g_rights (groups s g)"
      "g_current_right_id (G g) = g_current_right_id (groups s g)" for g
    using G[of g] by auto
  show "po_rights (P p) = po_rights (ports s p)" "msg_queue (P p) = msg_queue (ports s p)" for p by (simp_all add: aP)
  show "g_rights (G g) = g_rights (groups s g)" for g by (simp add: aG)
  show "port_ok s' p" for p
  proof (cases "p \<in> set RP \<and> p \<notin> set (rcu_ports s)")
    case True
    then have r: "p \<in> k_ports s" "\<not> po_alive (P p)" "po_rights (ports s p) = Map.empty" using RP(2)[of p] by auto
    have "rkey s x \<noteq> Some (p, i)" for x i using kindexD[OF inv_pv[OF I], of p i x] r(3) by (simp add: pv_def)
    then show ?thesis using r unfolding port_ok_def keys by (simp add: s')
  next
    case False
    then show ?thesis using inv_port[OF I, of p] aP(1)[of p] unfolding port_ok_def keys by (auto simp: s')
  qed
  show "group_ok s' g" for g
  proof (cases "g \<in> set RG \<and> g \<notin> set (rcu_groups s)")
    case True
    then have r: "g \<in> k_groups s" "\<not> g_alive (G g)" "g_rights (groups s g) = Map.empty" using RG(2)[of g] by auto
    have "gkey s x \<noteq> Some (g, i)" for x i using kindexD[OF inv_gv[OF I], of g i x] r(3) by (simp add: gv_def)
    then show ?thesis using r unfolding group_ok_def keys by (simp add: s')
  next
    case False
    then show ?thesis using inv_group[OF I, of g] aG(1)[of g] unfolding group_ok_def keys by (auto simp: s')
  qed
  show "s_parent (shareds s h) \<notin> set RP" if "h \<in> k_shared s" "s_dying (shareds s h)" for h
    using RP(2)[of "s_parent (shareds s h)"] inv_shared[OF I that(1)] that by (auto simp: shared_ok_def)
  show "po_current_right_id (P p) = po_current_right_id (ports s p)" for p by (rule aP)
  show "g_current_right_id (G g) = g_current_right_id (groups s g)" for g by (rule aG)
qed (use RP(1) RG(1) in auto)

section \<open>Events\<close>

datatype ipc_event =
    PortCreate nat nat bool | PortDelete nat | PortRight nat nat | PortEnd nat | PortDrain nat
  | GroupCreate "nat option" nat bool | GroupAdd nat bool nat | GroupRemove nat nat | GroupRight nat nat | GroupEnd nat
  | CreateOnce "nat option" nat nat | CreateMany "nat option" "nat option" nat nat | CreateMem "nat option" nat nat nat
  | Watch nat nat | Transfer nat nat nat | Right0 nat nat | Dup "nat option" nat nat
  | Destroy nat DestroyReason "nat option" | SharedStep nat | SharedEnd nat
  | Send "nat option" "nat option" "nat option" nat nat "nat option" "nat option list" "u8 list" nat RightType bool
  | SystemSend bool "nat option" nat "u8 list"
  | UserSend bool "u8 list option ReturnStr" "nat option" nat nat
  | Receive nat nat "nat option" "bool ReturnStr" bool bool
  | Accept nat nat

text \<open>An allocator returns memory that is not in use.\<close>

definition fresh :: "nat option \<Rightarrow> nat set \<Rightarrow> bool" where
  "fresh alloc K \<longleftrightarrow> (case alloc of None \<Rightarrow> True | Some a \<Rightarrow> a \<notin> K)"

text \<open>
  When an event can happen: pointers point to objects that exist, the loops over the rights of a
  port or a group take one that is there, and they end when there is none. A port is only handed to
  read-copy-update by its owner, who has then finished destroying its receive rights.
\<close>

fun enabled :: "ipc_event \<Rightarrow> ipc \<Rightarrow> bool" where
  "enabled (PortCreate p task dying) s \<longleftrightarrow> p \<notin> k_ports s"
| "enabled (PortDelete p) s \<longleftrightarrow> True"
| "enabled (PortRight p i) s \<longleftrightarrow> po_rights (ports s p) i \<noteq> None"
| "enabled (PortEnd p) s \<longleftrightarrow> p \<in> k_ports s \<and> \<not> po_alive (ports s p) \<and> po_rights (ports s p) = Map.empty \<and>
     p \<notin> set (rcu_ports s) \<and> (\<forall>h\<in>k_shared s. s_dying (shareds s h) \<longrightarrow> s_parent (shareds s h) \<noteq> p)"
| "enabled (PortDrain p) s \<longleftrightarrow> p \<in> set (rcu_ports s) \<and> msg_queue (ports s p) \<noteq> []"
| "enabled (GroupCreate a task dying) s \<longleftrightarrow> fresh a (k_groups s)"
| "enabled (GroupAdd task dying g) s \<longleftrightarrow> True"
| "enabled (GroupRemove task g) s \<longleftrightarrow> True"
| "enabled (GroupRight g i) s \<longleftrightarrow> g_rights (groups s g) i \<noteq> None"
| "enabled (GroupEnd g) s \<longleftrightarrow> g \<in> k_groups s \<and> \<not> g_alive (groups s g) \<and> g_rights (groups s g) = Map.empty \<and>
     g \<notin> set (rcu_groups s)"
| "enabled (CreateOnce a p g) s \<longleftrightarrow> fresh a (k_rights s)"
| "enabled (CreateMany a h p g) s \<longleftrightarrow> fresh a (k_rights s) \<and> fresh h (k_shared s)"
| "enabled (CreateMem a b g perms) s \<longleftrightarrow> fresh a (k_rights s)"
| "enabled (Watch r p) s \<longleftrightarrow> r \<in> k_rights s \<and> r_type (rights s r) = SendMany"
| "enabled (Transfer r from to) s \<longleftrightarrow> r \<in> k_rights s"
| "enabled (Right0 r g) s \<longleftrightarrow> r \<in> k_rights s"
| "enabled (Dup a r g) s \<longleftrightarrow> r \<in> k_rights s \<and> fresh a (k_rights s)"
| "enabled (Destroy r reason match) s \<longleftrightarrow> r \<in> k_rights s"
| "enabled (SharedStep h) s \<longleftrightarrow> True"
| "enabled (SharedEnd h) s \<longleftrightarrow> h \<in> k_shared s \<and> s_dying (shareds s h) \<and> send_many_rights (shareds s h) = []"
| "enabled (Send am ar ah r g reply array data sender t always) s \<longleftrightarrow>
     r \<in> k_rights s \<and> set (somes array) \<subseteq> k_rights s \<and> length array = 4 \<and> fresh am (k_msgs s) \<and> fresh ar (k_rights s) \<and>
     fresh ah (k_shared s) \<and> (case reply of None \<Rightarrow> True | Some p \<Rightarrow> po_alive (ports s p)) \<and> t \<noteq> MemObject"
| "enabled (SystemSend resized a p data) s \<longleftrightarrow>
     p \<in> k_ports s \<and> p \<notin> set (rcu_ports s) \<and> fresh a (k_msgs s) \<and> data \<noteq> []"
| "enabled (UserSend resized copied a task p) s \<longleftrightarrow> p \<in> k_ports s \<and> p \<notin> set (rcu_ports s) \<and> fresh a (k_msgs s)"
| "enabled (Receive task p ns copied nopop reject) s \<longleftrightarrow> pop_safe p reject s"
| "enabled (Accept p g) s \<longleftrightarrow> msg_queue (ports s p) \<noteq> []"

fun exec :: "ipc_event \<Rightarrow> ipc \<Rightarrow> ipc option" where
  "exec (PortCreate p task dying) s = map_option snd (atomic_create_port (Some p) task dying s)"
| "exec (PortDelete p) s = Some (snd (port_delete_begin p s))"
| "exec (PortRight p i) s = port_delete_right p i s"
| "exec (PortEnd p) s = Some (port_delete_end p s)"
| "exec (PortDrain p) s = remove_front None p s"
| "exec (GroupCreate a task dying) s = Some (snd (create_for_task a task dying s))"
| "exec (GroupAdd task dying g) s = Some (snd (atomic_register_task task dying g s))"
| "exec (GroupRemove task g) s = Some (snd (atomic_remove_task task g s))"
| "exec (GroupRight g i) s = group_destroy_right g (the (g_rights (groups s g) i)) s"
| "exec (GroupEnd g) s = Some (group_destroy_end g s)"
| "exec (CreateOnce a p g) s =
     (let (i, s1) = new_port_right_id p s in map_option snd (send_once_create_for_group a p g i s1))"
| "exec (CreateMany a h p g) s =
     (let (i, s1) = new_port_right_id p s in map_option snd (send_many_create_for_group a h p g i s1))"
| "exec (CreateMem a b g perms) s = map_option snd (mem_object_create_for_group a b g perms s)"
| "exec (Watch r p) s = Some (snd (atomic_watch r p s))"
| "exec (Transfer r from to) s = Some (snd (atomic_transfer_to_group r from to s))"
| "exec (Right0 r g) s = Some (snd (set_right0 r g s))"
| "exec (Dup a r g) s = Some (snd (duplicate a r g s))"
| "exec (Destroy r reason match) s = map_option snd (destroy r reason match s)"
| "exec (SharedStep h) s = shared_destroy_step h s"
| "exec (SharedEnd h) s = Some (shared_destroy_end h s)"
| "exec (Send am ar ah r g reply array data sender t always) s =
     map_option snd (send_message_right am ar ah r g reply array data sender t always s)"
| "exec (SystemSend resized a p data) s = map_option snd (atomic_send_from_system resized a p data s)"
| "exec (UserSend resized copied a task p) s = map_option snd (atomic_send_from_user resized copied a task p s)"
| "exec (Receive task p ns copied nopop reject) s =
     map_option snd (get_first_message task p ns copied nopop reject s)"
| "exec (Accept p g) s =
     (let x = hd (msg_queue (ports s p)); (ids, s1) = new_right_ids g (get_rights x s) s in
      map_option snd (transfer_rights g x ids s1))"

lemma keeps_exec: "keeps res \<Longrightarrow> \<exists>s'. map_option snd res = Some s' \<and> ipc_inv s'"
  by (auto simp: keeps_def)

lemma create_exec:
  assumes I: "ipc_inv s" and n: "new_port_right_id p s = (i, s1)"
  shows "ipc_inv s1" "fresh_id p i s1" "k_rights s1 = k_rights s" "k_shared s1 = k_shared s"
proof -
  note N = new_port_right_id_inv[OF I n]
  show "k_rights s1 = k_rights s" "k_shared s1 = k_shared s" by (simp_all add: N(5))
  have "slots s1 = slots s" by (simp add: N(5))
  then show "ipc_inv s1" using N(1) by simp
  show "fresh_id p i s1" using N(2,4) eq_refl[OF N(3)] by (simp add: fresh_id_def)
qed

lemma accept_exec:
  assumes I: "ipc_inv s" and q: "msg_queue (ports s p) = x # xs" and n: "new_right_ids g (get_rights x s) s = (ids, s1)"
  shows "ipc_inv s1" "keeps (transfer_rights g x ids s1)"
proof -
  note N = new_right_ids_inv[OF I n]
  show "ipc_inv s1" using N by blast
  have "get_rights x s1 = get_rights x s" using N by (simp add: get_rights_def split: generic_message.splits)
  then show "keeps (transfer_rights g x ids s1)" using transfer_rights_inv[of s1 p x xs g ids] N q by simp
qed

text \<open>The events that end a port or a group.\<close>

lemma ending_exec:
  assumes I: "ipc_inv s"
  shows "ipc_inv (snd (port_delete_begin p s))" "enabled (PortEnd p) s \<Longrightarrow> ipc_inv (port_delete_end p s)"
    "ipc_inv (snd (atomic_register_task task dying g s))" "ipc_inv (snd (atomic_remove_task task g s))"
    "enabled (GroupEnd g) s \<Longrightarrow> ipc_inv (group_destroy_end g s)"
proof -
  note L = inv_lists[OF I]
  have "ipc_inv (upd_port p (\<lambda>q. q\<lparr>po_alive := False\<rparr>) s)"
    by (rule ending_inv[where P = "(ports s)(p := (ports s p)\<lparr>po_alive := False\<rparr>)" and G = "groups s" and RP = "rcu_ports s" and RG = "rcu_groups s", OF I])
      (use L in \<open>auto simp: upd_port_def lists_ok_def\<close>)
  then show "ipc_inv (snd (port_delete_begin p s))" using I by (simp add: port_delete_begin_def)
  have tasks: "ipc_inv (upd_group g (\<lambda>q. q\<lparr>g_tasks := T\<rparr>) s)" if "T \<noteq> {} \<Longrightarrow> g_alive (groups s g)" for T
    by (rule ending_inv[where P = "ports s" and G = "(groups s)(g := (groups s g)\<lparr>g_tasks := T\<rparr>)" and RP = "rcu_ports s"
          and RG = "rcu_groups s", OF I]) (use L that in \<open>auto simp: upd_group_def lists_ok_def g_alive_def split: if_splits\<close>)
  have upd: "upd_group g (\<lambda>q. q\<lparr>g_tasks := f (g_tasks q)\<rparr>) s = upd_group g (\<lambda>q. q\<lparr>g_tasks := f (g_tasks (groups s g))\<rparr>) s" for f
    by (simp add: upd_group_def)
  show "ipc_inv (snd (atomic_register_task task dying g s))"
    using I tasks upd[of "insert task"] by (simp add: atomic_register_task_def)
  show "ipc_inv (snd (atomic_remove_task task g s))"
    using I tasks upd[of "\<lambda>T. T - {task}"] by (auto simp: atomic_remove_task_def g_alive_def)
  show "enabled (PortEnd p) s \<Longrightarrow> ipc_inv (port_delete_end p s)"
    by (rule ending_inv[where P = "ports s" and G = "groups s" and RP = "p # rcu_ports s" and RG = "rcu_groups s", OF I])
      (use L in \<open>auto simp: port_delete_end_def lists_ok_def\<close>)
  show "enabled (GroupEnd g) s \<Longrightarrow> ipc_inv (group_destroy_end g s)"
    by (rule ending_inv[where P = "ports s" and G = "groups s" and RP = "rcu_ports s" and RG = "g # rcu_groups s", OF I])
      (use L in \<open>auto simp: group_destroy_end_def lists_ok_def\<close>)
qed

lemma exec_inv:
  assumes I: "ipc_inv s" and e: "enabled e s"
  shows "\<exists>s'. exec e s = Some s' \<and> ipc_inv s'"
proof (cases e)
  case (PortCreate p task dying)
  then show ?thesis using keeps_exec[OF create_port_inv[OF I, of p task dying]] e by simp
next
  case (PortRight p i)
  then obtain x where x: "po_rights (ports s p) i = Some x" using e by auto
  show ?thesis using keeps_exec[OF destroy_recieve_right_inv[OF I x]] x PortRight by (simp add: port_delete_right_def)
next
  case (PortDrain p)
  then obtain x xs where q: "msg_queue (ports s p) = x # xs" using e by (cases "msg_queue (ports s p)") auto
  show ?thesis using remove_front_inv[OF I q, where held = None] PortDrain by (metis exec.simps(5) lock_safe_None)
next
  case (GroupCreate a task dying)
  then show ?thesis using create_for_task_inv[OF I, of a task dying] e by (cases a) (simp_all add: fresh_def)
next
  case (GroupRight g i)
  then obtain r where r: "g_rights (groups s g) i = Some r" using e by auto
  then have "gkey s r = Some (g, i)" using kindexD[OF inv_gv[OF I], of g i r] by (simp add: gv_def)
  then have "r \<in> k_rights s" by (simp add: gkey_def split: if_splits)
  from keeps_exec[OF destroy_keeps[OF I this, of DeletedBySender "Some g"]] show ?thesis
    using r GroupRight by (simp add: group_destroy_right_def)
next
  case (CreateOnce a p g)
  obtain i s1 where n: "new_port_right_id p s = (i, s1)" by fastforce
  note C = create_exec[OF I n]
  show ?thesis
    using keeps_exec[OF send_once_create_inv[OF C(1,2), of a g]] e CreateOnce n by (cases a) (simp_all add: C fresh_def)
next
  case (CreateMany a h p g)
  obtain i s1 where n: "new_port_right_id p s = (i, s1)" by fastforce
  note C = create_exec[OF I n]
  show ?thesis
    using keeps_exec[OF send_many_create_inv[OF C(1,2), of a h g]] e CreateMany n by (cases a; cases h) (simp_all add: C fresh_def)
next
  case (CreateMem a b g perms)
  then show ?thesis using keeps_exec[OF mem_object_create_inv[OF I, of a b g perms]] e by (cases a) (simp_all add: fresh_def)
next
  case (Dup a r g)
  then show ?thesis using duplicate_inv[OF I, of r a g] e by (cases a) (simp_all add: fresh_def)
next
  case (Destroy r reason match)
  then show ?thesis using keeps_exec[OF destroy_keeps[OF I, of r reason match]] e by simp
next
  case (SharedStep h)
  then show ?thesis using shared_destroy_step_inv[OF I, of h] by simp
next
  case (Send am ar ah r g reply array data sender t always)
  have "t = SendOnce \<or> t = SendMany" using e Send by (cases t) auto
  then have "keeps (send_message_right am ar ah r g reply array data sender t always s)"
    using e Send by (intro send_message_right_inv[OF I]) (auto simp: fresh_def split: option.splits)
  from keeps_exec[OF this] show ?thesis using Send by simp
next
  case (SystemSend resized a p data)
  then show ?thesis
    using keeps_exec[OF atomic_send_from_system_inv[OF I, of p a data resized]] e by (cases a) (simp_all add: fresh_def)
next
  case (UserSend resized copied a task p)
  then show ?thesis
    using keeps_exec[OF atomic_send_from_user_inv[OF I, of p a resized copied task]] e by (cases a) (simp_all add: fresh_def)
next
  case (Receive task p ns copied nopop reject)
  then show ?thesis using keeps_exec[OF get_first_message_inv[OF I, of p reject task ns copied nopop]] e by simp
next
  case (Accept p g)
  then obtain x xs where q: "msg_queue (ports s p) = x # xs" using e by (cases "msg_queue (ports s p)") auto
  obtain ids s1 where n: "new_right_ids g (get_rights x s) s = (ids, s1)" by fastforce
  from keeps_exec[OF accept_exec(2)[OF I q n]] show ?thesis using Accept q n by simp
qed (use I e ending_exec atomic_watch_inv atomic_transfer_inv set_right0_inv shared_destroy_end_inv in simp_all)

section \<open>Reachable states\<close>

definition ipc_init :: ipc where
  "ipc_init = \<lparr>rights = (\<lambda>_. new_right SendOnce 0), shareds = (\<lambda>_. (new_shared 0 0 0)\<lparr>send_many_rights := []\<rparr>),
     msgs = (\<lambda>_. \<lparr>task_id_from = 0, m_sent_with_right = 0, m_content = [], m_reply_right = None, m_rights = [], m_port = 0\<rparr>),
     ports = (\<lambda>_. \<lparr>po_alive = False, po_owner = 0, msg_queue = [], po_rights = Map.empty, po_current_right_id = 0\<rparr>),
     groups = (\<lambda>_. \<lparr>g_tasks = {}, g_rights = Map.empty, g_current_right_id = 0\<rparr>),
     mo_rights = (\<lambda>_. []), k_rights = {}, k_shared = {}, k_msgs = {}, k_ports = {}, k_groups = {},
     rcu_rights = [], rcu_shared = [], rcu_ports = [], rcu_groups = [], right0_id = 0, port0_id = 0\<rparr>"

inductive ipc_reach :: "ipc \<Rightarrow> bool" where
  init: "ipc_reach ipc_init"
| step: "ipc_reach s \<Longrightarrow> enabled e s \<Longrightarrow> exec e s = Some s' \<Longrightarrow> ipc_reach s'"

lemma ipc_init_inv: "ipc_inv ipc_init"
proof (rule ipc_invI)
  show "ids_ok ipc_init" "msg_ok ipc_init" "lists_ok ipc_init"
    by (simp_all add: ipc_init_def ids_ok_def msg_ok_def lists_ok_def gkey_def rkey_def split: recieve_right.splits)
qed (auto simp: ipc_init_def kindex_def lindex_def gv_def pv_def qv_def sv_def key_defs qkey_but_def slots_def port_ok_def group_ok_def g_alive_def
      new_right_def new_shared_def split: recieve_right.splits generic_message.splits)

lemma ipc_reach_inv: "ipc_reach s \<Longrightarrow> ipc_inv s"
proof (induction rule: ipc_reach.induct)
  case init
  show ?case by (rule ipc_init_inv)
next
  case (step s e s')
  then show ?case using exec_inv[OF step.IH step.hyps(2)] by simp
qed

end
