(* ===== verification/Ipc_Calls.thy ===== *)
theory Ipc_Calls
  imports Ipc
begin

text \<open>
  The system calls on rights, ports and messages (\<open>processes/syscalls.cc\<close>). The identifiers a task
  gives are looked up in its rights namespace and in the table of ports; \<open>copied\<close> is what the copy from or to
  the memory of the task returns, and \<open>alloc\<close> arguments are what the allocator returns. A port is in
  the table as long as it is alive.
\<close>

section \<open>Lookup\<close>

definition atomic_get_port :: "nat \<Rightarrow> ipc \<Rightarrow> nat option" where
  "atomic_get_port portno s =
     (let n = (if portno = 0 then port0_id s else portno) in if po_alive (ports s n) then Some n else None)"

definition get_task_group :: "nat \<Rightarrow> ipc \<Rightarrow> nat option" where
  "get_task_group g s = (if g_alive (groups s g) then Some g else None)"

text \<open>Identifier 0 is right 0, which is a right of the kernel's own group.\<close>

definition right_of_id :: "nat \<Rightarrow> nat \<Rightarrow> ipc \<Rightarrow> nat option" where
  "right_of_id g i s = (if i \<noteq> 0 then atomic_get_right g i s else atomic_get_right kernel_tasks (right0_id s) s)"

section \<open>Rights\<close>

definition syscall_create_right ::
    "nat option \<Rightarrow> nat option \<Rightarrow> nat \<Rightarrow> nat option \<Rightarrow> nat \<Rightarrow> bool ReturnStr option \<Rightarrow> bool \<Rightarrow> ipc \<Rightarrow> (outcome \<times> ipc) option" where
  "syscall_create_right alloc alloc_shared current ns port_id copied send_once s =
     (case ns of None \<Rightarrow> Some (Fail ESRCH 0, s)
      | Some g \<Rightarrow>
        (case atomic_get_port port_id s of None \<Rightarrow> Some (Fail ESRCH 0, s)
         | Some p \<Rightarrow>
           if po_owner (ports s p) \<noteq> current then Some (Fail EPERM 0, s)
           else let (i, s1) = new_port_right_id p s in
             (case copied of
                Some (Inl e) \<Rightarrow> Some (Fail e 0, s1)
              | Some (Inr False) \<Rightarrow> Some (Repeat, s1)
              | _ \<Rightarrow>
                (case (if send_once then send_once_create_for_group alloc p g i s1
                       else send_many_create_for_group alloc alloc_shared p g i s1) of
                   None \<Rightarrow> None
                 | Some (Inl e, s2) \<Rightarrow> Some (Fail e 0, s2)
                 | Some (Inr r, s2) \<Rightarrow> Some (Return (right_sender_id (rights s2 r)), s2)))))"

definition syscall_set_right0 :: "nat option \<Rightarrow> nat \<Rightarrow> ipc \<Rightarrow> outcome \<times> ipc" where
  "syscall_set_right0 ns right_id s =
     (case ns of None \<Rightarrow> (Fail ESRCH 0, s)
      | Some g \<Rightarrow>
        (case atomic_get_right g right_id s of None \<Rightarrow> (Fail ESRCH 0, s)
         | Some r \<Rightarrow>
           if r_type (rights s r) \<noteq> SendMany then (Fail EPERM 0, s)
           else (case set_right0 r g s of (Inl e, s1) \<Rightarrow> (Fail e 0, s1) | (Inr _, s1) \<Rightarrow> (Return 0, s1))))"

definition syscall_delete_send_right :: "nat option \<Rightarrow> nat \<Rightarrow> ipc \<Rightarrow> (outcome \<times> ipc) option" where
  "syscall_delete_send_right ns right_id s =
     (case ns of None \<Rightarrow> Some (Fail ESRCH 0, s)
      | Some g \<Rightarrow>
        (case atomic_get_right g right_id s of None \<Rightarrow> Some (Fail ESRCH 0, s)
         | Some r \<Rightarrow>
           do { (result, s1) \<leftarrow> destroy r DeletedBySender (Some g) s;
                Some (if result then Return 0 else Fail ENOENT 0, s1) }))"

definition syscall_dup_right :: "nat option \<Rightarrow> nat option \<Rightarrow> nat \<Rightarrow> ipc \<Rightarrow> outcome \<times> ipc" where
  "syscall_dup_right alloc ns right_id s =
     (case ns of None \<Rightarrow> (Fail ESRCH 0, s)
      | Some g \<Rightarrow>
        (case atomic_get_right g right_id s of None \<Rightarrow> (Fail ENOENT 0, s)
         | Some r \<Rightarrow>
           (case duplicate alloc r g s of
              (Inl e, s1) \<Rightarrow> (Fail e 0, s1) | (Inr (_, i), s1) \<Rightarrow> (Return i, s1))))"

definition syscall_transfer_right :: "nat option \<Rightarrow> nat \<Rightarrow> nat \<Rightarrow> ipc \<Rightarrow> outcome \<times> ipc" where
  "syscall_transfer_right ns to_group right_id s =
     (case ns of None \<Rightarrow> (Fail ESRCH 0, s)
      | Some g \<Rightarrow>
        (case get_task_group to_group s of None \<Rightarrow> (Fail ENOENT 0, s)
         | Some t \<Rightarrow>
           (case atomic_get_right g right_id s of None \<Rightarrow> (Fail ENOENT 0, s)
            | Some r \<Rightarrow>
              (case atomic_transfer_to_group r g t s of
                 (Inl e, s1) \<Rightarrow> (Fail e 0, s1) | (Inr i, s1) \<Rightarrow> (Return i, s1)))))"

definition type_as_int :: "RightType \<Rightarrow> nat" where
  "type_as_int t = (case t of SendOnce \<Rightarrow> 1 | SendMany \<Rightarrow> 2 | MemObject \<Rightarrow> 3)"

definition syscall_get_right_type :: "nat option \<Rightarrow> nat \<Rightarrow> ipc \<Rightarrow> outcome" where
  "syscall_get_right_type ns right_id s =
     (case ns of None \<Rightarrow> Fail ESRCH 0
      | Some g \<Rightarrow>
        (case right_of_id g right_id s of None \<Rightarrow> Fail ENOENT 0
         | Some r \<Rightarrow> Return (type_as_int (r_type (rights s r)))))"

definition syscall_watch_right :: "nat \<Rightarrow> nat option \<Rightarrow> nat \<Rightarrow> nat \<Rightarrow> ipc \<Rightarrow> outcome \<times> ipc" where
  "syscall_watch_right current ns right_id port_id s =
     (case ns of None \<Rightarrow> (Fail ESRCH 0, s)
      | Some g \<Rightarrow>
        (case right_of_id g right_id s of None \<Rightarrow> (Fail ENOENT 0, s)
         | Some r \<Rightarrow>
           if r_type (rights s r) \<noteq> SendMany then (Fail ENOSYS 0, s)
           else (case atomic_get_port port_id s of None \<Rightarrow> (Fail ENOENT 0, s)
                 | Some p \<Rightarrow>
                   if po_owner (ports s p) \<noteq> current then (Fail EPERM 0, s)
                   else (case atomic_watch r p s of
                           (Inl e, s1) \<Rightarrow> (Fail e 0, s1) | (Inr i, s1) \<Rightarrow> (Return i, s1)))))"

section \<open>Messages\<close>

text \<open>The identifiers of the rights to send along; the position of the first that is no right of the group.\<close>

fun lookup_rights :: "nat \<Rightarrow> ipc \<Rightarrow> nat \<Rightarrow> nat list \<Rightarrow> nat + nat option list" where
  "lookup_rights g s n [] = Inr []"
| "lookup_rights g s n (i # ids) =
     (if i = 0
      then (case lookup_rights g s (n + 1) ids of Inl k \<Rightarrow> Inl k | Inr xs \<Rightarrow> Inr (None # xs))
      else (case atomic_get_right g i s of None \<Rightarrow> Inl (n + 1)
            | Some r \<Rightarrow> (case lookup_rights g s (n + 1) ids of Inl k \<Rightarrow> Inl k | Inr xs \<Rightarrow> Inr (Some r # xs))))"

text \<open>
  \<open>args\<close>, \<open>buffer\<close> and \<open>aux\<close> are what reading the remaining arguments, the message and the identifiers of the
  rights returns. When the message cannot be read the code returns the result of the arguments, which
  is no error at that point.
\<close>

definition syscall_send_message_right ::
    "nat option \<Rightarrow> nat option \<Rightarrow> nat option \<Rightarrow> nat \<Rightarrow> nat option \<Rightarrow> nat \<Rightarrow> nat \<Rightarrow> bool ReturnStr \<Rightarrow> u8 list option ReturnStr \<Rightarrow>
     nat list option ReturnStr option \<Rightarrow> bool \<Rightarrow> bool \<Rightarrow> ipc \<Rightarrow> (outcome \<times> ipc) option" where
  "syscall_send_message_right alloc_msg alloc_reply alloc_shared current ns right_id reply_port_id args buffer aux many always s =
     (case args of Inl e \<Rightarrow> Some (Fail e 0, s)
      | Inr False \<Rightarrow> Some (Repeat, s)
      | Inr True \<Rightarrow>
     (case buffer of Inl e \<Rightarrow> Some (Return 0, s)
      | Inr None \<Rightarrow> Some (Repeat, s)
      | Inr (Some data) \<Rightarrow>
     (case ns of None \<Rightarrow> Some (Fail ESRCH 0, s)
      | Some g \<Rightarrow>
     (case right_of_id g right_id s of None \<Rightarrow> Some (Fail ENOENT 0, s)
      | Some right \<Rightarrow>
        (if reply_port_id \<noteq> 0 \<and> atomic_get_port reply_port_id s = None then Some (Fail ENOENT (- 1), s)
         else if reply_port_id \<noteq> 0 \<and> po_owner (ports s (the (atomic_get_port reply_port_id s))) \<noteq> current
         then Some (Fail EPERM 0, s)
         else let reply_port = (if reply_port_id = 0 then None else atomic_get_port reply_port_id s) in
          (case aux of
             Some (Inl e) \<Rightarrow> Some (Fail e 0, s)
           | Some (Inr None) \<Rightarrow> Some (Repeat, s)
           | _ \<Rightarrow>
             (case lookup_rights g s 0 (case aux of Some (Inr (Some ids)) \<Rightarrow> ids | _ \<Rightarrow> replicate 4 0) of
                Inl k \<Rightarrow> Some (Fail ESRCH (int k), s)
              | Inr array \<Rightarrow>
                (case send_message_right alloc_msg alloc_reply alloc_shared right g reply_port array data current
                        (if many then SendMany else SendOnce) always s of
                   None \<Rightarrow> None
                 | Some (Inl (e, k), s1) \<Rightarrow> Some (Fail e (int k), s1)
                 | Some (Inr (_, i), s1) \<Rightarrow>
                     do { kassert (\<not> (reply_port \<noteq> None \<and> i = 0)); Some (Return i, s1) }))))))))"

definition syscall_send_message_port ::
    "bool \<Rightarrow> nat option \<Rightarrow> nat \<Rightarrow> bool ReturnStr \<Rightarrow> nat \<Rightarrow> bool \<Rightarrow> u8 list option ReturnStr \<Rightarrow> ipc \<Rightarrow> (outcome \<times> ipc) option" where
  "syscall_send_message_port resized alloc current args port_num has_mem_object buffer s =
     (case args of Inl e \<Rightarrow> Some (Fail e 0, s)
      | Inr False \<Rightarrow> Some (Repeat, s)
      | Inr True \<Rightarrow>
        (case atomic_get_port port_num s of None \<Rightarrow> Some (Fail ENOENT 0, s)
         | Some p \<Rightarrow>
           if has_mem_object then Some (Fail ENOSYS 0, s)
           else (case atomic_send_from_user resized buffer alloc current p s of None \<Rightarrow> None
                 | Some (Inl e, s1) \<Rightarrow> Some (Fail e 0, s1)
                 | Some (Inr False, s1) \<Rightarrow> Some (Repeat, s1)
                 | Some (Inr True, s1) \<Rightarrow> Some (Return 0, s1))))"

definition syscall_get_first_message ::
    "nat \<Rightarrow> nat option \<Rightarrow> nat \<Rightarrow> bool ReturnStr \<Rightarrow> bool \<Rightarrow> bool \<Rightarrow> ipc \<Rightarrow> (outcome \<times> ipc) option" where
  "syscall_get_first_message current ns portno copied nopop reject s =
     (case atomic_get_port portno s of None \<Rightarrow> Some (Fail ENOENT 0, s)
      | Some p \<Rightarrow> get_first_message current p ns copied nopop reject s)"

text \<open>The front of an empty queue is no message: the code goes on with whatever is there.\<close>

definition syscall_accept_rights :: "nat \<Rightarrow> nat option \<Rightarrow> nat \<Rightarrow> bool ReturnStr \<Rightarrow> ipc \<Rightarrow> (outcome \<times> ipc) option" where
  "syscall_accept_rights current ns port_id copied s =
     (case ns of None \<Rightarrow> Some (Fail ESRCH 0, s)
      | Some g \<Rightarrow>
        (case atomic_get_port port_id s of None \<Rightarrow> Some (Fail ENOENT 0, s)
         | Some p \<Rightarrow>
           if po_owner (ports s p) \<noteq> current then Some (Fail EPERM 0, s)
           else (case msg_queue (ports s p) of [] \<Rightarrow> None
            | x # _ \<Rightarrow>
              (let (ids, s1) = new_right_ids g (get_rights x s) s in
               (case copied of Inl e \<Rightarrow> Some (Fail e 0, s1)
                | Inr False \<Rightarrow> Some (Repeat, s1)
                | Inr True \<Rightarrow>
                  (case transfer_rights g x ids s1 of None \<Rightarrow> None
                   | Some (Inl e, s2) \<Rightarrow> Some (Fail e 0, s2)
                   | Some (Inr _, s2) \<Rightarrow> Some (Return 0, s2)))))))"

text \<open>What a receiver is told about the first message.\<close>

record Message_Descriptor =
  sender :: nat
  size_of :: nat
  sent_with_right :: nat
  other_rights_count :: nat
  flags :: u32

definition message_size :: "generic_message \<Rightarrow> ipc \<Rightarrow> nat" where
  "message_size x s = (case x of QMessage m \<Rightarrow> length (m_content (msgs s m)) | _ \<Rightarrow> 8)"

definition message_sender :: "generic_message \<Rightarrow> ipc \<Rightarrow> nat" where
  "message_sender x s = (case x of QMessage m \<Rightarrow> task_id_from (msgs s m) | _ \<Rightarrow> 0)"

definition message_right :: "generic_message \<Rightarrow> ipc \<Rightarrow> nat" where
  "message_right x s =
     (case x of QMessage m \<Rightarrow> m_sent_with_right (msgs s m)
      | QRight r \<Rightarrow> right_parent_id (rights s r)
      | QShared h \<Rightarrow> s_parent_id (shareds s h))"

definition reply_flags :: "nat option \<Rightarrow> ipc \<Rightarrow> u32" where
  "reply_flags reply s =
     or (if reply \<noteq> None then 1 else 0)
        (if reply \<noteq> None \<and> r_type (rights s (the reply)) = SendMany then 2 else 0)"

fun type_flags :: "nat \<Rightarrow> nat option list \<Rightarrow> ipc \<Rightarrow> u32 \<Rightarrow> u32" where
  "type_flags i [] s f = f"
| "type_flags i (None # xs) s f = type_flags (i + 1) xs s f"
| "type_flags i (Some r # xs) s f =
     type_flags (i + 1) xs s (or f (push_bit (16 + i * 4) (of_nat (type_as_int (r_type (rights s r))))))"

definition message_descriptor :: "generic_message \<Rightarrow> ipc \<Rightarrow> Message_Descriptor" where
  "message_descriptor x s =
     \<lparr>sender = message_sender x s, size_of = message_size x s, sent_with_right = message_right x s,
      other_rights_count = length (somes (get_rights x s)),
      flags = type_flags 0 (get_rights x s) s (reply_flags (get_reply_right x s) s)\<rparr>"

definition syscall_get_message_info ::
    "nat \<Rightarrow> nat \<Rightarrow> bool \<Rightarrow> bool ReturnStr \<Rightarrow> ipc \<Rightarrow> (outcome \<times> Message_Descriptor option) option" where
  "syscall_get_message_info task portno noblock copied s =
     (case atomic_get_port portno s of None \<Rightarrow> Some (Fail ENOENT 0, None)
      | Some p \<Rightarrow>
        if po_owner (ports s p) \<noteq> task then Some (Fail EPERM 0, None)
        else (case msg_queue (ports s p) of
                [] \<Rightarrow> Some (if noblock then Fail EAGAIN 0 else Repeat, None)
              | x # _ \<Rightarrow>
                (case copied of Inl e \<Rightarrow> Some (Fail e 0, None)
                 | Inr b \<Rightarrow> do { kassert b; Some (Return 0, Some (message_descriptor x s)) })))"

section \<open>Ports\<close>

definition syscall_create_port :: "nat option \<Rightarrow> nat option \<Rightarrow> bool \<Rightarrow> ipc \<Rightarrow> (outcome \<times> ipc) option" where
  "syscall_create_port alloc task dying s =
     (case task of None \<Rightarrow> Some (Fail ESRCH 0, s)
      | Some t \<Rightarrow>
        (case atomic_create_port alloc t dying s of None \<Rightarrow> None
         | Some (None, s1) \<Rightarrow> Some (Fail ENOMEM 0, s1)
         | Some (Some p, s1) \<Rightarrow> Some (Return p, s1)))"

definition syscall_delete_port :: "nat \<Rightarrow> nat \<Rightarrow> ipc \<Rightarrow> outcome \<times> ipc" where
  "syscall_delete_port current port_id s =
     (case atomic_get_port port_id s of None \<Rightarrow> (Fail ENOENT 0, s)
      | Some p \<Rightarrow>
        if po_owner (ports s p) \<noteq> current then (Fail EPERM 0, s)
        else (case port_delete_begin p s of (True, s1) \<Rightarrow> (Return 0, s1) | (False, s1) \<Rightarrow> (Fail ENOENT 0, s1)))"

end
