(* ===== verification/Ipc_Props.thy ===== *)
theory Ipc_Props
  imports Ipc_Sys Ipc_Calls
begin

text \<open>The properties of rights, ports and messages, and of the system calls on them.\<close>

section \<open>Runs\<close>

fun run :: "ipc_event list \<Rightarrow> ipc \<Rightarrow> ipc option" where
  "run [] s = Some s"
| "run (e # es) s = (if enabled e s then exec e s \<bind> run es else None)"

lemma run_reach: "ipc_reach s \<Longrightarrow> run es s = Some s' \<Longrightarrow> ipc_reach s'"
  by (induction es arbitrary: s) (auto split: if_splits Option.bind_splits intro: ipc_reach.step)

lemmas ipc_eval = new_right_def new_shared_def add_right_def add_shared_def insert_right_def group_insert_def group_erase_def
  erase_right_def mo_insert_def enqueue_def upd_right_def upd_shared_def upd_port_def upd_group_def upd_msg_def rcu_push_def
  shared_rcu_push_def next_right_id_def new_port_right_id_def lock_port_def fresh_def g_alive_def Let_def
  atomic_create_port_def create_for_task_def send_once_create_for_group_def send_many_create_for_group_def
  send_message_right_def parent_port_def right_id_in_reciever_def of_group_def destroy_nolock_def send_once_destroy_nolock_def
  send_many_destroy_nolock_def not_matching_def remove_from_parent_def leave_group_def leave_shared_def destroy_def

text \<open>
  Task 7 has the port 1 and the group 5. It makes a right 10 to send many messages and a right 12
  to send one, and sends itself a message through right 12 that carries right 10.
\<close>

definition demo :: "ipc_event list" where
  "demo = [PortCreate 1 7 False, GroupCreate (Some 5) 7 False, CreateMany (Some 10) (Some 20) 1 5, CreateOnce (Some 12) 1 5,
     Send (Some 30) None None 12 5 None [Some 10, None, None, None] [1, 2, 3] 7 SendOnce False]"

definition demo_state :: ipc where
  "demo_state = the (run demo ipc_init)"

lemma demo_run: "run demo ipc_init = Some demo_state"
  by (simp add: demo_state_def demo_def ipc_init_def ipc_eval)

lemma demo_reach: "ipc_reach demo_state"
  by (rule run_reach[OF ipc_reach.init demo_run])

lemma demo_facts: "msg_queue (ports demo_state 1) = [QMessage 30]"
  by (simp add: demo_state_def demo_def ipc_init_def ipc_eval)

section \<open>Notifications\<close>

text \<open>What the destruction of a right puts into which queue.\<close>

definition notices :: "DestroyReason \<Rightarrow> nat \<Rightarrow> ipc \<Rightarrow> (nat \<times> generic_message) list" where
  "notices reason r s =
     (case r_type (rights s r) of
        SendOnce \<Rightarrow> if reason = DeletedBySender then [(r_parent (rights s r), QRight r)] else []
      | SendMany \<Rightarrow>
          (if notification_port (rights s r) then [(r_parent (rights s r), QRight r)] else []) @
          (if last_right r s
           then [(s_parent (shareds s (r_shared (rights s r))), QShared (r_shared (rights s r)))] else [])
      | MemObject \<Rightarrow> [])"

definition posted :: "(nat \<times> generic_message) list \<Rightarrow> nat \<Rightarrow> generic_message list" where
  "posted ns p = map snd (filter (\<lambda>n. fst n = p) ns)"

lemma msg_queue_prims [simp]:
  "msg_queue (ports (enqueue p x s) q) = msg_queue (ports s q) @ (if q = p then [x] else [])"
  "msg_queue (ports (leave_group r s) q) = msg_queue (ports s q)"
  by (simp_all add: enqueue_def)

lemma destroy_queues:
  assumes I: "ipc_inv s" and k: "r \<in> k_rights s" and a: "r_alive (rights s r)"
  shows "\<exists>s'. destroy r reason None s = Some (True, s') \<and> \<not> r_alive (rights s' r) \<and>
    (\<forall>p. msg_queue (ports s' p) = msg_queue (ports s p) @ posted (notices reason r s) p)"
proof -
  have m: "\<not> not_matching None (rights s r)" using a by (simp add: not_matching_def)
  show ?thesis
  proof (cases "r_type (rights s r)")
    case SendOnce
    have "r_parent (rights s r) \<notin> set (rcu_ports s)"
      using parent_port_ok(1)[OF I k a] SendOnce by (simp add: parent_port_def)
    then show ?thesis
      using m SendOnce
      by (auto simp: destroy_def destroy_nolock_def send_once_destroy_nolock_def lock_port_def Let_def remove_from_parent_def
          notices_def posted_def)
  next
    case SendMany
    note f = many_destroyed_fields[OF alive_right(2)[OF I k a]] and v = many_destroyed_views(2)[of r s]
    have "msg_queue (ports (many_destroyed r s) p) = msg_queue (ports s p) @ posted (notices reason r s) p" for p
      using fun_cong[OF v, of p] SendMany by (auto simp: qv_def notices_def posted_def Let_def split: if_splits)
    then show ?thesis
      using many_destroy_eq[OF I k a SendMany _ _ m, of None] SendMany by (simp add: destroy_def destroy_nolock_def f)
  next
    case MemObject
    then show ?thesis
      using m by (auto simp: destroy_def destroy_nolock_def right_destroy_nolock_def Let_def remove_from_parent_def
          notices_def posted_def)
  qed
qed

section \<open>Properties\<close>



lemma freed_right_keys:
  assumes I: "ipc_inv s" and r: "r \<in> set (rcu_rights s)"
  shows "\<not> r_alive (rights s r)" "gkey s r = None" "rkey s (RR r) = None" "qkey s (QRight r) = None" "skey s r = None"
    "mkey s r = None" "okey s r = None"
proof -
  have "r \<in> k_rights s" using inv_lists[OF I] r by (auto simp: lists_ok_def)
  then have "\<not> r_alive (rights s r) \<and> \<not> r_sent (rights s r)" using inv_right[OF I] r by (simp add: right_ok_def)
  then show "\<not> r_alive (rights s r)" "gkey s r = None" "rkey s (RR r) = None" "qkey s (QRight r) = None" "skey s r = None"
    "mkey s r = None" "okey s r = None"
    using r by (simp_all add: key_defs)
qed

text \<open>
  C32: the memory of a right is handed to read-copy-update at most once, and then the right is dead and in
  no container any more: not in the tree of a group or a port, not in a queue, in no list of a shared
  receive right or a memory object, and in no message.
\<close>

theorem rights_freed_once:
  assumes "ipc_reach s"
  shows "distinct (rcu_rights s) \<and> distinct (rcu_shared s) \<and>
    (\<forall>r. r \<in> set (rcu_rights s) \<longrightarrow>
       \<not> r_alive (rights s r) \<and> (\<forall>g i. g_rights (groups s g) i \<noteq> Some r) \<and> (\<forall>p i. po_rights (ports s p) i \<noteq> Some (RR r)) \<and>
       (\<forall>p. QRight r \<notin> set (msg_queue (ports s p))) \<and> (\<forall>h. r \<notin> set (send_many_rights (shareds s h))) \<and>
       (\<forall>b. r \<notin> set (mo_rights s b)) \<and> (\<forall>m. m \<in> k_msgs s \<longrightarrow> r \<notin> set (somes (m_reply_right (msgs s m) # m_rights (msgs s m)))))"
proof (intro conjI allI impI)
  have I: "ipc_inv s" by (rule ipc_reach_inv[OF assms])
  show "distinct (rcu_rights s)" "distinct (rcu_shared s)" using inv_lists[OF I] by (simp_all add: lists_ok_def)
  fix r
  assume r: "r \<in> set (rcu_rights s)"
  note K = freed_right_keys[OF I r]
  show "\<not> r_alive (rights s r)" by (rule K)
  show "g_rights (groups s g) i \<noteq> Some r" for g i using kindexD[OF inv_gv[OF I], of g i r] K by (simp add: gv_def)
  show "po_rights (ports s p) i \<noteq> Some (RR r)" for p i using kindexD[OF inv_pv[OF I], of p i "RR r"] K by (simp add: pv_def)
  show "QRight r \<notin> set (msg_queue (ports s p))" for p
    using lindexD[OF inv_qv[OF I], of "QRight r" p] K by (simp add: qv_def qkey_but_def)
  show "r \<notin> set (send_many_rights (shareds s h))" for h using lindexD[OF inv_sv[OF I], of r h] K by (simp add: sv_def)
  show "r \<notin> set (mo_rights s b)" for b using lindexD[OF inv_mo[OF I], of r b] K by simp
  show "r \<notin> set (somes (m_reply_right (msgs s m) # m_rights (msgs s m)))" if "m \<in> k_msgs s" for m
    using lindexD[OF inv_sl[OF I], of r m] K that by (simp add: slots_def)
qed

theorem rights_freed_once_witness:
  "\<exists>s. ipc_reach s \<and> 12 \<in> set (rcu_rights s) \<and> distinct (rcu_rights s) \<and> (\<forall>g i. g_rights (groups s g) i \<noteq> Some 12)"
proof -
  have "12 \<in> set (rcu_rights demo_state)" by (simp add: demo_state_def demo_def ipc_init_def ipc_eval)
  with rights_freed_once[OF demo_reach] demo_reach show ?thesis by blast
qed

definition well_typed :: "nat \<Rightarrow> ipc \<Rightarrow> bool" where
  "well_typed r s \<longleftrightarrow>
     (case r_type (rights s r) of
        SendOnce \<Rightarrow> po_rights (ports s (r_parent (rights s r))) (right_parent_id (rights s r)) = Some (RR r)
      | SendMany \<Rightarrow> r_shared (rights s r) \<in> k_shared s \<and> r \<in> set (send_many_rights (shareds s (r_shared (rights s r))))
      | MemObject \<Rightarrow> r \<in> set (mo_rights s (mem_object (rights s r))))"



text \<open>
  C34: a port that pops a message which carries the last right to send to that very port locks itself
  twice: in this reachable state the receive of task 7 never returns. Anybody who has a right to
  the port can send it such a message.
\<close>

theorem pop_front_deadlock:
  "ipc_reach demo_state \<and> po_owner (ports demo_state 1) = 7 \<and>
   syscall_get_first_message 7 (Some 5) 1 (Inr True) False False demo_state = None"
proof -
  have "po_owner (ports demo_state 1) = 7 \<and> syscall_get_first_message 7 (Some 5) 1 (Inr True) False False demo_state = None"
    by (simp add: demo_state_def demo_def ipc_init_def ipc_eval syscall_get_first_message_def get_first_message_def atomic_get_port_def
        get_reply_right_def pop_front_def remove_front_def delete_self_def message_delete_self_def destroy_deleting_message_def)
  then show ?thesis using demo_reach by blast
qed

text \<open>
  C35: the destruction of a live right always works, and the queues grow by exactly the notifications it
  calls for: a right to send once that its sender deletes is itself the message to its port; a right to send many tells
  the port that watches it, and, if it was the last one, its receiver.
\<close>

theorem destroy_notifies:
  assumes "ipc_reach s" "r \<in> k_rights s" "r_alive (rights s r)"
  shows "\<exists>s'. destroy r reason None s = Some (True, s') \<and> \<not> r_alive (rights s' r) \<and>
    (\<forall>p. msg_queue (ports s' p) = msg_queue (ports s p) @ posted (notices reason r s) p)"
  by (rule destroy_queues[OF ipc_reach_inv[OF assms(1)] assms(2,3)])

theorem destroy_notifies_witness:
  "\<exists>s s'. ipc_reach s \<and> destroy 10 DeletedBySender None s = Some (True, s') \<and>
     msg_queue (ports s' 1) = msg_queue (ports s 1) @ [QShared 20]"
proof -
  have a: "10 \<in> k_rights demo_state" "r_alive (rights demo_state 10)"
    and n: "posted (notices DeletedBySender 10 demo_state) 1 = [QShared 20]"
    by (simp_all add: demo_state_def demo_def ipc_init_def ipc_eval notices_def posted_def last_right_def)
  show ?thesis using destroy_notifies[OF demo_reach a, of DeletedBySender] demo_reach n by metis
qed

section \<open>Sending and accepting\<close>

lemma send_delivers_queue:
  assumes I: "ipc_inv s3" and k: "r \<in> k_rights s3" "r_alive (rights s3 r)" and D: "destroy r SendingMessage None s3 = Some (b, s4)"
  shows "\<not> r_alive (rights s4 r) \<and> (\<exists>rest. msg_queue (ports s4 p) = msg_queue (ports s3 p) @ rest) \<and> msgs s4 = msgs s3 \<and>
    (\<forall>x. x \<noteq> r \<longrightarrow> rights s4 x = rights s3 x)"
proof -
  obtain s' where q: "destroy r SendingMessage None s3 = Some (True, s')" "\<not> r_alive (rights s' r)"
      "\<forall>p. msg_queue (ports s' p) = msg_queue (ports s3 p) @ posted (notices SendingMessage r s3) p"
    using destroy_queues[OF I k] by blast
  then have e: "b" "s4 = s'" using D by auto
  have "destroyed r s3 s4"
  proof (rule destroy_inv[OF I k(1), where reason = SendingMessage and match = None])
    fix b' s''
    assume "destroy r SendingMessage None s3 = Some (b', s'')" "b' \<Longrightarrow> destroyed r s3 s''"
    then show "destroyed r s3 s4" using D e by simp
  qed simp_all
  then show ?thesis using q(2,3) e by (auto simp: destroyed_def)
qed

text \<open>
  C36: a message that was sent is in the queue of the port of its right, behind everything that was there, with
  its contents and its rights; these are held by the message alone and no group finds them any more. A right
  to send once is dead then, and so is any right the sender asked to delete.
\<close>

theorem send_delivers:
  assumes "ipc_reach s" "enabled (Send (Some m) ar ah r g reply array data task t always) s"
    and "send_message_right (Some m) ar ah r g reply array data task t always s = Some (Inr res, s')"
  shows "(\<exists>rest. msg_queue (ports s' (parent_port r s)) = msg_queue (ports s (parent_port r s)) @ QMessage m # rest) \<and>
    m_content (msgs s' m) = data \<and> m_rights (msgs s' m) = array \<and> m_sent_with_right (msgs s' m) = right_id_in_reciever r s \<and>
    (\<forall>x. x \<in> set (somes array) \<longrightarrow>
       of_message (rights s' x) \<and> parent_message (rights s' x) = m \<and> (\<forall>h i. atomic_get_right h i s' \<noteq> Some x)) \<and>
    (r_type (rights s r) = SendOnce \<or> always \<longrightarrow> \<not> r_alive (rights s' r))"
proof -
  let ?p = "parent_port r s" and ?d = "r_type (rights s r) = SendOnce \<or> always"
  have I: "ipc_inv s" by (rule ipc_reach_inv[OF assms(1)])
  have k: "r \<in> k_rights s" "\<And>x. x \<in> set (somes array) \<Longrightarrow> x \<in> k_rights s" and len: "length array = 4"
    and t: "t = SendOnce \<or> t = SendMany"
    using assms(2) by (cases t; auto)+
  have ok: "\<not> send_refused (Some m) ar ah r g reply array t always s"
    using send_refused_eq[OF I k(1) t, of "Some m" ar ah g reply array always data task] assms(3) by auto
  have A: "r_alive (rights s r)" "r \<notin> set (somes array)" using ok by (auto simp: send_refused_def)
  obtain m' i s2 s3 b s4 where S: "Some m = Some m'"
    "send_message_right (Some m) ar ah r g reply array data task t always s
      = Some (Inr (if reply = None then None else ar, i), if ?d then s4 else s3)"
    "s3 = enqueue ?p (QMessage m') (s2\<lparr>msgs := (msgs s2)(m' := \<lparr>task_id_from = task,
        m_sent_with_right = right_id_in_reciever r s, m_content = data, m_reply_right = (if reply = None then None else ar),
        m_rights = array, m_port = ?p\<rparr>), k_msgs := insert m' (k_msgs s2)\<rparr>)"
    "ipc_inv s3" "r \<in> k_rights s3" "rights s3 r = rights s r" "destroy r SendingMessage None s3 = Some (b, s4)" "ipc_inv s4"
    "\<forall>p. msg_queue (ports s2 p) = msg_queue (ports s p)"
    "\<forall>x. x \<in> set (somes array) \<longrightarrow> rights s3 x = (rights s x)\<lparr>of_message := True, parent_message := m'\<rparr>"
    by (rule send_done[where data = data and sender = task, OF I k len _ _ _ _ t ok])
      (use assms(2) in \<open>auto simp: fresh_def\<close>)
  have s': "s' = (if ?d then s4 else s3)" and m: "m' = m" using S(1,2) assms(3) by auto
  have q3: "msg_queue (ports s3 ?p) = msg_queue (ports s ?p) @ [QMessage m]" using S(9) by (simp add: S(3) m)
  note D = send_delivers_queue[OF S(4,5) _ S(7), of ?p] and a = A(1)[folded S(6)]
  have "ipc_inv s'" using S(4,8) by (simp add: s')
  then have G: "gkey s' x = None \<Longrightarrow> atomic_get_right h j s' \<noteq> Some x" for x h j
    using kindexD[OF inv_gv[of None "slots s'" s'], of h j x] by (simp add: gv_def atomic_get_right_def)
  have x: "rights s' x = (rights s x)\<lparr>of_message := True, parent_message := m\<rparr>" if "x \<in> set (somes array)" for x
    using S(10) D[OF a] that A(2) m by (auto simp: s')
  then have "gkey s' x = None" if "x \<in> set (somes array)" for x using that by (simp add: gkey_def)
  moreover have "msgs s' m = \<lparr>task_id_from = task, m_sent_with_right = right_id_in_reciever r s, m_content = data,
      m_reply_right = (if reply = None then None else ar), m_rights = array, m_port = ?p\<rparr>"
    using D[OF a] by (simp add: s' S(3) m)
  ultimately show ?thesis using D[OF a] q3 x G by (auto simp: s')
qed

definition demo_before :: ipc where
  "demo_before = the (run (take 4 demo) ipc_init)"

lemma demo_before:
  "run (take 4 demo) ipc_init = Some demo_before"
  "send_message_right (Some 30) None None 12 5 None [Some 10, None, None, None] [1, 2, 3] 7 SendOnce False demo_before
     = Some (Inr (None, 0), demo_state)"
  "enabled (Send (Some 30) None None 12 5 None [Some 10, None, None, None] [1, 2, 3] 7 SendOnce False) demo_before"
  "parent_port 12 demo_before = 1"
  by (simp_all add: demo_before_def demo_state_def demo_def ipc_init_def ipc_eval)

theorem send_delivers_witness:
  "\<exists>s s'. ipc_reach s \<and>
     send_message_right (Some 30) None None 12 5 None [Some 10, None, None, None] [1, 2, 3] 7 SendOnce False s = Some (Inr (None, 0), s') \<and>
     (\<exists>rest. msg_queue (ports s' 1) = msg_queue (ports s 1) @ QMessage 30 # rest) \<and> \<not> r_alive (rights s' 12)"
proof -
  have r: "ipc_reach demo_before" by (rule run_reach[OF ipc_reach.init demo_before(1)])
  have "r_type (rights demo_before 12) = SendOnce" by (simp add: demo_before_def demo_def ipc_init_def ipc_eval)
  then show ?thesis using send_delivers[OF r demo_before(3,2)] r demo_before(2) unfolding demo_before(4) by blast
qed

lemma in_somes: "n < length xs \<Longrightarrow> xs ! n = Some r \<Longrightarrow> r \<in> set (somes xs)"
  by (metis nth_mem set_somes)

lemma new_right_ids_rights:
  "new_right_ids g xs s = (ids, s1) \<Longrightarrow> rights s1 = rights s \<and> k_rights s1 = k_rights s"
  by (induction g xs s arbitrary: ids s1 rule: new_right_ids.induct)
    (auto simp: next_right_id_def Let_def split: prod.splits)

lemma transfer_slot_rights:
  assumes "transfer_slot g m n i s = Some s1" "n < length (m_rights (msgs s m))"
  shows "m_rights (msgs s1 m) = (m_rights (msgs s m))[n := None]" "k_rights s1 = k_rights s"
    "m_rights (msgs s m) ! n \<noteq> Some r \<Longrightarrow> rights s1 r = rights s r"
    "m_rights (msgs s m) ! n = Some r \<Longrightarrow> r_alive (rights s r) \<Longrightarrow>
       rights s1 r = (rights s r)\<lparr>right_sender_id := i, parent_group := g, of_message := False\<rparr>"
proof -
  have "m_rights (msgs s m) ! n = None \<Longrightarrow> m_rights (msgs s m) = (m_rights (msgs s m))[n := None]" by (metis list_update_id)
  then show "m_rights (msgs s1 m) = (m_rights (msgs s m))[n := None]" "k_rights s1 = k_rights s"
    "m_rights (msgs s m) ! n \<noteq> Some r \<Longrightarrow> rights s1 r = rights s r"
    "m_rights (msgs s m) ! n = Some r \<Longrightarrow> r_alive (rights s r) \<Longrightarrow>
       rights s1 r = (rights s r)\<lparr>right_sender_id := i, parent_group := g, of_message := False\<rparr>"
    using assms by (auto simp: transfer_slot_def Let_def split: option.splits if_splits)
qed

lemma transfer_loop_rights:
  assumes "transfer_loop g m n ids s = Some s'" "n + length ids = length (m_rights (msgs s m))"
    "distinct (somes (drop n (m_rights (msgs s m))))"
  shows "m_rights (msgs s' m) = take n (m_rights (msgs s m)) @ replicate (length ids) None \<and> k_rights s' = k_rights s \<and>
    (\<forall>r. r \<notin> set (somes (drop n (m_rights (msgs s m)))) \<longrightarrow> rights s' r = rights s r) \<and>
    (\<forall>j r. j < length ids \<and> m_rights (msgs s m) ! (n + j) = Some r \<and> r_alive (rights s r) \<longrightarrow>
       rights s' r = (rights s r)\<lparr>right_sender_id := ids ! j, parent_group := g, of_message := False\<rparr>)"
  using assms
proof (induction ids arbitrary: n s)
  case (Cons i ids)
  let ?R = "m_rights (msgs s m)"
  have n: "n < length ?R" using Cons.prems(2) by simp
  obtain s1 where s1: "transfer_slot g m n i s = Some s1" "transfer_loop g m (Suc n) ids s1 = Some s'"
    using Cons.prems(1) by (auto split: Option.bind_splits)
  note T = transfer_slot_rights[OF s1(1) n]
  have dr: "drop n ?R = ?R ! n # drop (Suc n) ?R" using n by (simp add: Cons_nth_drop_Suc)
  have d1: "distinct (somes (drop (Suc n) ?R))" using Cons.prems(3) by (cases "?R ! n") (simp_all add: dr)
  have "Suc n + length ids = length (m_rights (msgs s1 m))" "distinct (somes (drop (Suc n) (m_rights (msgs s1 m))))"
    using Cons.prems(2) d1 by (simp_all add: T(1))
  note IH = Cons.IH[OF s1(2) this]
  have mr: "m_rights (msgs s' m) = take n ?R @ replicate (length (i # ids)) None"
    using IH n by (simp add: T(1) take_Suc_conv_app_nth)
  have out: "rights s' r = rights s r" if "r \<notin> set (somes (drop n ?R))" for r
  proof -
    have "?R ! n \<noteq> Some r" "r \<notin> set (somes (drop (Suc n) ?R))" using that by (auto simp: dr set_somes)
    then show ?thesis using IH T(3)[of r] by (simp add: T(1))
  qed
  have "rights s' r = (rights s r)\<lparr>right_sender_id := (i # ids) ! j, parent_group := g, of_message := False\<rparr>"
    if j: "j < length (i # ids)" "?R ! (n + j) = Some r" "r_alive (rights s r)" for j r
  proof (cases j)
    case 0
    then have "?R ! n = Some r" using j by simp
    moreover from this have "r \<notin> set (somes (drop (Suc n) ?R))" using Cons.prems(3) by (simp add: dr)
    ultimately show ?thesis using IH T(4)[of r] j(3) 0 by (simp add: T(1))
  next
    case (Suc j')
    have r: "r \<in> set (somes (drop (Suc n) ?R))"
      using in_somes[of j' "drop (Suc n) ?R" r] j Suc Cons.prems(2) by simp
    then have "?R ! n \<noteq> Some r" using Cons.prems(3) by (auto simp: dr)
    then have "rights s1 r = rights s r" by (rule T(3))
    then show ?thesis using IH j Suc by (simp add: T(1))
  qed
  then show ?case using mr out IH T(2) by auto
qed simp

text \<open>
  C37: accepting the rights of the first message empties its slots, and every right in them that is
  still alive is then a right of the group under the identifier that was reported for its slot.
\<close>

theorem accept_gives_rights:
  assumes "ipc_reach s" "msg_queue (ports s p) = QMessage m # xs" "g_alive (groups s g)"
    and "new_right_ids g (m_rights (msgs s m)) s = (ids, s1)"
  shows "\<exists>s'. transfer_rights g (QMessage m) ids s1 = Some (kok, s') \<and> m_rights (msgs s' m) = replicate 4 None \<and>
    (\<forall>n r. n < 4 \<and> m_rights (msgs s m) ! n = Some r \<and> r_alive (rights s r) \<longrightarrow> atomic_get_right g (ids ! n) s' = Some r)"
proof -
  have I: "ipc_inv s" by (rule ipc_reach_inv[OF assms(1)])
  have m: "m \<in> k_msgs s" by (rule queue_front_message[OF I assms(2)])
  let ?R = "m_rights (msgs s m)"
  have len: "length ?R = 4" using inv_msg[OF I] m by (simp add: msg_ok_def)
  have n: "new_right_ids g (get_rights (QMessage m) s) s = (ids, s1)" using assms(4) by (simp add: get_rights_def)
  note A = accept_exec[OF I assms(2) n] and N = new_right_ids_inv[OF I assms(4)]
  obtain s' where s': "transfer_loop g m 0 ids s1 = Some s'" "transfer_rights g (QMessage m) ids s1 = Some (kok, s')" "ipc_inv s'"
    using A(2) assms(3) N by (auto simp: transfer_rights_def keeps_def)
  have R: "rights s1 = rights s" "k_rights s1 = k_rights s" using new_right_ids_rights[OF assms(4)] by auto
  have "distinct (slots s m)" using lindex_distinct[OF inv_sl[OF I]] .
  then have d: "distinct (somes ?R)" using m by (cases "m_reply_right (msgs s m)") (simp_all add: slots_def)
  have "length xs = length ids" if "fresh_ids h xs ids z" for h xs z
    using that by (induction h xs ids z rule: fresh_ids.induct) auto
  then have lids: "length ids = 4" using N len by metis
  have T: "m_rights (msgs s' m) = replicate 4 None" "k_rights s' = k_rights s"
    "\<And>j r. j < 4 \<Longrightarrow> ?R ! j = Some r \<Longrightarrow> r_alive (rights s r) \<Longrightarrow>
       rights s' r = (rights s r)\<lparr>right_sender_id := ids ! j, parent_group := g, of_message := False\<rparr>"
    using transfer_loop_rights[OF s'(1)] N len lids d R by auto
  have "atomic_get_right g (ids ! n) s' = Some r" if "n < 4" "?R ! n = Some r" "r_alive (rights s r)" for n r
  proof -
    have "r \<in> set (somes ?R)" using in_somes[of n ?R r] that len by simp
    then have "r \<in> set (slots s m)" using m by (cases "m_reply_right (msgs s m)") (simp_all add: slots_def)
    then have "r \<in> k_rights s" using lindexD[OF inv_sl[OF I], of r m] by (simp add: mkey_def split: if_splits)
    then have "gkey s' r = Some (g, ids ! n)" using T(2) T(3)[OF that] that(3) by (simp add: gkey_def)
    then show ?thesis using kindexD[OF inv_gv[OF s'(3)]] by (simp add: gv_def atomic_get_right_def)
  qed
  then show ?thesis using s'(2) T(1) by blast
qed

theorem accept_gives_rights_witness:
  "\<exists>s s' ids s1. ipc_reach s \<and> new_right_ids 5 (m_rights (msgs s 30)) s = (ids, s1) \<and>
     transfer_rights 5 (QMessage 30) ids s1 = Some (kok, s') \<and> atomic_get_right 5 (ids ! 0) s' = Some 10"
proof -
  have d: "g_alive (groups demo_state 5)" "m_rights (msgs demo_state 30) ! 0 = Some 10" "r_alive (rights demo_state 10)"
    by (simp_all add: demo_state_def demo_def ipc_init_def ipc_eval)
  obtain ids s1 where n: "new_right_ids 5 (m_rights (msgs demo_state 30)) demo_state = (ids, s1)" by fastforce
  obtain s' where s': "transfer_rights 5 (QMessage 30) ids s1 = Some (kok, s')"
      "\<forall>n r. n < 4 \<and> m_rights (msgs demo_state 30) ! n = Some r \<and> r_alive (rights demo_state r) \<longrightarrow> atomic_get_right 5 (ids ! n) s' = Some r"
    using accept_gives_rights[OF demo_reach demo_facts d(1) n] by blast
  have "atomic_get_right 5 (ids ! 0) s' = Some 10" using s'(2) d(2,3) by (metis zero_less_numeral)
  then show ?thesis using demo_reach n s'(1) by blast
qed

section \<open>What a receiver is told\<close>

definition slot_type :: "ipc \<Rightarrow> nat option \<Rightarrow> u32" where
  "slot_type s x = (case x of None \<Rightarrow> 0 | Some r \<Rightarrow> of_nat (type_as_int (r_type (rights s r))))"

lemma type_flags_Cons: "type_flags i (x # xs) s f = type_flags (i + 1) xs s (or f (push_bit (16 + i * 4) (slot_type s x)))"
  by (cases x) (simp_all add: slot_type_def)

lemma small_bits: "w = 0 \<or> w = 1 \<or> w = 2 \<or> w = 3 \<Longrightarrow> bit w k \<Longrightarrow> k < 2" for w :: u32
proof -
  have m: "(1::u32) = mask 1" "(3::u32) = mask 2" "(2::u32) = push_bit 1 (mask 1)" by (simp_all add: mask_eq_exp_minus_1)
  show "w = 0 \<or> w = 1 \<or> w = 2 \<or> w = 3 \<Longrightarrow> bit w k \<Longrightarrow> k < 2"
    unfolding m by (auto simp: bit_simps)
qed

lemma slot_type_bits: "bit (slot_type s x) k \<Longrightarrow> k < 2"
  by (rule small_bits[of "slot_type s x"])
    (auto simp: slot_type_def type_as_int_def split: option.splits RightType.splits)

lemma reply_flags_bits:
  "bit (reply_flags reply s) k \<longleftrightarrow> k = 0 \<and> reply \<noteq> None \<or> k = 1 \<and> (\<exists>r. reply = Some r \<and> r_type (rights s r) = SendMany)"
proof -
  have m: "(1::u32) = mask 1" "(2::u32) = push_bit 1 (mask 1)" by (simp_all add: mask_eq_exp_minus_1)
  show ?thesis unfolding reply_flags_def m by (cases reply) (auto simp: bit_simps)
qed

lemma type_flags_bits:
  assumes "k < 32"
  shows "bit (type_flags 0 [a, b, c, d] s f) k \<longleftrightarrow> bit f k \<or> 16 \<le> k \<and> bit (slot_type s a) (k - 16) \<or>
    20 \<le> k \<and> bit (slot_type s b) (k - 20) \<or> 24 \<le> k \<and> bit (slot_type s c) (k - 24) \<or> 28 \<le> k \<and> bit (slot_type s d) (k - 28)"
  using assms by (auto simp: type_flags_Cons bit_simps)

lemma type_field:
  assumes "n < 4" and f: "\<And>k. bit f k \<Longrightarrow> k < 2"
  shows "and (drop_bit (16 + 4 * n) (type_flags 0 [a, b, c, d] s f)) 15 = slot_type s ([a, b, c, d] ! n)"
proof (rule bit_eqI)
  fix k
  assume "possible_bit TYPE(u32) k"
  then have k: "k < 32" by simp
  have e: "(15::u32) = mask 4" by (simp add: mask_eq_exp_minus_1)
  have m: "bit (15::u32) k \<longleftrightarrow> k < 4" unfolding e bit_mask_iff using k by simp
  have nb: "2 \<le> j \<Longrightarrow> \<not> bit (slot_type s y) j" "2 \<le> j \<Longrightarrow> \<not> bit f j" for j y
    using slot_type_bits[of s y j] f[of j] by auto
  have n: "n = 0 \<or> n = 1 \<or> n = 2 \<or> n = 3" using assms(1) by auto
  show "bit (and (drop_bit (16 + 4 * n) (type_flags 0 [a, b, c, d] s f)) 15) k = bit (slot_type s ([a, b, c, d] ! n)) k"
  proof (cases "k < 4")
    case True
    then have "16 + 4 * n + k < 32" using assms(1) by simp
    from type_flags_bits[OF this, of a b c d s f] show ?thesis
      using n True nb m by (auto simp: bit_and_iff bit_drop_bit_eq)
  next
    case False
    then show ?thesis using nb(1)[of k] m by (simp add: bit_and_iff)
  qed
qed



section \<open>The system calls\<close>

lemma lookup_rights_known:
  assumes "ipc_inv s" "lookup_rights g s n ids = Inr xs"
  shows "length xs = length ids \<and> set (somes xs) \<subseteq> k_rights s"
  using assms(2)
proof (induction ids arbitrary: n xs)
  case (Cons i ids)
  have known: "r \<in> k_rights s" if "atomic_get_right g i s = Some r" for r
    using kindexD[OF inv_gv[OF assms(1)], of g i r] that by (auto simp: gv_def atomic_get_right_def gkey_def split: if_splits)
  obtain ys where ys: "lookup_rights g s (n + 1) ids = Inr ys"
    using Cons.prems by (auto split: if_splits sum.splits option.splits)
  show ?case using Cons.prems Cons.IH[OF ys] known ys by (auto split: if_splits option.splits)
qed simp

lemma right_of_id_known:
  assumes "ipc_inv s" "right_of_id g i s = Some r"
  shows "r \<in> k_rights s"
  using kindexD[OF inv_gv[OF assms(1)], of _ _ r] assms(2)
  by (fastforce simp: right_of_id_def atomic_get_right_def gv_def gkey_def split: if_splits)

lemma aux_cases:
  obtains e where "aux = Some (Inl e)" | "aux = Some (Inr None)" | ids where "aux = Some (Inr (Some ids))" | "aux = None"
  by (metis option.exhaust sum.exhaust)

abbreviation aux_ids :: "nat list option ReturnStr option \<Rightarrow> nat list" where
  "aux_ids aux \<equiv> (case aux of Some (Inr (Some ids)) \<Rightarrow> ids | _ \<Rightarrow> replicate 4 0)"

lemma send_syscall_refused:
  assumes refused: "\<nexists>data g r array. args = Inr True \<and> buffer = Inr (Some data) \<and> ns = Some g \<and> right_of_id g i s = Some r \<and>
      \<not> (port \<noteq> 0 \<and> atomic_get_port port s = None) \<and> lookup_rights g s 0 (aux_ids aux) = Inr array"
  shows "\<exists>res. syscall_send_message_right am ar ah task ns i port args buffer aux many always s = Some (res, s)"
proof (cases "\<exists>data g r. args = Inr True \<and> buffer = Inr (Some data) \<and> ns = Some g \<and> right_of_id g i s = Some r")
  case True
  then obtain data g r where A: "args = Inr True" "buffer = Inr (Some data)" "ns = Some g" "right_of_id g i s = Some r"
    by blast
  show ?thesis
  proof (cases "lookup_rights g s 0 (aux_ids aux)")
    case (Inl k)
    show ?thesis
      by (cases aux rule: aux_cases; use Inl in \<open>simp add: syscall_send_message_right_def A Let_def\<close>)
  next
    case (Inr array)
    then have "port \<noteq> 0 \<and> atomic_get_port port s = None" using A refused by blast
    then show ?thesis by (simp add: syscall_send_message_right_def A)
  qed
next
  case False
  then consider e where "args = Inl e" | "args = Inr False" | e where "args = Inr True" "buffer = Inl e"
    | "args = Inr True" "buffer = Inr None" | data where "args = Inr True" "buffer = Inr (Some data)" "ns = None"
    | data g where "args = Inr True" "buffer = Inr (Some data)" "ns = Some g" "right_of_id g i s = None"
    by (metis (full_types) sum.exhaust option.exhaust)
  then show ?thesis by cases (simp_all add: syscall_send_message_right_def)
qed

lemma send_call:
  assumes "ipc_reach s" and e: "enabled (Send am ar ah r g reply array data task t always) s"
  obtains res s' where "send_message_right am ar ah r g reply array data task t always s = Some (res, s')" "ipc_reach s'"
    "\<forall>rep j. res = Inr (rep, j) \<longrightarrow> reply \<noteq> None \<longrightarrow> j \<noteq> 0"
proof -
  have I: "ipc_inv s" by (rule ipc_reach_inv[OF assms(1)])
  have k: "r \<in> k_rights s" "x \<in> set (somes array) \<Longrightarrow> x \<in> k_rights s" and len: "length array = 4" for x
    using e by (simp_all add: subset_eq)
  have t: "t = SendOnce \<or> t = SendMany" using e by (cases t) simp_all
  obtain res s' where s': "send_message_right am ar ah r g reply array data task t always s = Some (res, s')"
    using exec_inv[OF I e] by auto
  then have "ipc_reach s'" using ipc_reach.step[OF assms(1) e] by simp
  moreover have j: "j \<noteq> 0" if res: "res = Inr (rep, j)" "reply \<noteq> None" for rep j
  proof -
    have ok: "\<not> send_refused am ar ah r g reply array t always s"
      using send_refused_eq[OF I k(1) t, of am ar ah g reply array always data task] s' res by auto
    obtain i s3 s4 where "send_message_right am ar ah r g reply array data task t always s
        = Some (Inr (if reply = None then None else ar, i), if r_type (rights s r) = SendOnce \<or> always then s4 else s3)"
        "reply \<noteq> None \<longrightarrow> i \<noteq> 0"
      by (rule send_done[where data = data and sender = task, OF I k len _ _ _ _ t ok])
        (use e in \<open>auto simp: fresh_def split: option.splits\<close>)
    then show ?thesis using s' res by auto
  qed
  ultimately show ?thesis using j by (intro that[OF s']) simp_all
qed

text \<open>
  C39: the system call that sends a message, in any reachable state and whatever identifiers the task
  gives: it returns, its last assertion (a reply port gets an identifier that is not 0) holds, and
  it leaves a reachable state.
\<close>

theorem send_syscall_safe:
  assumes "ipc_reach s" "fresh am (k_msgs s)" "fresh ar (k_rights s)" "fresh ah (k_shared s)"
    and "\<forall>ids. aux = Some (Inr (Some ids)) \<longrightarrow> length ids = 4"
  shows "\<exists>res s'. syscall_send_message_right am ar ah task ns i port args buffer aux many always s = Some (res, s') \<and> ipc_reach s'"
proof -
  have I: "ipc_inv s" by (rule ipc_reach_inv[OF assms(1)])
  let ?t = "if many then SendMany else SendOnce"
  let ?reply = "if port = 0 then None else atomic_get_port port s"
  have len: "length (aux_ids aux) = 4" using assms(5) by (auto split: option.splits sum.splits)
  show ?thesis
  proof (cases "\<exists>data g r array. args = Inr True \<and> buffer = Inr (Some data) \<and> ns = Some g \<and> right_of_id g i s = Some r \<and>
      \<not> (port \<noteq> 0 \<and> atomic_get_port port s = None) \<and> lookup_rights g s 0 (aux_ids aux) = Inr array")
    case False
    from send_syscall_refused[OF this] show ?thesis using assms(1) by blast
  next
    case True
    then obtain data g r array where A: "args = Inr True" "buffer = Inr (Some data)" "ns = Some g" "right_of_id g i s = Some r"
        "\<not> (port \<noteq> 0 \<and> atomic_get_port port s = None)" "lookup_rights g s 0 (aux_ids aux) = Inr array"
      by blast
    have K: "length array = 4" "set (somes array) \<subseteq> k_rights s" using lookup_rights_known[OF I A(6)] len by auto
    have "enabled (Send am ar ah r g ?reply array data task ?t always) s"
      using right_of_id_known[OF I A(4)] K assms(2-4)
      by (auto simp: atomic_get_port_def Let_def split: option.splits if_splits)
    then obtain res s' where S: "send_message_right am ar ah r g ?reply array data task ?t always s = Some (res, s')" "ipc_reach s'"
        "\<forall>rep j. res = Inr (rep, j) \<longrightarrow> ?reply \<noteq> None \<longrightarrow> j \<noteq> 0"
      by (rule send_call[OF assms(1)])
    note S' = S(1,2) assms(1) A(5,6)
    show ?thesis
    proof (cases res)
      case (Inl x)
      obtain e k where "x = (e, k)" by (cases x)
      then show ?thesis using Inl S'
        by (cases aux rule: aux_cases) (simp_all add: syscall_send_message_right_def A(1-4) Let_def)
    next
      case (Inr x)
      obtain rep j where x: "x = (rep, j)" by (cases x)
      then have "?reply = None \<or> 0 < j" using Inr S(3) by auto
      then show ?thesis using Inr x S'
        by (cases aux rule: aux_cases) (simp_all add: syscall_send_message_right_def A(1-4) Let_def)
    qed
  qed
qed

theorem send_syscall_safe_witness:
  "\<exists>s. ipc_reach s \<and> fresh (Some 31) (k_msgs s) \<and>
     (\<exists>res s'. syscall_send_message_right (Some 31) (Some 13) None 7 (Some 5) 1 1 (Inr True) (Inr (Some [9])) None False False s
        = Some (res, s') \<and> ipc_reach s')"
proof -
  have r: "ipc_reach demo_before" by (rule run_reach[OF ipc_reach.init demo_before(1)])
  have f: "fresh (Some 31) (k_msgs demo_before)" "fresh (Some 13) (k_rights demo_before)" "fresh None (k_shared demo_before)"
    by (simp_all add: demo_before_def demo_def ipc_init_def ipc_eval)
  show ?thesis using send_syscall_safe[OF r f, of None 7 "Some 5" 1 1 "Inr True" "Inr (Some [9])" False False] r f(1) by auto
qed


end
