(* ===== verification/Spec2Isabelle.thy ===== *)
theory Spec2Isabelle
  imports Prelude Timers Timers_Inv Timers_Props Links SchedQueue IntrusiveList Rcu CString CString_Props
    StrToInt StrToInt_Props Pmm Pmm_Inv Pmm_Sys Pmm_Props Ipc Ipc_Inv Ipc_Destroy Ipc_Ops Ipc_Create Ipc_Send Ipc_Receive Ipc_Sys
    Ipc_Calls Ipc_Props
begin

text \<open>
  pmOS: a microkernel and the libraries of its user space. Tasks of the kernel talk through ports; a task names
  a port, a memory object or a timer by a right of its task group. The development models the parts of the kernel whose
  correctness rests on long sequences of operations, and the parts of the C library that are pure
  functions of memory. Paths below are under \<open>src/\<close>; \<open>generic\<close> is \<open>kernel/generic\<close>.

  \<^bold>\<open>How the parts interact.\<close> The physical memory manager hands out runs of pages; its free lists
  are the circular intrusive lists. Rights, ports, shared receive rights and timers are freed through
  read-copy-update, which calls back when every processor has passed a quiet state. A timer right
  sits in the timer queue of a processor and sends itself to a port when it expires. A right is in the tree of a
  task group or in a message, and in the tree of its port; a message is in the queue of a port and holds rights.

  \<^bold>\<open>Conventions.\<close> An object is an address (a natural number) into a store that is a function; a class is a record; a call that
  can fail returns a sum whose left side is the error (\<open>ReturnStr\<close>, \<open>kresult_t\<close>); \<open>None\<close> of an operation
  is what the code never gets out of: a failed assertion, a lock that is taken twice, an access
  to memory that was freed. What code outside the model returns (an allocation, a copy from or
  to the memory of a task) is an argument. A state machine is a datatype of events, a
  guard \<open>enabled\<close>, a function \<open>exec\<close> and an inductive set of reachable states.

  \<^bold>\<open>Theories.\<close>
  \<^item> \<open>Prelude\<close>: error codes, results, assertions, lemmas on lists and options that the components share.
  \<^item> \<open>Timers\<close> models \<open>generic/sched/timers.cc\<close>, \<open>timers.hh\<close> and the timer part of \<open>sched.cc\<close> and of
    \<open>kernel/arch/riscv64/cpus/timer.cc\<close>: timer rights, the queues of each processor, the interrupt.
    \<open>Timers_Inv\<close> proves the invariant for every step of every interleaving; \<open>Timers_Props\<close> (C1 to C5) that no assertion fails, a timer is
    freed once, the hardware is armed early enough, the interrupt ends and fires what is due, and an accepted
    deadline is honoured.
  \<^item> \<open>Links\<close> is the theory of cells with two pointers that spell out a list. \<open>SchedQueue\<close> models \<open>generic/sched/sched_queue.cc\<close>,
    \<open>IntrusiveList\<close> models \<open>libs/sysroot/include/pmos/containers/intrusive_list.hh\<close>; both are refined to lists (C6 to C9).
  \<^item> \<open>Rcu\<close> models \<open>generic/memory/rcu.cc\<close>: generations, batches, \<open>quiet\<close> split where its lock is released. C10 to C13: callbacks are
    called once, what a callback has waited for, and a run with three processors in which it is called too early.
  \<^item> \<open>CString\<close>, \<open>CString_Props\<close> (C14 to C20): \<open>libs/lib/libc/src/generic/string.c\<close> and the character classes
    over a byte memory. \<open>StrToInt\<close>, \<open>StrToInt_Props\<close> (C21 to C23): the functions that read numbers.
  \<^item> \<open>Pmm\<close> models \<open>generic/memory/pmm.cc\<close>: page descriptors with boundary tags, lists of free runs by
    order. \<open>Pmm_Inv\<close> has the invariant, \<open>Pmm_Sys\<close> the system of clients, \<open>Pmm_Props\<close> (C24 to C30) that runs never overlap,
    allocation and coalescing are exact, and the cases in which allocation succeeds and fails.
  \<^item> \<open>Ipc\<close> models \<open>generic/messaging\<close> (\<open>rights.cc\<close>, \<open>messaging.cc\<close> and their headers) and the rights of \<open>generic/processes/task_group.cc\<close>:
    the three kinds of rights, ports, messages, task groups, and every operation that moves, creates or destroys a right. \<open>Ipc_Calls\<close>
    models the calls of \<open>generic/processes/syscalls.cc\<close> on them.
    \<open>Ipc_Inv\<close> says of each container by a key function of its elements which elements it has, with one locale for trees
    of rights, one for queues and one for lists of members, each interpreted on the containers of the model. \<open>Ipc_Destroy\<close>, \<open>Ipc_Ops\<close>, \<open>Ipc_Create\<close>,
    \<open>Ipc_Send\<close> and \<open>Ipc_Receive\<close> show that each operation keeps the invariant and passes its assertions;
    \<open>Ipc_Sys\<close> is the state machine. \<open>Ipc_Props\<close> (C31 to C40): safety of all sequences, rights are freed once, lookups are
    well typed, notifications and deliveries are exact, message descriptors decode, the call that sends a message is safe, and two
    faults: a receive that locks its own port twice, and accepting rights from an empty port.

  \<^bold>\<open>Granularity.\<close> An operation that runs under one lock is one step. Where the code releases its locks in
  between, the operation is split there: timers (attention, interrupt), \<open>quiet\<close> of read-copy-update, and the loops that
  destroy the rights of a port, of a group or of a shared receive right one at a time. Orders of locks of
  different objects are not modelled, and neither is the moment between the two updates of one locked region.

  \<^bold>\<open>Bounds and termination.\<close> No model uses fuel. A loop that stops only at a terminator in memory (\<open>CString\<close>) or at the end of a chain of pointers is
  a partial function whose result is an option, and the properties state that it returns; all other functions are total. Loops over pages recurse on the number of pages that are left, loops over lists on the
  list. Machine integers are words where wrap-around matters (C library, generation counter, flags of descriptors);
  identifiers, page numbers and physical addresses are natural numbers: 64-bit counters that only count up are taken
  not to wrap around.

  \<^bold>\<open>Not modelled.\<close> The heap and \<open>malloc\<close> (third party); page tables, address spaces and memory objects beyond the
  list of their rights; interrupt controllers, context switches, the life cycle of tasks and the
  choice of the next task; boot; search trees as pointer structures (a tree is a map); notifier ports of
  task groups; waking the owner of a port; the system calls on memory, tasks and interrupts; streams, files and threads of the C library;
  the servers and drivers, whose behaviour is that of registers or of messages of other
  programs. A property of these would be one of the model of the hardware or of the peer, which the source does not give.
\<close>

end
